(* ===== verification/Xv6_Prelude.thy ===== *)
theory Xv6_Prelude
  imports Main "HOL-Library.Word"
begin

text \<open>
  Shared vocabulary of the development: machine integer types, threads of kernel code (state
  transformers that may panic, give up the processor or spin), loops over tables, weakest
  preconditions for threads, little-endian encodings in byte arrays, and the two interfaces that
  several components share: invariants of transition systems and ring buffers with wrapping
  counters.
\<close>

subsection \<open>Integer types\<close>

type_synonym u8 = "8 word"
type_synonym u32 = "32 word"
type_synonym u64 = "64 word"

type_synonym bytes = "nat \<Rightarrow> u8"

named_theorems exec_simps "closed forms of kernel operations, for running threads"
named_theorems le_simps "reading and writing little-endian integers"

subsection \<open>Threads\<close>

text \<open>
  A run of kernel code on one processor, from a call to its end. \<open>Done\<close> returns a value, \<open>Panic\<close> is
  a call of \<^verbatim>\<open>panic()\<close>, \<open>Swtch\<close> is the state in which the thread calls \<^verbatim>\<open>swtch()\<close> to leave the
  processor to the scheduler (what the thread does when it is resumed is a definition of its own),
  \<open>Spin\<close> is the state in which the thread waits in a loop that only another processor, or a device,
  can end.
\<close>

datatype ('s, 'a) outcome = Done 'a 's | Panic string | Swtch 's | Spin 's

type_synonym ('s, 'a) thread = "'s \<Rightarrow> ('s, 'a) outcome"

definition ret :: "'a \<Rightarrow> ('s, 'a) thread" where
  "ret a s = Done a s"

definition bind :: "('s, 'a) thread \<Rightarrow> ('a \<Rightarrow> ('s, 'b) thread) \<Rightarrow> ('s, 'b) thread" where
  "bind m f s = (case m s of Done a t \<Rightarrow> f a t | Panic e \<Rightarrow> Panic e | Swtch t \<Rightarrow> Swtch t | Spin t \<Rightarrow> Spin t)"

definition seq :: "('s, 'a) thread \<Rightarrow> ('s, 'b) thread \<Rightarrow> ('s, 'b) thread" where
  "seq m n = bind m (\<lambda>_. n)"

definition gets :: "('s \<Rightarrow> 'a) \<Rightarrow> ('s, 'a) thread" where
  "gets f s = Done (f s) s"

definition modify :: "('s \<Rightarrow> 's) \<Rightarrow> ('s, unit) thread" where
  "modify f s = Done () (f s)"

definition panic :: "string \<Rightarrow> ('s, 'a) thread" where
  "panic e s = Panic e"

definition spin :: "('s, 'a) thread" where
  "spin s = Spin s"

definition whenM :: "bool \<Rightarrow> ('s, unit) thread \<Rightarrow> ('s, unit) thread" where
  "whenM b m = (if b then m else ret ())"

text \<open>The counting loops of the kernel: over every index, and with an early \<^verbatim>\<open>return\<close> or \<^verbatim>\<open>break\<close>.\<close>

primrec for_each :: "'i list \<Rightarrow> ('i \<Rightarrow> ('s, unit) thread) \<Rightarrow> ('s, unit) thread" where
  "for_each [] body = ret ()"
| "for_each (x # xs) body = seq (body x) (for_each xs body)"

primrec scan :: "'i list \<Rightarrow> ('i \<Rightarrow> ('s, 'r option) thread) \<Rightarrow> ('s, 'r option) thread" where
  "scan [] body = ret None"
| "scan (x # xs) body =
     bind (body x) (\<lambda>r. case r of Some v \<Rightarrow> ret (Some v) | None \<Rightarrow> scan xs body)"

lemma bind_exec [exec_simps]:
  "bind m f s = (case m s of Done a t \<Rightarrow> f a t | Panic e \<Rightarrow> Panic e | Swtch t \<Rightarrow> Swtch t | Spin t \<Rightarrow> Spin t)"
  by (simp add: bind_def)

lemma seq_exec [exec_simps]:
  "seq m n s = (case m s of Done a t \<Rightarrow> n t | Panic e \<Rightarrow> Panic e | Swtch t \<Rightarrow> Swtch t | Spin t \<Rightarrow> Spin t)"
  by (simp add: seq_def bind_def)

lemma bind_Done: "m s = Done a t \<Longrightarrow> bind m f s = f a t"
  by (simp add: bind_def)

lemma seq_Done: "m s = Done a t \<Longrightarrow> seq m n s = n t"
  by (simp add: seq_def bind_def)

lemma ret_exec [exec_simps]: "ret a s = Done a s"
  by (simp add: ret_def)

lemma gets_exec [exec_simps]: "gets f s = Done (f s) s"
  by (simp add: gets_def)

lemma modify_exec [exec_simps]: "modify f s = Done () (f s)"
  by (simp add: modify_def)

lemma panic_exec [exec_simps]: "panic e s = Panic e"
  by (simp add: panic_def)

lemma spin_exec [exec_simps]: "spin s = Spin s"
  by (simp add: spin_def)

lemma whenM_True [exec_simps]: "whenM True m = m"
  by (simp add: whenM_def)

lemma whenM_False [exec_simps]: "whenM False m s = Done () s"
  by (simp add: whenM_def ret_def)

lemma bind_assoc: "bind (bind m f) g = bind m (\<lambda>a. bind (f a) g)"
  by (rule ext) (simp add: bind_def split: outcome.split)

lemma bind_eq_Done_iff:
  "bind m f s = Done b u \<longleftrightarrow> (\<exists>a t. m s = Done a t \<and> f a t = Done b u)"
  by (cases "m s") (simp_all add: bind_def)

lemma seq_eq_Done_iff:
  "seq m n s = Done b u \<longleftrightarrow> (\<exists>a t. m s = Done a t \<and> n t = Done b u)"
  by (simp add: seq_def bind_eq_Done_iff)

lemma for_each_append: "for_each (xs @ ys) body = seq (for_each xs body) (for_each ys body)"
proof (induction xs)
  case Nil
  show ?case by (rule ext) (simp add: seq_def bind_def ret_def)
next
  case (Cons x xs)
  then show ?case by (simp add: seq_def bind_assoc)
qed

subsection \<open>Weakest preconditions\<close>

text \<open>
  \<open>wp m Q s\<close>: from \<open>s\<close> the thread returns, without a panic and without waiting, and its result and
  final state satisfy \<open>Q\<close>. \<open>wlp m Q s\<close> asks for \<open>Q\<close> only where the thread returns.
\<close>

definition wp :: "('s, 'a) thread \<Rightarrow> ('a \<Rightarrow> 's \<Rightarrow> bool) \<Rightarrow> 's \<Rightarrow> bool" where
  "wp m Q s = (case m s of Done a t \<Rightarrow> Q a t | _ \<Rightarrow> False)"

definition wlp :: "('s, 'a) thread \<Rightarrow> ('a \<Rightarrow> 's \<Rightarrow> bool) \<Rightarrow> 's \<Rightarrow> bool" where
  "wlp m Q s = (case m s of Done a t \<Rightarrow> Q a t | _ \<Rightarrow> True)"

lemma wp_iff: "wp m Q s \<longleftrightarrow> (\<exists>a t. m s = Done a t \<and> Q a t)"
  by (simp add: wp_def split: outcome.split)

lemma wlp_iff: "wlp m Q s \<longleftrightarrow> (\<forall>a t. m s = Done a t \<longrightarrow> Q a t)"
  by (simp add: wlp_def split: outcome.split)

lemma wp_ret [simp]: "wp (ret a) Q s = Q a s"
  by (simp add: wp_def ret_def)

lemma wp_gets [simp]: "wp (gets f) Q s = Q (f s) s"
  by (simp add: wp_def gets_def)

lemma wp_modify [simp]: "wp (modify f) Q s = Q () (f s)"
  by (simp add: wp_def modify_def)

lemma wp_panic [simp]: "wp (panic e) Q s = False"
  by (simp add: wp_def panic_def)

lemma wp_bind [simp]: "wp (bind m f) Q s = wp m (\<lambda>a. wp (f a) Q) s"
  by (simp add: wp_def bind_def split: outcome.split)

lemma wp_seq [simp]: "wp (seq m n) Q s = wp m (\<lambda>_. wp n Q) s"
  by (simp add: seq_def)

lemma wp_when [simp]: "wp (whenM b m) Q s = (if b then wp m Q s else Q () s)"
  by (simp add: whenM_def)

lemma wlp_ret [simp]: "wlp (ret a) Q s = Q a s"
  by (simp add: wlp_def ret_def)

lemma wlp_gets [simp]: "wlp (gets f) Q s = Q (f s) s"
  by (simp add: wlp_def gets_def)

lemma wlp_modify [simp]: "wlp (modify f) Q s = Q () (f s)"
  by (simp add: wlp_def modify_def)

lemma wlp_panic [simp]: "wlp (panic e) Q s = True"
  by (simp add: wlp_def panic_def)

lemma wlp_bind [simp]: "wlp (bind m f) Q s = wlp m (\<lambda>a. wlp (f a) Q) s"
  by (simp add: wlp_def bind_def split: outcome.split)

lemma wlp_seq [simp]: "wlp (seq m n) Q s = wlp m (\<lambda>_. wlp n Q) s"
  by (simp add: seq_def)

lemma wlp_when [simp]: "wlp (whenM b m) Q s = (if b then wlp m Q s else Q () s)"
  by (simp add: whenM_def)

lemma wp_mono: "wp m P s \<Longrightarrow> (\<And>a t. P a t \<Longrightarrow> Q a t) \<Longrightarrow> wp m Q s"
  by (auto simp: wp_iff)

lemma wlp_mono: "wlp m P s \<Longrightarrow> (\<And>a t. P a t \<Longrightarrow> Q a t) \<Longrightarrow> wlp m Q s"
  by (auto simp: wlp_iff)

lemma wp_imp_wlp: "wp m Q s \<Longrightarrow> wlp m Q s"
  by (auto simp: wp_iff wlp_iff)

text \<open>A counting loop keeps an invariant indexed by the position of the next element.\<close>

lemma wp_for_each:
  assumes "I 0 s"
    and "\<And>k s. k < length xs \<Longrightarrow> I k s \<Longrightarrow> wp (body (xs ! k)) (\<lambda>_. I (Suc k)) s"
  shows "wp (for_each xs body) (\<lambda>_. I (length xs)) s"
  using assms
proof (induction xs arbitrary: I s)
  case Nil
  then show ?case by simp
next
  case (Cons x xs)
  have rest: "wp (for_each xs body) (\<lambda>_. I (Suc (length xs))) t" if "I (Suc 0) t" for t
    using Cons.IH [of "\<lambda>k. I (Suc k)" t] Cons.prems(2) [of "Suc _"] that by force
  have "wp (body x) (\<lambda>_. I (Suc 0)) s"
    using Cons.prems(2) [of 0 s] Cons.prems(1) by simp
  then have "wp (body x) (\<lambda>_. wp (for_each xs body) (\<lambda>_. I (Suc (length xs)))) s"
    by (rule wp_mono) (rule rest)
  then show ?case by simp
qed


text \<open>A loop with an early exit: the body either exits with a value satisfying \<open>Q\<close> or keeps \<open>I\<close>.\<close>

lemma wp_scan:
  assumes "I 0 s"
    and "\<And>k s. k < length xs \<Longrightarrow> I k s \<Longrightarrow>
      wp (body (xs ! k)) (\<lambda>r t. case r of None \<Rightarrow> I (Suc k) t | Some v \<Rightarrow> Q (Some v) t) s"
    and "\<And>s. I (length xs) s \<Longrightarrow> Q None s"
  shows "wp (scan xs body) Q s"
  using assms
proof (induction xs arbitrary: I s)
  case Nil
  then show ?case by simp
next
  case (Cons x xs)
  have rest: "wp (scan xs body) Q t" if "I (Suc 0) t" for t
    using Cons.IH [of "\<lambda>k. I (Suc k)" t] Cons.prems(2) [of "Suc _"] Cons.prems(3) that by force
  have "wp (body x) (\<lambda>r t. case r of None \<Rightarrow> I (Suc 0) t | Some v \<Rightarrow> Q (Some v) t) s"
    using Cons.prems(2) [of 0 s] Cons.prems(1) by simp
  then have "wp (body x) (\<lambda>r. wp (case r of None \<Rightarrow> scan xs body | Some v \<Rightarrow> ret (Some v)) Q) s"
    by (rule wp_mono) (auto split: option.splits intro: rest)
  then show ?case by simp
qed

text \<open>Scans whose body leaves one fixed state behind where it does not exit.\<close>

lemma scan_miss:
  assumes "\<And>x. x \<in> set xs \<Longrightarrow> body x s = Done None t" "\<And>x. x \<in> set xs \<Longrightarrow> body x t = Done None t"
  shows "scan xs body s = Done None (if xs = [] then s else t)"
proof -
  have t: "scan ys body t = Done None t" if "set ys \<subseteq> set xs" for ys
    using that by (induction ys) (simp_all add: ret_def bind_def assms(2))
  show ?thesis
    by (cases xs) (use t assms(1) in \<open>auto simp: ret_def bind_def\<close>)
qed

lemma scan_hit:
  assumes "\<And>x. x \<in> set xs \<Longrightarrow> body x s = Done None t" "\<And>x. x \<in> set xs \<Longrightarrow> body x t = Done None t"
    and "body y (if xs = [] then s else t) = Done (Some v) u"
  shows "scan (xs @ y # ys) body s = Done (Some v) u"
proof -
  have t: "scan (zs @ y # ys) body t = Done (Some v) u" if "set zs \<subseteq> set xs" "body y t = Done (Some v) u" for zs
    using that by (induction zs) (simp_all add: ret_def bind_def assms(2))
  show ?thesis
    by (cases xs) (use t assms(1,3) in \<open>auto simp: ret_def bind_def\<close>)
qed

lemma upt_split: "k < n \<Longrightarrow> [0..<n] = [0..<k] @ k # [Suc k..<n]"
  using upt_add_eq_append [of 0 k "n - k"] by (simp add: upt_conv_Cons)

subsection \<open>Frames\<close>

text \<open>
  \<open>keeps v m\<close>: whenever the thread \<open>m\<close> returns, the part \<open>v\<close> of the state is what it was before. The
  rules for the control structures are collected in \<open>keeps_intros\<close>; each component adds its operations.
\<close>

named_theorems keeps_intros "operations and control structures that keep a part of the state"

definition keeps :: "('s \<Rightarrow> 'v) \<Rightarrow> ('s, 'a) thread \<Rightarrow> bool" where
  "keeps v m = (\<forall>s a t. m s = Done a t \<longrightarrow> v t = v s)"

lemma keepsD: "keeps v m \<Longrightarrow> m s = Done a t \<Longrightarrow> v t = v s"
  by (simp add: keeps_def)

lemma keeps_ret [keeps_intros]: "keeps v (ret a)"
  by (simp add: keeps_def ret_def)

lemma keeps_gets [keeps_intros]: "keeps v (gets f)"
  by (simp add: keeps_def gets_def)

lemma keeps_panic [keeps_intros]: "keeps v (panic e)"
  by (simp add: keeps_def panic_def)

lemma keeps_spin [keeps_intros]: "keeps v spin"
  by (simp add: keeps_def spin_def)

lemma keeps_bind [keeps_intros]: "keeps v m \<Longrightarrow> (\<And>a. keeps v (f a)) \<Longrightarrow> keeps v (bind m f)"
  unfolding keeps_def bind_eq_Done_iff by metis

lemma keeps_seq [keeps_intros]: "keeps v m \<Longrightarrow> keeps v n \<Longrightarrow> keeps v (seq m n)"
  unfolding keeps_def seq_eq_Done_iff by metis

lemma keeps_whenM [keeps_intros]: "(b \<Longrightarrow> keeps v m) \<Longrightarrow> keeps v (whenM b m)"
  by (simp add: whenM_def keeps_ret)

lemma keeps_if [keeps_intros]: "(b \<Longrightarrow> keeps v m) \<Longrightarrow> (\<not> b \<Longrightarrow> keeps v n) \<Longrightarrow> keeps v (if b then m else n)"
  by simp

lemma keeps_modify: "(\<And>s. v (f s) = v s) \<Longrightarrow> keeps v (modify f)"
  by (simp add: keeps_def modify_def)

lemma keeps_for_each [keeps_intros]: "(\<And>x. keeps v (body x)) \<Longrightarrow> keeps v (for_each xs body)"
  by (induction xs) (auto intro: keeps_intros)

lemma keeps_scan [keeps_intros]: "(\<And>x. keeps v (body x)) \<Longrightarrow> keeps v (scan xs body)"
  by (induction xs) (auto intro!: keeps_intros split: option.split)

lemma keeps_let [keeps_intros]: "keeps v (f a) \<Longrightarrow> keeps v (let x = a in f x)"
  by simp

lemma keeps_option [keeps_intros]:
  "(r = None \<Longrightarrow> keeps v m) \<Longrightarrow> (\<And>x. r = Some x \<Longrightarrow> keeps v (f x)) \<Longrightarrow> keeps v (case r of None \<Rightarrow> m | Some x \<Rightarrow> f x)"
  by (cases r) auto

lemma keeps_sum [keeps_intros]:
  "(\<And>x. r = Inl x \<Longrightarrow> keeps v (f x)) \<Longrightarrow> (\<And>x. r = Inr x \<Longrightarrow> keeps v (g x)) \<Longrightarrow> keeps v (case r of Inl x \<Rightarrow> f x | Inr x \<Rightarrow> g x)"
  by (cases r) auto

lemma keeps_prod [keeps_intros]: "(\<And>x y. r = (x, y) \<Longrightarrow> keeps v (f x y)) \<Longrightarrow> keeps v (case r of (x, y) \<Rightarrow> f x y)"
  by (cases r) auto

text \<open>
  \<open>stays v m\<close>: the part \<open>v\<close> of the state is what it was before when the thread \<open>m\<close> returns, and also when it leaves the processor or waits
  for a lock.
\<close>

named_theorems stays_intros "operations and control structures that leave a part of the state alone, also when they wait"

definition stays :: "('s \<Rightarrow> 'v) \<Rightarrow> ('s, 'a) thread \<Rightarrow> bool" where
  "stays v m = (\<forall>s t. (\<exists>a. m s = Done a t) \<or> m s = Swtch t \<or> m s = Spin t \<longrightarrow> v t = v s)"

lemma stays_exec: "stays v m \<longleftrightarrow> (\<forall>s. case m s of Done a t \<Rightarrow> v t = v s | Panic e \<Rightarrow> True | Swtch t \<Rightarrow> v t = v s | Spin t \<Rightarrow> v t = v s)"
  by (auto simp: stays_def split: outcome.splits)

lemma staysD: "stays v m \<Longrightarrow> m s = Done a t \<or> m s = Swtch t \<or> m s = Spin t \<Longrightarrow> v t = v s"
  unfolding stays_def by blast

lemma stays_bind [stays_intros]: "stays v m \<Longrightarrow> (\<And>a. stays v (f a)) \<Longrightarrow> stays v (bind m f)"
  unfolding stays_exec bind_exec by (force split: outcome.splits)

lemma stays_seq [stays_intros]: "stays v m \<Longrightarrow> stays v n \<Longrightarrow> stays v (seq m n)"
  unfolding seq_def by (intro stays_bind)

lemma stays_basic [stays_intros]:
  "stays v (ret a)" "stays v (gets f)" "stays v (panic e)" "stays v spin" "stays v (\<lambda>s. Swtch s)"
  by (simp_all add: stays_exec exec_simps)

lemma stays_modify: "(\<And>s. v (f s) = v s) \<Longrightarrow> stays v (modify f)"
  by (simp add: stays_exec exec_simps)

lemma stays_if [stays_intros]: "stays v m \<Longrightarrow> stays v n \<Longrightarrow> stays v (if b then m else n)"
  by simp

lemma stays_whenM [stays_intros]: "stays v m \<Longrightarrow> stays v (whenM b m)"
  unfolding whenM_def by (intro stays_intros)

lemma stays_for_each [stays_intros]: "(\<And>x. stays v (body x)) \<Longrightarrow> stays v (for_each xs body)"
  by (induction xs) (auto intro: stays_intros)

lemma stays_let [stays_intros]: "stays v (f a) \<Longrightarrow> stays v (let x = a in f x)"
  by simp

lemma stays_option [stays_intros]: "stays v m \<Longrightarrow> (\<And>x. stays v (f x)) \<Longrightarrow> stays v (case r of None \<Rightarrow> m | Some x \<Rightarrow> f x)"
  by (simp split: option.split)

lemma stays_prod [stays_intros]: "(\<And>x y. stays v (f x y)) \<Longrightarrow> stays v (case r of (x, y) \<Rightarrow> f x y)"
  by (simp split: prod.split)

subsection \<open>Little-endian integers in byte arrays\<close>

definition byte_of :: "nat \<Rightarrow> nat \<Rightarrow> u8" where
  "byte_of k v = of_nat (v div 256 ^ k)"

primrec le_val :: "nat \<Rightarrow> (nat \<Rightarrow> u8) \<Rightarrow> nat" where
  "le_val 0 f = 0"
| "le_val (Suc n) f = unat (f 0) + 256 * le_val n (\<lambda>k. f (Suc k))"

definition rd :: "nat \<Rightarrow> bytes \<Rightarrow> nat \<Rightarrow> nat" where
  "rd n d off = le_val n (\<lambda>k. d (off + k))"

definition wr :: "nat \<Rightarrow> nat \<Rightarrow> nat \<Rightarrow> bytes \<Rightarrow> bytes" where
  "wr n v off d = (\<lambda>i. if off \<le> i \<and> i < off + n then byte_of (i - off) v else d i)"

text \<open>\<open>memmove\<close> between two different arrays, and \<open>memset\<close>.\<close>

definition blit :: "nat \<Rightarrow> bytes \<Rightarrow> nat \<Rightarrow> nat \<Rightarrow> bytes \<Rightarrow> bytes" where
  "blit n src soff doff dst = (\<lambda>i. if doff \<le> i \<and> i < doff + n then src (soff + (i - doff)) else dst i)"

definition fill :: "nat \<Rightarrow> u8 \<Rightarrow> nat \<Rightarrow> bytes \<Rightarrow> bytes" where
  "fill n c off d = (\<lambda>i. if off \<le> i \<and> i < off + n then c else d i)"

text \<open>Two's complement: the value of a \<^verbatim>\<open>short\<close> or an \<^verbatim>\<open>int\<close> with given bits, and its bits.\<close>

definition s16 :: "nat \<Rightarrow> int" where
  "s16 v = (if v < 2 ^ 15 then int v else int v - 2 ^ 16)"

definition s32 :: "nat \<Rightarrow> int" where
  "s32 v = (if v < 2 ^ 31 then int v else int v - 2 ^ 32)"

definition bits16 :: "int \<Rightarrow> nat" where
  "bits16 i = nat (i mod 2 ^ 16)"

definition bits32 :: "int \<Rightarrow> nat" where
  "bits32 i = nat (i mod 2 ^ 32)"

lemma blit_0 [simp]: "blit 0 src soff doff dst = dst"
  by (rule ext) (auto simp: blit_def)

lemma fill_0 [simp]: "fill 0 c off d = d"
  by (rule ext) (auto simp: fill_def)

text \<open>The difference of two bytes, as C computes it after promotion to \<^verbatim>\<open>int\<close>.\<close>

definition byte_diff :: "u8 \<Rightarrow> u8 \<Rightarrow> int" where
  "byte_diff a b = int (unat a) - int (unat b)"

lemma byte_diff_0 [simp]: "byte_diff a b = 0 \<longleftrightarrow> a = b"
  by (simp only: byte_diff_def word_unat_eq_iff right_minus_eq of_nat_eq_iff)

lemma unat_u8_less: "unat (x :: u8) < 256"
  using unsigned_less [of x] by simp

lemma byte_of_0: "byte_of 0 v = of_nat v"
  by (simp add: byte_of_def)

lemma byte_of_Suc: "byte_of (Suc k) v = byte_of k (v div 256)"
  by (simp add: byte_of_def div_mult2_eq)

lemma unat_byte_of: "unat (byte_of k v) = v div 256 ^ k mod 256"
  by (simp add: byte_of_def unat_of_nat)

lemma le_val_byte_of: "(\<And>k. k < n \<Longrightarrow> f k = byte_of k v) \<Longrightarrow> le_val n f = v mod 256 ^ n"
proof (induction n arbitrary: f v)
  case 0
  then show ?case by simp
next
  case (Suc n)
  have "le_val n (\<lambda>k. f (Suc k)) = v div 256 mod 256 ^ n"
    by (rule Suc.IH) (simp add: Suc.prems byte_of_Suc)
  moreover have "unat (f 0) = v mod 256"
    by (simp add: Suc.prems unat_byte_of)
  ultimately show ?case
    by (simp add: mod_mult2_eq)
qed

lemma le_val_cong: "(\<And>k. k < n \<Longrightarrow> f k = g k) \<Longrightarrow> le_val n f = le_val n g"
proof (induction n arbitrary: f g)
  case 0
  then show ?case by simp
next
  case (Suc n)
  have "le_val n (\<lambda>k. f (Suc k)) = le_val n (\<lambda>k. g (Suc k))"
    by (rule Suc.IH) (simp add: Suc.prems)
  then show ?case by (simp add: Suc.prems)
qed

lemma le_val_zeros [simp]: "le_val n (\<lambda>k. 0) = 0"
  by (induction n) simp_all

lemma le_val_less: "le_val n f < 256 ^ n"
proof (induction n arbitrary: f)
  case 0
  then show ?case by simp
next
  case (Suc n)
  have "unat (f 0) < 256" by (rule unat_u8_less)
  with Suc [of "\<lambda>k. f (Suc k)"] show ?case by simp
qed

lemma byte_of_le_val: "k < n \<Longrightarrow> byte_of k (le_val n f) = f k"
proof (induction n arbitrary: f k)
  case 0
  then show ?case by simp
next
  case (Suc n)
  have b: "unat (f 0) < 256" by (rule unat_u8_less)
  show ?case
  proof (cases k)
    case 0
    have "unat (byte_of 0 (le_val (Suc n) f)) = unat (f 0)"
      using b by (simp add: unat_byte_of)
    then have "byte_of 0 (le_val (Suc n) f) = f 0"
      by (simp only: word_unat_eq_iff)
    then show ?thesis using 0 by simp
  next
    case (Suc j)
    have "byte_of k (le_val (Suc n) f) = byte_of j (le_val n (\<lambda>k. f (Suc k)))"
      using b by (simp add: Suc byte_of_Suc)
    then show ?thesis using Suc.IH [of j "\<lambda>k. f (Suc k)"] Suc.prems Suc by simp
  qed
qed

lemma rd_less: "rd n d off < 256 ^ n"
  by (simp add: rd_def le_val_less)

lemma rd_wr_same [le_simps]: "v < 256 ^ n \<Longrightarrow> rd n (wr n v off d) off = v"
proof -
  assume v: "v < 256 ^ n"
  have "rd n (wr n v off d) off = v mod 256 ^ n"
    unfolding rd_def by (rule le_val_byte_of) (simp add: wr_def)
  then show ?thesis using v by simp
qed

lemma rd_cong: "(\<And>i. off \<le> i \<Longrightarrow> i < off + n \<Longrightarrow> d i = e i) \<Longrightarrow> rd n d off = rd n e off"
  unfolding rd_def by (rule le_val_cong) simp

lemma rd_wr_other [le_simps]:
  "off' + m \<le> off \<or> off + n \<le> off' \<Longrightarrow> rd m (wr n v off d) off' = rd m d off'"
  by (rule rd_cong) (auto simp: wr_def)

lemma rd_fill_other [le_simps]:
  "off' + m \<le> off \<or> off + n \<le> off' \<Longrightarrow> rd m (fill n c off d) off' = rd m d off'"
  by (rule rd_cong) (auto simp: fill_def)

lemma rd_fill_0 [le_simps]:
  assumes "off \<le> off'" "off' + m \<le> off + n"
  shows "rd m (fill n 0 off d) off' = 0"
proof -
  have "rd m (fill n 0 off d) off' = le_val m (\<lambda>k. 0)"
    unfolding rd_def by (rule le_val_cong) (use assms in \<open>simp add: fill_def\<close>)
  then show ?thesis by simp
qed

lemma rd_blit [le_simps]:
  assumes "doff \<le> off" "off + m \<le> doff + n"
  shows "rd m (blit n src soff doff dst) off = rd m src (soff + (off - doff))"
  unfolding rd_def by (rule le_val_cong) (use assms in \<open>simp add: blit_def add.assoc\<close>)

lemma rd_blit_other [le_simps]:
  "off + m \<le> doff \<or> doff + n \<le> off \<Longrightarrow> rd m (blit n src soff doff dst) off = rd m dst off"
  by (rule rd_cong) (auto simp: blit_def)

lemma wr_rd: "wr n (rd n d off) off d = d"
  by (rule ext) (auto simp: wr_def rd_def byte_of_le_val)

lemma mod_neg_wrap: "- m \<le> i \<Longrightarrow> i < 0 \<Longrightarrow> i mod m = i + m" for i m :: int
  using mod_pos_pos_trivial [of "i + m" m] by simp

lemma s16_bits16: "- (2 ^ 15) \<le> i \<Longrightarrow> i < 2 ^ 15 \<Longrightarrow> s16 (bits16 i) = i"
  by (cases "0 \<le> i") (simp_all add: s16_def bits16_def mod_neg_wrap nat_less_iff)

lemma s32_bits32: "- (2 ^ 31) \<le> i \<Longrightarrow> i < 2 ^ 31 \<Longrightarrow> s32 (bits32 i) = i"
  by (cases "0 \<le> i") (simp_all add: s32_def bits32_def mod_neg_wrap nat_less_iff)

lemma bits16_s16: "v < 2 ^ 16 \<Longrightarrow> bits16 (s16 v) = v"
  by (auto simp: s16_def bits16_def mod_pos_pos_trivial)

lemma bits16_less: "bits16 i < 2 ^ 16"
  by (simp add: bits16_def nat_less_iff)

lemma bits32_less: "bits32 i < 2 ^ 32"
  by (simp add: bits32_def nat_less_iff)


subsection \<open>Transition systems\<close>

inductive reachable :: "('s \<Rightarrow> bool) \<Rightarrow> ('s \<Rightarrow> 's \<Rightarrow> bool) \<Rightarrow> 's \<Rightarrow> bool"
  for init :: "'s \<Rightarrow> bool" and step :: "'s \<Rightarrow> 's \<Rightarrow> bool" where
  reach_init: "init s \<Longrightarrow> reachable init step s"
| reach_step: "reachable init step s \<Longrightarrow> step s t \<Longrightarrow> reachable init step t"

locale invariant_system =
  fixes init :: "'s \<Rightarrow> bool" and step :: "'s \<Rightarrow> 's \<Rightarrow> bool" and inv :: "'s \<Rightarrow> bool"
  assumes inv_init: "init s \<Longrightarrow> inv s"
    and inv_step: "inv s \<Longrightarrow> step s t \<Longrightarrow> inv t"
begin

lemma reachable_inv: "reachable init step s \<Longrightarrow> inv s"
  by (induction rule: reachable.induct) (auto intro: inv_init inv_step)

end

subsection \<open>Allocators\<close>

text \<open>
  What the kernel's allocators of pages, disk blocks and descriptors promise their clients.
  \<open>ready S s\<close>: in state \<open>s\<close> the allocator is intact and exactly the items of \<open>S\<close> are free. A client is
  a sequence of requests; \<open>serve\<close> runs them, remembers what the client holds, and panics if the
  allocator ever hands out an item that the client already holds.
\<close>

datatype 'i request = Take | Give 'i

fun serve :: "('s, 'i option) thread \<Rightarrow> ('i \<Rightarrow> ('s, unit) thread) \<Rightarrow> 'i request list \<Rightarrow> 'i set \<Rightarrow> ('s, 'i set) thread" where
  "serve alloc free [] held = ret held"
| "serve alloc free (Take # rs) held = bind alloc (\<lambda>r. case r of
     None \<Rightarrow> serve alloc free rs held
   | Some i \<Rightarrow> if i \<in> held then panic ''allocated twice'' else serve alloc free rs (insert i held))"
| "serve alloc free (Give i # rs) held =
     (if i \<in> held then seq (free i) (serve alloc free rs (held - {i})) else serve alloc free rs held)"

locale pool =
  fixes alloc :: "('s, 'i option) thread" and free :: "'i \<Rightarrow> ('s, unit) thread"
    and ready :: "'i set \<Rightarrow> 's \<Rightarrow> bool" and items :: "'i set"
  assumes ready_items: "ready S s \<Longrightarrow> S \<subseteq> items"
    and alloc_some: "ready S s \<Longrightarrow> S \<noteq> {} \<Longrightarrow> \<exists>i t. alloc s = Done (Some i) t \<and> i \<in> S \<and> ready (S - {i}) t"
    and alloc_none: "ready {} s \<Longrightarrow> \<exists>t. alloc s = Done None t \<and> ready {} t"
    and free_ok: "ready S s \<Longrightarrow> i \<in> items \<Longrightarrow> i \<notin> S \<Longrightarrow> \<exists>t. free i s = Done () t \<and> ready (insert i S) t"
begin

lemma serve_ok:
  "ready (items - held) s \<Longrightarrow> held \<subseteq> items \<Longrightarrow>
   \<exists>held' t. serve alloc free rs held s = Done held' t \<and> held' \<subseteq> items \<and> ready (items - held') t"
proof (induction rs arbitrary: held s)
  case Nil
  then show ?case by (auto simp: ret_def)
next
  case (Cons r rs)
  show ?case
  proof (cases r)
    case Take
    show ?thesis
    proof (cases "items - held = {}")
      case True
      with Cons.prems obtain t where "alloc s = Done None t" "ready (items - held) t"
        using alloc_none [of s] by metis
      then show ?thesis
        using Cons.IH Cons.prems by (simp add: Take bind_Done)
    next
      case False
      then obtain i t where i: "alloc s = Done (Some i) t" "i \<in> items - held" "ready (items - held - {i}) t"
        using alloc_some [OF Cons.prems(1)] by blast
      have "items - insert i held = items - held - {i}" by auto
      then have "\<exists>held' u. serve alloc free rs (insert i held) t = Done held' u \<and> held' \<subseteq> items \<and> ready (items - held') u"
        using Cons.IH [of "insert i held" t] i Cons.prems(2) by simp
      then show ?thesis
        using i by (simp add: Take bind_Done)
    qed
  next
    case (Give i)
    show ?thesis
    proof (cases "i \<in> held")
      case True
      have "insert i (items - held) = items - (held - {i})"
        using True Cons.prems(2) by auto
      then obtain t where "free i s = Done () t" "ready (items - (held - {i})) t"
        using free_ok [OF Cons.prems(1), of i] True Cons.prems(2) by (metis Diff_iff subsetD)
      then show ?thesis
        using Cons.IH [of "held - {i}" t] Cons.prems(2) True by (auto simp: Give seq_Done)
    next
      case False
      then show ?thesis using Cons by (simp add: Give)
    qed
  qed
qed

end

subsection \<open>Ring buffers with free-running counters\<close>

text \<open>
  Pipes, the console and the serial port keep bytes in an array of \<open>cap\<close> slots between a read
  counter and a write counter. The counters are machine words that are never reduced modulo \<open>cap\<close>;
  they wrap around at the word size, and the slot of a counter value is its remainder modulo \<open>cap\<close>.
  The bytes held are those of the counter values from \<open>r\<close> up to \<open>w\<close>.
\<close>

definition ring_slot :: "'w::len word \<Rightarrow> 'w word \<Rightarrow> nat" where
  "ring_slot cap i = unat (i mod cap)"

definition ring_contents :: "'w::len word \<Rightarrow> (nat \<Rightarrow> 'b) \<Rightarrow> 'w word \<Rightarrow> 'w word \<Rightarrow> 'b list" where
  "ring_contents cap buf r w = map (\<lambda>k. buf (ring_slot cap (r + of_nat k))) [0..<unat (w - r)]"

locale ring =
  fixes cap :: "'w::len word"
  assumes cap_pos: "0 < unat cap"
    and cap_dvd: "unat cap dvd 2 ^ LENGTH('w)"
begin

lemma slot_add: "ring_slot cap (r + of_nat k) = (unat r + k) mod unat cap"
proof -
  have "unat (r + of_nat k) = (unat r + k) mod 2 ^ LENGTH('w)"
    by (simp add: unat_word_ariths unat_of_nat take_bit_eq_mod mod_add_right_eq)
  then show ?thesis
    using cap_dvd by (simp add: ring_slot_def unat_mod mod_mod_cancel)
qed

lemma slot_less: "ring_slot cap r < unat cap"
  using cap_pos by (simp add: ring_slot_def unat_mod)

lemma contents_eq: "ring_contents cap buf r w = map (\<lambda>k. buf ((unat r + k) mod unat cap)) [0..<unat (w - r)]"
  by (simp add: ring_contents_def slot_add)

lemma contents_empty: "ring_contents cap buf r r = []"
  by (simp add: ring_contents_def)

lemma contents_Nil_iff: "ring_contents cap buf r w = [] \<longleftrightarrow> r = w"
  by (auto simp: ring_contents_def unat_eq_zero)

lemma length_contents: "length (ring_contents cap buf r w) = unat (w - r)"
  by (simp add: ring_contents_def)

lemma full_iff: "w = r + cap \<longleftrightarrow> unat (w - r) = unat cap"
  by (metis add_diff_cancel_left' add.commute diff_add_cancel word_unat_eq_iff)

lemma slot_unfold: "ring_slot cap w = (unat r + unat (w - r)) mod unat cap"
  using slot_add [of r "unat (w - r)"] by simp

lemma slots_distinct:
  assumes "k < unat (w - r)" "unat (w - r) < unat cap"
  shows "(unat r + k) mod unat cap \<noteq> ring_slot cap w"
proof
  assume eq: "(unat r + k) mod unat cap = ring_slot cap w"
  then have "unat cap dvd (unat r + unat (w - r)) - (unat r + k)"
    using assms(1) by (simp only: slot_unfold [of w r] mod_eq_dvd_iff_nat [symmetric])
  then have "unat cap dvd unat (w - r) - k"
    by simp
  then show False
    using assms by (auto dest: dvd_imp_le)
qed

lemma contents_enqueue:
  assumes "unat (w - r) < unat cap"
  shows "ring_contents cap (buf(ring_slot cap w := x)) r (w + 1) = ring_contents cap buf r w @ [x]"
proof -
  have "unat (w - r) + 1 < 2 ^ LENGTH('w)"
    using assms unsigned_less [where 'a = nat, of cap] by linarith
  then have "unat (1 + (w - r)) = Suc (unat (w - r))"
    by (simp add: unat_word_ariths)
  then have "unat (w + 1 - r) = Suc (unat (w - r))"
    by (simp add: algebra_simps)
  moreover have "(unat r + unat (w - r)) mod unat cap = ring_slot cap w"
    by (simp only: slot_unfold [of w r])
  ultimately show ?thesis
    using slots_distinct [OF _ assms] by (auto simp: contents_eq)
qed

lemma contents_dequeue:
  assumes "r \<noteq> w"
  shows "ring_contents cap buf r w = buf (ring_slot cap r) # ring_contents cap buf (r + 1) w"
proof -
  have pos: "0 < unat (w - r)"
    using assms by (simp add: unat_gt_0)
  have "unat ((w - r) - 1) = unat (w - r) - 1"
    using assms by (intro unat_minus_one) simp
  then have "unat (w - (r + 1)) = unat (w - r) - 1"
    by (simp add: diff_diff_eq)
  then have n: "unat (w - r) = Suc (unat (w - (r + 1)))"
    using pos by simp
  show ?thesis
    unfolding ring_contents_def n by (simp only: upt_conv_Cons [OF zero_less_Suc] list.map)
      (simp add: map_Suc_upt [symmetric] add.assoc del: upt_Suc)
qed

lemma contents_append:
  assumes "unat (w - r) \<le> unat (e - r)"
  shows "ring_contents cap buf r e = ring_contents cap buf r w @ ring_contents cap buf w e"
    and "unat (e - w) = unat (e - r) - unat (w - r)"
proof -
  have "e - w = (e - r) - (w - r)" by simp
  then show n: "unat (e - w) = unat (e - r) - unat (w - r)"
    using assms by (metis unat_sub word_le_nat_alt)
  have "[0..<unat (e - r)] = [0..<unat (w - r)] @ map (\<lambda>k. unat (w - r) + k) [0..<unat (e - w)]"
    using assms n by (intro nth_equalityI) (auto simp: nth_append)
  moreover have "r + of_nat (unat (w - r) + k) = w + of_nat k" for k by (simp add: algebra_simps)
  ultimately show "ring_contents cap buf r e = ring_contents cap buf r w @ ring_contents cap buf w e"
    by (simp add: ring_contents_def)
qed

lemma contents_unput:
  assumes "e \<noteq> w"
  shows "ring_contents cap buf w (e - 1) = butlast (ring_contents cap buf w e)"
    and "last (ring_contents cap buf w e) = buf (ring_slot cap (e - 1))"
proof -
  have "unat ((e - w) - 1) = unat (e - w) - 1"
    using assms by (intro unat_minus_one) simp
  then have n: "unat (e - 1 - w) = unat (e - w) - 1" by (simp add: diff_right_commute)
  have pos: "0 < unat (e - w)" using assms by (simp add: unat_gt_0)
  show "ring_contents cap buf w (e - 1) = butlast (ring_contents cap buf w e)"
    by (rule nth_equalityI) (auto simp: ring_contents_def n nth_butlast)
  have "w + of_nat (unat (e - w) - 1) = e - 1" using pos by (simp add: of_nat_diff algebra_simps)
  then show "last (ring_contents cap buf w e) = buf (ring_slot cap (e - 1))"
    using pos by (simp add: ring_contents_def last_map)
qed

end

end
