(* ===== verification/Kstring.thy ===== *)
theory Kstring
  imports Xv6_Prelude
begin

text \<open>
  \<^verbatim>\<open>kernel/string.c\<close>. Memory is a function from addresses to bytes; a routine that C gives two
  pointers into objects that may overlap (\<^verbatim>\<open>memmove\<close>) works on one memory, the others take the source
  and the destination array separately. \<open>cstr n d off\<close> is the reference reading of a string field:
  the bytes from \<open>off\<close> up to a NUL, at most \<open>n\<close> of them.
\<close>

subsection \<open>string.c\<close>

function memset_loop :: "bytes \<Rightarrow> nat \<Rightarrow> int \<Rightarrow> nat \<Rightarrow> nat \<Rightarrow> bytes" where
  "memset_loop m dst c i n = (if i < n then memset_loop (m(dst + i := of_int c)) dst c (i + 1) n else m)"
  by auto
termination by (relation "measure (\<lambda>(m, dst, c, i, n). n - i)") auto

declare memset_loop.simps [simp del]

definition memset :: "bytes \<Rightarrow> nat \<Rightarrow> int \<Rightarrow> nat \<Rightarrow> bytes" where
  "memset m dst c n = memset_loop m dst c 0 n"

fun memcmp :: "bytes \<Rightarrow> nat \<Rightarrow> bytes \<Rightarrow> nat \<Rightarrow> nat \<Rightarrow> int" where
  "memcmp m1 s1 m2 s2 0 = 0"
| "memcmp m1 s1 m2 s2 (Suc n) =
     (if m1 s1 \<noteq> m2 s2 then byte_diff (m1 s1) (m2 s2)
      else memcmp m1 (s1 + 1) m2 (s2 + 1) n)"

fun move_up :: "bytes \<Rightarrow> nat \<Rightarrow> nat \<Rightarrow> nat \<Rightarrow> bytes" where
  "move_up m d s 0 = m"
| "move_up m d s (Suc n) = move_up (m(d := m s)) (d + 1) (s + 1) n"

fun move_down :: "bytes \<Rightarrow> nat \<Rightarrow> nat \<Rightarrow> nat \<Rightarrow> bytes" where
  "move_down m d s 0 = m"
| "move_down m d s (Suc n) = move_down (m(d - 1 := m (s - 1))) (d - 1) (s - 1) n"

definition memmove :: "bytes \<Rightarrow> nat \<Rightarrow> nat \<Rightarrow> nat \<Rightarrow> bytes" where
  "memmove m dst src n =
     (if n = 0 then m
      else if src < dst \<and> src + n > dst then move_down m (dst + n) (src + n) n
      else move_up m dst src n)"

definition memcpy :: "bytes \<Rightarrow> nat \<Rightarrow> nat \<Rightarrow> nat \<Rightarrow> bytes" where
  "memcpy m dst src n = memmove m dst src n"

fun strncmp :: "bytes \<Rightarrow> nat \<Rightarrow> bytes \<Rightarrow> nat \<Rightarrow> nat \<Rightarrow> int" where
  "strncmp P p Q q 0 = 0"
| "strncmp P p Q q (Suc n) =
     (if P p \<noteq> 0 \<and> P p = Q q then strncmp P (p + 1) Q (q + 1) n
      else byte_diff (P p) (Q q))"

fun zero_rest :: "bytes \<Rightarrow> nat \<Rightarrow> nat \<Rightarrow> bytes" where
  "zero_rest d s 0 = d"
| "zero_rest d s (Suc n) = zero_rest (d(s := 0)) (s + 1) n"

fun strncpy :: "bytes \<Rightarrow> nat \<Rightarrow> bytes \<Rightarrow> nat \<Rightarrow> nat \<Rightarrow> bytes" where
  "strncpy d s T t 0 = d"
| "strncpy d s T t (Suc n) =
     (if T t \<noteq> 0 then strncpy (d(s := T t)) (s + 1) T (t + 1) n
      else zero_rest (d(s := T t)) (s + 1) n)"

fun safe_loop :: "bytes \<Rightarrow> nat \<Rightarrow> bytes \<Rightarrow> nat \<Rightarrow> nat \<Rightarrow> bytes" where
  "safe_loop d s T t 0 = d(s := 0)"
| "safe_loop d s T t (Suc n) =
     (if T t \<noteq> 0 then safe_loop (d(s := T t)) (s + 1) T (t + 1) n
      else (d(s := T t))(s + 1 := 0))"

definition safestrcpy :: "bytes \<Rightarrow> nat \<Rightarrow> bytes \<Rightarrow> nat \<Rightarrow> nat \<Rightarrow> bytes" where
  "safestrcpy d s T t n = (if n = 0 then d else safe_loop d s T t (n - 1))"

partial_function (option) strlen_loop :: "bytes \<Rightarrow> nat \<Rightarrow> nat \<Rightarrow> nat option" where
  "strlen_loop d s n = (if d (s + n) \<noteq> 0 then strlen_loop d s (n + 1) else Some n)"

definition strlen :: "bytes \<Rightarrow> nat \<Rightarrow> nat option" where
  "strlen d s = strlen_loop d s 0"

subsection \<open>The reference reading of a string field\<close>

fun cstr :: "nat \<Rightarrow> bytes \<Rightarrow> nat \<Rightarrow> u8 list" where
  "cstr 0 d off = []"
| "cstr (Suc n) d off = (if d off = 0 then [] else d off # cstr n d (off + 1))"

lemma cstr_cong: "(\<And>i. off \<le> i \<Longrightarrow> i < off + n \<Longrightarrow> d i = e i) \<Longrightarrow> cstr n d off = cstr n e off"
proof (induction n arbitrary: off)
  case (Suc n)
  have "cstr n d (off + 1) = cstr n e (off + 1)"
    by (rule Suc.IH) (auto intro: Suc.prems)
  then show ?case by (simp add: Suc.prems)
qed simp

lemma cstr_length: "length (cstr n d off) \<le> n"
  by (induction n arbitrary: off) auto

lemma cstr_nonzero: "0 \<notin> set (cstr n d off)"
  by (induction n arbitrary: off) auto

lemma cstr_list:
  assumes "0 \<notin> set w" "\<And>k. k < length w \<Longrightarrow> d (off + k) = w ! k" "length w < n \<Longrightarrow> d (off + length w) = 0"
    "length w \<le> n"
  shows "cstr n d off = w"
  using assms
proof (induction w arbitrary: n off)
  case Nil
  then show ?case by (cases n) auto
next
  case (Cons x w)
  then obtain m where n: "n = Suc m" by (cases n) auto
  have "cstr m d (off + 1) = w"
  proof (rule Cons.IH)
    show "d (off + 1 + k) = w ! k" if "k < length w" for k
      using Cons.prems(2) [of "Suc k"] that by simp
  qed (use Cons.prems n in auto)
  then show ?case using Cons.prems(1) Cons.prems(2) [of 0] n by auto
qed

lemma memset_loop_fill: "i \<le> n \<Longrightarrow> memset_loop m dst c i n = fill (n - i) (of_int c) (dst + i) m"
proof (induction m dst c i n rule: memset_loop.induct)
  case (1 m dst c i n)
  then show ?case
    by (subst memset_loop.simps) (auto simp: fill_def fun_eq_iff fun_upd_def cong: if_cong)
qed

lemma memset_fill: "memset m dst c n = fill n (of_int c) dst m"
  by (simp add: memset_def memset_loop_fill)

lemma move_up_blit: "d \<le> s \<or> s + n \<le> d \<Longrightarrow> move_up m d s n = blit n m s d m"
proof (induction n arbitrary: m d s)
  case 0
  then show ?case by simp
next
  case (Suc n)
  from Suc.prems have "d + 1 \<le> s + 1 \<or> s + 1 + n \<le> d + 1" by auto
  from Suc.IH [OF this] Suc.prems show ?case
    by (auto simp: blit_def fun_eq_iff Suc_diff_Suc less_Suc_eq_le le_Suc_eq)
qed

lemma move_down_blit: "s \<le> d \<Longrightarrow> move_down m (d + n) (s + n) n = blit n m s d m"
proof (induction n arbitrary: m)
  case 0
  then show ?case by simp
next
  case (Suc n)
  then show ?case
    by (auto simp: blit_def fun_eq_iff less_Suc_eq)
qed

lemma memmove_blit: "memmove m dst src n = blit n m src dst m"
proof (cases "src < dst \<and> src + n > dst")
  case True
  then show ?thesis by (simp add: memmove_def move_down_blit)
next
  case False
  then have "dst \<le> src \<or> src + n \<le> dst" by auto
  then have "move_up m dst src n = blit n m src dst m" by (rule move_up_blit)
  then show ?thesis using False by (auto simp: memmove_def)
qed

lemma zero_rest_fill: "zero_rest d s n = fill n 0 s d"
  by (induction n arbitrary: d s) (auto simp: fill_def fun_eq_iff)

lemma strncpy_other: "i < s \<or> s + n \<le> i \<Longrightarrow> strncpy d s T t n i = d i"
  by (induction d s T t n rule: strncpy.induct) (auto simp: zero_rest_fill fill_def)

lemma cstr_nth: "k < length (cstr n d off) \<Longrightarrow> cstr n d off ! k = d (off + k)"
proof (induction n arbitrary: off k)
  case (Suc n)
  then show ?case by (cases k) auto
qed simp

lemma strncpy_bytes:
  "k < n \<Longrightarrow> strncpy d s T t n (s + k) = (if k < length (cstr n T t) then cstr n T t ! k else 0)"
proof (induction d s T t n arbitrary: k rule: strncpy.induct)
  case (1 d s T t)
  then show ?case by simp
next
  case (2 d s T t n)
  show ?case
  proof (cases k)
    case 0
    then show ?thesis
      using strncpy_other [of s "s + 1" n] by (simp add: zero_rest_fill fill_def)
  next
    case (Suc j)
    then show ?thesis
      using 2 by (simp add: zero_rest_fill fill_def fun_upd_def cong: if_cong)
  qed
qed

lemma cstr_strncpy: "cstr n (strncpy d s T t n) s = cstr n T t"
  by (rule cstr_list) (use cstr_length [of n T t] in \<open>simp_all add: strncpy_bytes cstr_nonzero\<close>)

lemma strncmp_0_iff: "strncmp P p Q q n = 0 \<longleftrightarrow> cstr n P p = cstr n Q q"
  by (induction P p Q q n rule: strncmp.induct) auto

lemma safe_loop_spec:
  "cstr (Suc n) (safe_loop d s T t n) s = cstr n T t \<and> (\<forall>i. i < s \<or> s + Suc n \<le> i \<longrightarrow> safe_loop d s T t n i = d i)"
proof (induction d s T t n rule: safe_loop.induct)
  case (2 d s T t n)
  then show ?case by (auto simp: fun_upd_def cong: if_cong)
qed simp

lemma strlen_loop_first:
  "(\<forall>j. n \<le> j \<and> j < k \<longrightarrow> d (s + j) \<noteq> 0) \<Longrightarrow> d (s + k) = 0 \<Longrightarrow> n \<le> k \<Longrightarrow> strlen_loop d s n = Some k"
proof (induction "k - n" arbitrary: n)
  case 0
  then show ?case by (subst strlen_loop.simps) simp
next
  case (Suc x)
  then have "strlen_loop d s (n + 1) = Some k" by (intro Suc.hyps(1)) auto
  with Suc show ?case by (subst strlen_loop.simps) auto
qed

subsection \<open>Properties\<close>

text \<open>
  C30. \<^verbatim>\<open>memmove\<close> copies correctly whatever the overlap of its two ranges: the \<open>n\<close> bytes at \<open>dst\<close> become
  the \<open>n\<close> bytes that were at \<open>src\<close> before the call, and no other byte changes.
\<close>

theorem memmove_overlap:
  "memmove m dst src n = (\<lambda>i. if dst \<le> i \<and> i < dst + n then m (src + (i - dst)) else m i)"
  by (simp add: memmove_blit blit_def)

text \<open>
  C31. The fixed-size name fields: \<^verbatim>\<open>strncmp\<close> returns 0 exactly when the two fields hold the same string
  (up to a NUL or \<open>n\<close> bytes), a field written by \<^verbatim>\<open>strncpy\<close> reads back as the source string cut to \<open>n\<close>
  bytes whatever it held before, and \<^verbatim>\<open>safestrcpy\<close> leaves a NUL-terminated string cut to \<open>n - 1\<close> bytes;
  the two copies write nothing outside the field.
\<close>

theorem string_fields:
  "(strncmp P p Q q n = 0 \<longleftrightarrow> cstr n P p = cstr n Q q) \<and>
   cstr n (strncpy d s T t n) s = cstr n T t \<and>
   cstr (Suc n) (safestrcpy d s T t (Suc n)) s = cstr n T t \<and>
   (i < s \<or> s + n \<le> i \<longrightarrow> strncpy d s T t n i = d i \<and> safestrcpy d s T t n i = d i)"
proof -
  have "safestrcpy d s T t n i = d i" if "i < s \<or> s + n \<le> i"
    using that safe_loop_spec [of "n - 1" d s T t] by (cases n) (auto simp: safestrcpy_def)
  moreover have "cstr (Suc n) (safestrcpy d s T t (Suc n)) s = cstr n T t"
    using safe_loop_spec [of n d s T t] by (simp add: safestrcpy_def del: cstr.simps)
  ultimately show ?thesis
    by (simp only: strncmp_0_iff cstr_strncpy) (use strncpy_other [of i s n d T t] in blast)
qed

theorem string_fields_witness:
  "strncpy (\<lambda>_. 7) 0 (\<lambda>i. if i < 3 then 65 else 0) 0 14 14 = 7 \<and>
   strncmp (strncpy (\<lambda>_. 7) 0 (\<lambda>i. if i < 3 then 65 else 0) 0 14) 0 (\<lambda>i. if i < 3 then 65 else 0) 0 14 = 0"
  using string_fields [of "strncpy (\<lambda>_. 7) 0 (\<lambda>i. if i < 3 then 65 else 0) 0 14" 0
      "\<lambda>i. if i < 3 then 65 else 0" 0 14 "\<lambda>_. 7" 0 "\<lambda>i. if i < 3 then 65 else 0" 0 14] by simp

text \<open>
  C36. \<^verbatim>\<open>strlen\<close> returns, and returns the position of the first NUL, for every string that has one;
  \<^verbatim>\<open>memcmp\<close> returns 0 exactly when the two ranges are equal.
\<close>

theorem strlen_first_nul:
  "(d (s + k) = 0 \<and> (\<forall>j < k. d (s + j) \<noteq> 0) \<longrightarrow> strlen d s = Some k) \<and>
   (memcmp m1 s1 m2 s2 n = 0 \<longleftrightarrow> (\<forall>i < n. m1 (s1 + i) = m2 (s2 + i)))"
proof (intro conjI impI)
  show "strlen d s = Some k" if "d (s + k) = 0 \<and> (\<forall>j < k. d (s + j) \<noteq> 0)"
    using that by (auto simp: strlen_def intro: strlen_loop_first)
next
  show "(memcmp m1 s1 m2 s2 n = 0) = (\<forall>i < n. m1 (s1 + i) = m2 (s2 + i))"
  proof (induction m1 s1 m2 s2 n rule: memcmp.induct)
    case (2 m1 s1 m2 s2 n)
    have all: "(\<forall>i < Suc n. m1 (s1 + i) = m2 (s2 + i)) \<longleftrightarrow>
        m1 s1 = m2 s2 \<and> (\<forall>i < n. m1 (s1 + 1 + i) = m2 (s2 + 1 + i))"
      by (simp add: less_Suc_eq_0_disj) (metis add_Suc_right Suc_eq_plus1 add_Suc)
    show ?case
      by (cases "m1 s1 = m2 s2") (use 2 in \<open>simp_all only: all memcmp.simps if_True if_False byte_diff_0 not_False_eq_True simp_thms\<close>)
  qed simp
qed

theorem strlen_first_nul_witness:
  "strlen (\<lambda>i. if i = 2 then 0 else 97) 0 = Some 2"
  using strlen_first_nul [of "\<lambda>i. if i = 2 then 0 else 97" 0 2] by simp

end
