(* ===== verification/Xv6_Params.thy ===== *)
theory Xv6_Params
  imports Xv6_Prelude
begin

unbundle bit_operations_syntax

text \<open>
  The constants and macros of the headers \<^verbatim>\<open>param.h\<close>, \<^verbatim>\<open>stat.h\<close>, \<^verbatim>\<open>fcntl.h\<close>, \<^verbatim>\<open>memlayout.h\<close> and
  \<^verbatim>\<open>riscv.h\<close>: table sizes, page arithmetic, page-table entries and virtual address indices. Physical
  and virtual addresses are 64-bit words; the macros are the C expressions, bit for bit.
\<close>

subsection \<open>Table sizes (param.h)\<close>

abbreviation (input) NPROC :: nat where "NPROC \<equiv> 64"
abbreviation (input) NCPU :: nat where "NCPU \<equiv> 8"
abbreviation (input) NOFILE :: nat where "NOFILE \<equiv> 16"
abbreviation (input) NFILE :: nat where "NFILE \<equiv> 100"
abbreviation (input) NINODE :: nat where "NINODE \<equiv> 50"
abbreviation (input) NDEV :: nat where "NDEV \<equiv> 10"
abbreviation (input) ROOTDEV :: nat where "ROOTDEV \<equiv> 1"
abbreviation (input) MAXARG :: nat where "MAXARG \<equiv> 32"
abbreviation (input) MAXOPBLOCKS :: nat where "MAXOPBLOCKS \<equiv> 10"
abbreviation (input) LOGSIZE :: nat where "LOGSIZE \<equiv> MAXOPBLOCKS * 3"
abbreviation (input) NBUF :: nat where "NBUF \<equiv> MAXOPBLOCKS * 3"
abbreviation (input) FSSIZE :: nat where "FSSIZE \<equiv> 2000"
abbreviation (input) MAXPATH :: nat where "MAXPATH \<equiv> 128"
abbreviation (input) USERSTACK :: u64 where "USERSTACK \<equiv> 1"

subsection \<open>File types and open modes (stat.h, fcntl.h)\<close>

abbreviation (input) T_DIR :: int where "T_DIR \<equiv> 1"
abbreviation (input) T_FILE :: int where "T_FILE \<equiv> 2"
abbreviation (input) T_DEVICE :: int where "T_DEVICE \<equiv> 3"

abbreviation (input) O_RDONLY :: u32 where "O_RDONLY \<equiv> 0x000"
abbreviation (input) O_WRONLY :: u32 where "O_WRONLY \<equiv> 0x001"
abbreviation (input) O_RDWR :: u32 where "O_RDWR \<equiv> 0x002"
abbreviation (input) O_CREATE :: u32 where "O_CREATE \<equiv> 0x200"
abbreviation (input) O_TRUNC :: u32 where "O_TRUNC \<equiv> 0x400"

subsection \<open>Pages, page-table entries, virtual addresses (riscv.h)\<close>

abbreviation (input) PGSIZE :: u64 where "PGSIZE \<equiv> 4096"

definition PGROUNDUP :: "u64 \<Rightarrow> u64" where
  "PGROUNDUP sz = (sz + PGSIZE - 1) AND NOT (PGSIZE - 1)"

definition PGROUNDDOWN :: "u64 \<Rightarrow> u64" where
  "PGROUNDDOWN a = a AND NOT (PGSIZE - 1)"

abbreviation (input) PTE_V :: u64 where "PTE_V \<equiv> 1"
abbreviation (input) PTE_R :: u64 where "PTE_R \<equiv> 2"
abbreviation (input) PTE_W :: u64 where "PTE_W \<equiv> 4"
abbreviation (input) PTE_X :: u64 where "PTE_X \<equiv> 8"
abbreviation (input) PTE_U :: u64 where "PTE_U \<equiv> 16"

definition PA2PTE :: "u64 \<Rightarrow> u64" where
  "PA2PTE pa = push_bit 10 (drop_bit 12 pa)"

definition PTE2PA :: "u64 \<Rightarrow> u64" where
  "PTE2PA pte = push_bit 12 (drop_bit 10 pte)"

definition PTE_FLAGS :: "u64 \<Rightarrow> u64" where
  "PTE_FLAGS pte = pte AND 0x3FF"

definition PXSHIFT :: "nat \<Rightarrow> nat" where
  "PXSHIFT level = 12 + 9 * level"

definition PX :: "nat \<Rightarrow> u64 \<Rightarrow> u64" where
  "PX level va = drop_bit (PXSHIFT level) va AND 0x1FF"

abbreviation (input) MAXVA :: u64 where "MAXVA \<equiv> 0x4000000000"

subsection \<open>Memory layout (memlayout.h)\<close>

abbreviation (input) UART0 :: u64 where "UART0 \<equiv> 0x10000000"
abbreviation (input) UART0_IRQ :: nat where "UART0_IRQ \<equiv> 10"
abbreviation (input) VIRTIO0 :: u64 where "VIRTIO0 \<equiv> 0x10001000"
abbreviation (input) VIRTIO0_IRQ :: nat where "VIRTIO0_IRQ \<equiv> 1"
abbreviation (input) PLIC :: u64 where "PLIC \<equiv> 0x0c000000"
abbreviation (input) KERNBASE :: u64 where "KERNBASE \<equiv> 0x80000000"
abbreviation (input) PHYSTOP :: u64 where "PHYSTOP \<equiv> KERNBASE + 128 * 1024 * 1024"
abbreviation (input) TRAMPOLINE :: u64 where "TRAMPOLINE \<equiv> MAXVA - PGSIZE"
abbreviation (input) TRAPFRAME :: u64 where "TRAPFRAME \<equiv> TRAMPOLINE - PGSIZE"

definition KSTACK :: "nat \<Rightarrow> u64" where
  "KSTACK p = TRAMPOLINE - (of_nat p + 1) * 2 * PGSIZE"

subsection \<open>Page arithmetic\<close>

definition page_aligned :: "u64 \<Rightarrow> bool" where
  "page_aligned a = (a mod PGSIZE = 0)"

lemma mask_12: "(PGSIZE - 1 :: u64) = mask 12"
  by (simp add: mask_eq_exp_minus_1)

lemma page_aligned_iff_bits: "page_aligned a \<longleftrightarrow> take_bit 12 a = 0"
  by (simp add: page_aligned_def take_bit_eq_mod)

lemma page_aligned_iff_unat: "page_aligned a \<longleftrightarrow> 4096 dvd unat a"
  by (simp add: page_aligned_def word_unat_eq_iff unat_mod dvd_eq_mod_eq_0)

lemma PGROUNDDOWN_bits: "PGROUNDDOWN a = push_bit 12 (drop_bit 12 a)"
  unfolding PGROUNDDOWN_def mask_12 by (rule bit_word_eqI) (auto simp: bit_simps)

lemma unat_PGROUNDDOWN: "unat (PGROUNDDOWN a) = unat a div 4096 * 4096"
proof -
  have "unat (drop_bit 12 a) = unat a div 4096"
    by (simp add: unat_drop_bit_eq drop_bit_eq_div [where 'a = nat] del: drop_bit_eq_div)
  moreover have "unat a div 4096 * 4096 < 2 ^ 64"
    using unsigned_less [where 'a = nat, of a] by simp
  ultimately show ?thesis
    by (simp add: PGROUNDDOWN_bits push_bit_eq_mult unat_word_ariths)
qed

lemma unat_PGROUNDUP:
  assumes "unat sz + 4095 < 2 ^ 64"
  shows "unat (PGROUNDUP sz) = (unat sz + 4095) div 4096 * 4096"
proof -
  have "PGROUNDUP sz = PGROUNDDOWN (sz + 4095)"
    by (simp add: PGROUNDUP_def PGROUNDDOWN_def add.commute)
  moreover have "unat (sz + 4095) = unat sz + 4095"
    using assms by (simp add: unat_word_ariths)
  ultimately show ?thesis by (simp add: unat_PGROUNDDOWN)
qed

lemma page_aligned_PGROUNDDOWN: "page_aligned (PGROUNDDOWN a)"
  by (simp add: page_aligned_iff_unat unat_PGROUNDDOWN)

lemma page_aligned_PGROUNDUP: "page_aligned (PGROUNDUP a)"
  by (simp only: PGROUNDUP_def PGROUNDDOWN_def [symmetric] page_aligned_PGROUNDDOWN)

lemma PGROUNDDOWN_aligned: "page_aligned a \<Longrightarrow> PGROUNDDOWN a = a"
  by (auto simp: word_unat_eq_iff unat_PGROUNDDOWN page_aligned_iff_unat)

subsection \<open>Page-table entries\<close>

lemma mask_10: "(0x3FF :: u64) = mask 10"
  by (simp add: mask_eq_exp_minus_1)

lemma flags_bits: "flags AND 0x3FF = flags \<Longrightarrow> bit flags n \<Longrightarrow> n < 10" for flags :: u64
  unfolding mask_10 by (metis bit_and_iff bit_mask_iff)

lemma PTE2PA_PA2PTE:
  assumes "page_aligned pa" "flags AND 0x3FF = flags"
  shows "PTE2PA (PA2PTE pa OR flags) = pa"
proof -
  have "bit pa n \<Longrightarrow> 12 \<le> n" for n
    using assms(1) unfolding page_aligned_iff_bits
    by (metis bit_0_eq bit_take_bit_iff bot_apply bot_bool_def not_less)
  then show ?thesis
    using flags_bits [OF assms(2)]
    by (intro bit_word_eqI) (auto simp: PTE2PA_def PA2PTE_def bit_simps)
qed

lemma PTE_FLAGS_PA2PTE:
  assumes "flags AND 0x3FF = flags"
  shows "PTE_FLAGS (PA2PTE pa OR flags) = flags"
  using flags_bits [OF assms] unfolding PTE_FLAGS_def mask_10
  by (intro bit_word_eqI) (auto simp: PA2PTE_def bit_simps)

lemma PX_less: "unat (PX level va) < 512"
proof -
  have "PX level va = take_bit 9 (drop_bit (PXSHIFT level) va)"
    by (simp add: PX_def take_bit_eq_mask mask_eq_exp_minus_1)
  then show ?thesis
    by (simp add: take_bit_eq_mod unat_mod)
qed

end
