(* ===== verification/Spinlock.thy ===== *)
theory Spinlock
  imports Xv6_Params
begin

text \<open>
  \<^verbatim>\<open>kernel/spinlock.c\<close> and the processor state it uses (\<^verbatim>\<open>struct cpu\<close> of \<^verbatim>\<open>proc.h\<close>, the interrupt
  enable bit of \<^verbatim>\<open>riscv.h\<close>). The state of a running kernel thread is a record whose first layer is
  the machine: the number of the hart that runs the thread, the per-hart structures and every
  spinlock. Other components extend the record. \<open>acq\<close>, \<open>rel\<close> and \<open>settle\<close> are the closed forms of
  \<^verbatim>\<open>acquire\<close>, \<^verbatim>\<open>release\<close> and of a balanced pair of them; the proofs of all components that take locks
  run on these. The last part is the protocol of several harts contending for one lock.
\<close>

subsection \<open>Processors and locks\<close>

record cpu =
  cpu_proc :: "nat option"
  noff :: int
  intena :: bool
  sie :: bool

datatype sleeplock_id = SL_buf nat | SL_inode nat

datatype lock_id =
  Lk_kmem | Lk_pid | Lk_wait | Lk_proc nat | Lk_ticks | Lk_cons | Lk_uart_tx | Lk_pr | Lk_vdisk
| Lk_bcache | Lk_log | Lk_itable | Lk_ftable | Lk_pipe u64 | Lk_sleep sleeplock_id

record spinlock =
  lk_locked :: bool
  lk_name :: string
  lk_cpu :: "nat option"

record machine =
  hart :: nat
  cpus :: "nat \<Rightarrow> cpu"
  locks :: "lock_id \<Rightarrow> spinlock"

record kstate =
  mach :: machine

abbreviation (input) this_cpu :: "machine \<Rightarrow> cpu" where
  "this_cpu m \<equiv> cpus m (hart m)"

definition cpuid :: "('x kstate_scheme, nat) thread" where
  "cpuid = gets (\<lambda>s. hart (mach s))"

definition mycpu :: "('x kstate_scheme, cpu) thread" where
  "mycpu = gets (\<lambda>s. this_cpu (mach s))"

definition set_mycpu :: "(cpu \<Rightarrow> cpu) \<Rightarrow> ('x kstate_scheme, unit) thread" where
  "set_mycpu f = modify (\<lambda>s. s\<lparr>mach := (mach s)\<lparr>cpus :=
     (cpus (mach s))(hart (mach s) := f (this_cpu (mach s)))\<rparr>\<rparr>)"

definition set_lock :: "lock_id \<Rightarrow> (spinlock \<Rightarrow> spinlock) \<Rightarrow> ('x kstate_scheme, unit) thread" where
  "set_lock l f = modify (\<lambda>s. s\<lparr>mach := (mach s)\<lparr>locks :=
     (locks (mach s))(l := f (locks (mach s) l))\<rparr>\<rparr>)"

definition intr_get :: "('x kstate_scheme, bool) thread" where
  "intr_get = bind mycpu (\<lambda>c. ret (sie c))"

definition intr_on :: "('x kstate_scheme, unit) thread" where
  "intr_on = set_mycpu (\<lambda>c. c\<lparr>sie := True\<rparr>)"

definition intr_off :: "('x kstate_scheme, unit) thread" where
  "intr_off = set_mycpu (\<lambda>c. c\<lparr>sie := False\<rparr>)"

subsection \<open>spinlock.c\<close>

definition initlock :: "lock_id \<Rightarrow> string \<Rightarrow> ('x kstate_scheme, unit) thread" where
  "initlock l nm = set_lock l (\<lambda>k. k\<lparr>lk_name := nm, lk_locked := False, lk_cpu := None\<rparr>)"

definition push_off :: "('x kstate_scheme, unit) thread" where
  "push_off =
     bind intr_get (\<lambda>old.
     seq intr_off (
     bind mycpu (\<lambda>c.
     seq (whenM (noff c = 0) (set_mycpu (\<lambda>c. c\<lparr>intena := old\<rparr>)))
         (set_mycpu (\<lambda>c. c\<lparr>noff := noff c + 1\<rparr>)))))"

definition pop_off :: "('x kstate_scheme, unit) thread" where
  "pop_off =
     bind intr_get (\<lambda>i. if i then panic ''pop_off - interruptible'' else
     bind mycpu (\<lambda>c. if noff c < 1 then panic ''pop_off'' else
     seq (set_mycpu (\<lambda>c. c\<lparr>noff := noff c - 1\<rparr>)) (
     bind mycpu (\<lambda>c. whenM (noff c = 0 \<and> intena c) intr_on))))"

definition holding :: "lock_id \<Rightarrow> ('x kstate_scheme, bool) thread" where
  "holding l = gets (\<lambda>s. lk_locked (locks (mach s) l) \<and> lk_cpu (locks (mach s) l) = Some (hart (mach s)))"

text \<open>
  \<^verbatim>\<open>acquire\<close> and \<^verbatim>\<open>release\<close> are composed of the steps between which another hart can run: entering
  (interrupts off, the check for a second acquisition), one atomic test-and-set, recording the
  owner; checking and erasing the owner, and the atomic release with \<^verbatim>\<open>pop_off\<close>.
\<close>

definition acquire_enter :: "lock_id \<Rightarrow> ('x kstate_scheme, unit) thread" where
  "acquire_enter l = seq push_off (bind (holding l) (\<lambda>h. if h then panic ''acquire'' else ret ()))"

definition test_and_set :: "lock_id \<Rightarrow> ('x kstate_scheme, bool) thread" where
  "test_and_set l =
     bind (gets (\<lambda>s. lk_locked (locks (mach s) l))) (\<lambda>old.
     seq (set_lock l (\<lambda>k. k\<lparr>lk_locked := True\<rparr>)) (ret old))"

definition acquire_record :: "lock_id \<Rightarrow> ('x kstate_scheme, unit) thread" where
  "acquire_record l = bind cpuid (\<lambda>h. set_lock l (\<lambda>k. k\<lparr>lk_cpu := Some h\<rparr>))"

definition acquire :: "lock_id \<Rightarrow> ('x kstate_scheme, unit) thread" where
  "acquire l =
     seq (acquire_enter l) (
     bind (test_and_set l) (\<lambda>old. if old then spin else acquire_record l))"

definition release_clear :: "lock_id \<Rightarrow> ('x kstate_scheme, unit) thread" where
  "release_clear l =
     bind (holding l) (\<lambda>h. if \<not> h then panic ''release'' else
     set_lock l (\<lambda>k. k\<lparr>lk_cpu := None\<rparr>))"

definition release_unlock :: "lock_id \<Rightarrow> ('x kstate_scheme, unit) thread" where
  "release_unlock l = seq (set_lock l (\<lambda>k. k\<lparr>lk_locked := False\<rparr>)) pop_off"

definition release :: "lock_id \<Rightarrow> ('x kstate_scheme, unit) thread" where
  "release l = seq (release_clear l) (release_unlock l)"

subsection \<open>Closed forms\<close>

named_theorems lock_simps "acquiring and releasing spinlocks on the machine state"

definition lk_free :: "lock_id \<Rightarrow> machine \<Rightarrow> bool" where
  "lk_free l m = (\<not> lk_locked (locks m l) \<and> lk_cpu (locks m l) = None)"

definition lk_held :: "lock_id \<Rightarrow> machine \<Rightarrow> bool" where
  "lk_held l m = (lk_locked (locks m l) \<and> lk_cpu (locks m l) = Some (hart m))"

definition mach_ok :: "machine \<Rightarrow> bool" where
  "mach_ok m = (0 \<le> noff (this_cpu m) \<and> (0 < noff (this_cpu m) \<longrightarrow> \<not> sie (this_cpu m)))"

definition intr_disabled :: "machine \<Rightarrow> bool" where
  "intr_disabled m = (0 < noff (this_cpu m) \<and> \<not> sie (this_cpu m))"

definition acq :: "lock_id \<Rightarrow> machine \<Rightarrow> machine" where
  "acq l m = m\<lparr>
     cpus := (cpus m)(hart m := (this_cpu m)\<lparr>
       sie := False,
       intena := (if noff (this_cpu m) = 0 then sie (this_cpu m) else intena (this_cpu m)),
       noff := noff (this_cpu m) + 1\<rparr>),
     locks := (locks m)(l := (locks m l)\<lparr>lk_locked := True, lk_cpu := Some (hart m)\<rparr>)\<rparr>"

definition rel :: "lock_id \<Rightarrow> machine \<Rightarrow> machine" where
  "rel l m = m\<lparr>
     locks := (locks m)(l := (locks m l)\<lparr>lk_cpu := None, lk_locked := False\<rparr>),
     cpus := (cpus m)(hart m := (this_cpu m)\<lparr>
       noff := noff (this_cpu m) - 1,
       sie := (noff (this_cpu m) = 1 \<and> intena (this_cpu m))\<rparr>)\<rparr>"

definition settle :: "machine \<Rightarrow> machine" where
  "settle m = m\<lparr>cpus := (cpus m)(hart m := (this_cpu m)\<lparr>
     intena := (if noff (this_cpu m) = 0 then sie (this_cpu m) else intena (this_cpu m))\<rparr>)\<rparr>"

lemmas spinlock_defs =
  cpuid_def mycpu_def set_mycpu_def set_lock_def intr_get_def intr_on_def intr_off_def
  push_off_def pop_off_def holding_def acquire_enter_def test_and_set_def acquire_record_def
  release_clear_def release_unlock_def

lemma push_off_exec [exec_simps]:
  "push_off s = Done () (s\<lparr>mach := (mach s)\<lparr>cpus := (cpus (mach s))(hart (mach s) :=
     (this_cpu (mach s))\<lparr>sie := False,
       intena := (if noff (this_cpu (mach s)) = 0 then sie (this_cpu (mach s))
                  else intena (this_cpu (mach s))),
       noff := noff (this_cpu (mach s)) + 1\<rparr>)\<rparr>\<rparr>)"
  by (cases "this_cpu (mach s)") (simp add: spinlock_defs exec_simps whenM_def)

lemma cpu_sie_False: "\<not> sie c \<Longrightarrow> c\<lparr>noff := n, sie := False\<rparr> = c\<lparr>noff := n\<rparr>"
  by (cases c) simp

lemma cpu_sie_id: "\<not> sie c \<Longrightarrow> c\<lparr>sie := False\<rparr> = c"
  by (cases c) simp

lemma pop_off_exec [exec_simps]:
  "intr_disabled (mach s) \<Longrightarrow> pop_off s = Done () (s\<lparr>mach := (mach s)\<lparr>cpus := (cpus (mach s))(hart (mach s) :=
     (this_cpu (mach s))\<lparr>noff := noff (this_cpu (mach s)) - 1,
       sie := (noff (this_cpu (mach s)) = 1 \<and> intena (this_cpu (mach s)))\<rparr>)\<rparr>\<rparr>)"
  by (auto simp: spinlock_defs exec_simps whenM_def intr_disabled_def cpu_sie_False)

lemma acquire_exec [exec_simps]:
  "lk_free l (mach s) \<Longrightarrow> acquire l s = Done () (s\<lparr>mach := acq l (mach s)\<rparr>)"
  by (simp add: acquire_def acquire_enter_def test_and_set_def acquire_record_def cpuid_def set_lock_def
      holding_def exec_simps lk_free_def acq_def)

lemma acquire_again: "lk_held l (mach s) \<Longrightarrow> acquire l s = Panic ''acquire''"
  by (simp add: acquire_def acquire_enter_def holding_def exec_simps lk_held_def)

lemma release_exec [exec_simps]:
  "lk_held l (mach s) \<Longrightarrow> intr_disabled (mach s) \<Longrightarrow> release l s = Done () (s\<lparr>mach := rel l (mach s)\<rparr>)"
  by (simp add: release_def release_clear_def release_unlock_def set_lock_def holding_def
      exec_simps lk_held_def rel_def intr_disabled_def)

lemma release_unheld: "\<not> lk_held l (mach s) \<Longrightarrow> release l s = Panic ''release''"
  by (auto simp: release_def release_clear_def holding_def exec_simps lk_held_def)

lemma lk_free_acq [lock_simps]: "lk_free l (acq k m) \<longleftrightarrow> l \<noteq> k \<and> lk_free l m"
  by (auto simp: lk_free_def acq_def)

lemma lk_held_acq [lock_simps]: "lk_held l (acq k m) \<longleftrightarrow> l = k \<or> lk_held l m"
  by (auto simp: lk_held_def acq_def)

lemma mach_ok_acq [lock_simps]: "mach_ok m \<Longrightarrow> mach_ok (acq l m)"
  by (auto simp: mach_ok_def acq_def)

lemma intr_disabled_acq [lock_simps]: "mach_ok m \<Longrightarrow> intr_disabled (acq l m)"
  by (auto simp: mach_ok_def intr_disabled_def acq_def)

lemma hart_acq [lock_simps]: "hart (acq l m) = hart m"
  by (simp add: acq_def)

lemma cpu_proc_acq [lock_simps]: "cpu_proc (cpus (acq l m) h) = cpu_proc (cpus m h)"
  by (simp add: acq_def)

lemma noff_acq [lock_simps]: "noff (cpus (acq l m) (hart m)) = noff (this_cpu m) + 1"
  by (simp add: acq_def)

lemma rel_acq [lock_simps]: "lk_free l m \<Longrightarrow> mach_ok m \<Longrightarrow> rel l (acq l m) = settle m"
  by (cases m) (auto simp: lk_free_def mach_ok_def rel_def acq_def settle_def fun_eq_iff)

lemma rel_acq_acq [lock_simps]:
  "lk_free l m \<Longrightarrow> mach_ok m \<Longrightarrow> l \<noteq> k \<Longrightarrow> rel l (acq k (acq l m)) = acq k m"
  by (cases m) (auto simp: lk_free_def mach_ok_def rel_def acq_def fun_eq_iff)

lemma settle_acq [lock_simps]: "mach_ok m \<Longrightarrow> settle (acq l m) = acq l m"
  by (cases m) (auto simp: mach_ok_def settle_def acq_def fun_eq_iff)

lemma acq_settle [lock_simps]: "acq l (settle m) = acq l m"
  by (cases m) (auto simp: settle_def acq_def fun_eq_iff)

lemma settle_settle [lock_simps]: "settle (settle m) = settle m"
  by (cases m) (auto simp: settle_def fun_eq_iff)

lemma settle_props [lock_simps]:
  "lk_free l (settle m) = lk_free l m" "lk_held l (settle m) = lk_held l m"
  "mach_ok (settle m) = mach_ok m" "hart (settle m) = hart m"
  "cpu_proc (cpus (settle m) h) = cpu_proc (cpus m h)" "locks (settle m) = locks m"
  "intr_disabled (settle m) = intr_disabled m" "noff (cpus (settle m) h) = noff (cpus m h)"
  by (simp_all add: lk_free_def lk_held_def mach_ok_def settle_def intr_disabled_def)


text \<open>Locks and interrupts change nothing but the machine.\<close>

lemma keeps_kstate_more:
  "keeps kstate.more (set_lock l f)" "keeps kstate.more (set_mycpu g)" "keeps kstate.more mycpu"
  "keeps kstate.more cpuid" "keeps kstate.more (holding l)"
  by (simp_all add: set_lock_def set_mycpu_def mycpu_def cpuid_def holding_def keeps_modify keeps_gets)

lemma keeps_spinlock [keeps_intros]:
  "keeps kstate.more intr_get" "keeps kstate.more intr_on" "keeps kstate.more intr_off"
  "keeps kstate.more push_off" "keeps kstate.more pop_off"
  "keeps kstate.more (acquire l)" "keeps kstate.more (release l)" "keeps kstate.more (initlock l nm)"
  unfolding intr_get_def intr_on_def intr_off_def push_off_def pop_off_def acquire_def release_def initlock_def
    acquire_enter_def test_and_set_def acquire_record_def release_clear_def release_unlock_def
  by (intro keeps_intros keeps_kstate_more)+

lemmas [keeps_intros] = keeps_kstate_more

subsection \<open>Nested interrupt disabling\<close>

lemma pushes_exec:
  "for_each (replicate n ()) (\<lambda>_. push_off) s = Done () (if n = 0 then s else
     s\<lparr>mach := (mach s)\<lparr>cpus := (cpus (mach s))(hart (mach s) :=
       (this_cpu (mach s))\<lparr>sie := False,
         intena := (if noff (this_cpu (mach s)) = 0 then sie (this_cpu (mach s))
                    else intena (this_cpu (mach s))),
         noff := noff (this_cpu (mach s)) + int n\<rparr>)\<rparr>\<rparr>)"
  if "mach_ok (mach s)"
  using that
proof (induction n arbitrary: s)
  case 0
  then show ?case by (simp add: exec_simps)
next
  case (Suc n)
  define t where "t = s\<lparr>mach := (mach s)\<lparr>cpus := (cpus (mach s))(hart (mach s) :=
     (this_cpu (mach s))\<lparr>sie := False,
       intena := (if noff (this_cpu (mach s)) = 0 then sie (this_cpu (mach s))
                  else intena (this_cpu (mach s))),
       noff := noff (this_cpu (mach s)) + 1\<rparr>)\<rparr>\<rparr>"
  have "push_off s = Done () t"
    by (simp add: push_off_exec t_def)
  moreover have "mach_ok (mach t)"
    using Suc.prems by (auto simp: t_def mach_ok_def)
  ultimately show ?case
    using Suc.IH [of t] Suc.prems by (auto simp: seq_exec t_def mach_ok_def add.assoc)
qed

lemma pops_exec:
  "int n \<le> noff (this_cpu (mach s)) \<Longrightarrow> \<not> sie (this_cpu (mach s)) \<Longrightarrow>
   for_each (replicate n ()) (\<lambda>_. pop_off) s = Done () (s\<lparr>mach := (mach s)\<lparr>cpus := (cpus (mach s))(hart (mach s) :=
     (this_cpu (mach s))\<lparr>noff := noff (this_cpu (mach s)) - int n,
       sie := (0 < n \<and> noff (this_cpu (mach s)) = int n \<and> intena (this_cpu (mach s)))\<rparr>)\<rparr>\<rparr>)"
proof (induction n arbitrary: s)
  case 0
  then have "(this_cpu (mach s))\<lparr>noff := noff (this_cpu (mach s)), sie := False\<rparr> = this_cpu (mach s)"
    by (simp add: cpu_sie_False)
  then show ?case by (simp add: exec_simps)
next
  case (Suc n)
  define t where "t = s\<lparr>mach := (mach s)\<lparr>cpus := (cpus (mach s))(hart (mach s) :=
     (this_cpu (mach s))\<lparr>noff := noff (this_cpu (mach s)) - 1,
       sie := (noff (this_cpu (mach s)) = 1 \<and> intena (this_cpu (mach s)))\<rparr>)\<rparr>\<rparr>"
  have "pop_off s = Done () t"
    using Suc.prems by (simp add: pop_off_exec intr_disabled_def t_def)
  then have run: "for_each (replicate (Suc n) ()) (\<lambda>_. pop_off) s = for_each (replicate n ()) (\<lambda>_. pop_off) t"
    by (simp add: seq_exec)
  show ?case
  proof (cases n)
    case 0
    then show ?thesis using run by (simp add: ret_exec t_def fun_upd_def)
  next
    case (Suc m)
    then have "\<not> sie (this_cpu (mach t))" "int n \<le> noff (this_cpu (mach t))"
      using Suc.prems by (simp_all add: t_def)
    note run [unfolded Suc.IH [OF this(2,1)]]
    then show ?thesis using Suc Suc.prems by (simp add: t_def algebra_simps fun_upd_def cong: if_cong)
  qed
qed

subsection \<open>Several harts and one lock\<close>

text \<open>
  Where a hart stands in its use of a lock: outside, in the spin loop, past the test-and-set, in the
  critical section, between erasing the owner and unlocking. A step is one hart running the next
  piece of \<^verbatim>\<open>acquire\<close> or \<^verbatim>\<open>release\<close>; a failed test-and-set leaves the hart in the loop.
\<close>

datatype lock_pc = Out | Trying | Got | Inside | Clearing

definition on_hart :: "nat \<Rightarrow> (kstate, 'a) thread \<Rightarrow> machine \<Rightarrow> (kstate, 'a) outcome" where
  "on_hart h f m = f \<lparr>mach = m\<lparr>hart := h\<rparr>\<rparr>"

inductive lock_step :: "lock_id \<Rightarrow> machine \<times> (nat \<Rightarrow> lock_pc) \<Rightarrow> machine \<times> (nat \<Rightarrow> lock_pc) \<Rightarrow> bool"
  for l :: lock_id where
  step_enter: "pc h = Out \<Longrightarrow> on_hart h (acquire_enter l) m = Done () t \<Longrightarrow>
    lock_step l (m, pc) (mach t, pc(h := Trying))"
| step_fail: "pc h = Trying \<Longrightarrow> on_hart h (test_and_set l) m = Done True t \<Longrightarrow>
    lock_step l (m, pc) (mach t, pc)"
| step_win: "pc h = Trying \<Longrightarrow> on_hart h (test_and_set l) m = Done False t \<Longrightarrow>
    lock_step l (m, pc) (mach t, pc(h := Got))"
| step_record: "pc h = Got \<Longrightarrow> on_hart h (acquire_record l) m = Done () t \<Longrightarrow>
    lock_step l (m, pc) (mach t, pc(h := Inside))"
| step_clear: "pc h = Inside \<Longrightarrow> on_hart h (release_clear l) m = Done () t \<Longrightarrow>
    lock_step l (m, pc) (mach t, pc(h := Clearing))"
| step_unlock: "pc h = Clearing \<Longrightarrow> on_hart h (release_unlock l) m = Done () t \<Longrightarrow>
    lock_step l (m, pc) (mach t, pc(h := Out))"

definition lock_init :: "lock_id \<Rightarrow> machine \<times> (nat \<Rightarrow> lock_pc) \<Rightarrow> bool" where
  "lock_init l = (\<lambda>(m, pc). lk_free l m \<and> (\<forall>h. mach_ok (m\<lparr>hart := h\<rparr>)) \<and> (\<forall>h. pc h = Out))"

definition owns :: "lock_pc \<Rightarrow> bool" where
  "owns p = (p = Got \<or> p = Inside \<or> p = Clearing)"

definition word_inv :: "spinlock \<Rightarrow> (nat \<Rightarrow> lock_pc) \<Rightarrow> bool" where
  "word_inv k pc = (
     (lk_locked k \<longleftrightarrow> (\<exists>h. owns (pc h))) \<and>
     (\<forall>h h'. owns (pc h) \<and> owns (pc h') \<longrightarrow> h = h') \<and>
     (\<forall>h. lk_cpu k = Some h \<longleftrightarrow> pc h = Inside))"

definition intr_inv :: "(nat \<Rightarrow> cpu) \<Rightarrow> (nat \<Rightarrow> lock_pc) \<Rightarrow> bool" where
  "intr_inv cs pc = (\<forall>h. 0 \<le> noff (cs h) \<and> (0 < noff (cs h) \<longrightarrow> \<not> sie (cs h)) \<and>
     (pc h \<noteq> Out \<longrightarrow> 0 < noff (cs h)))"

definition lock_inv :: "lock_id \<Rightarrow> machine \<times> (nat \<Rightarrow> lock_pc) \<Rightarrow> bool" where
  "lock_inv l = (\<lambda>(m, pc). word_inv (locks m l) pc \<and> intr_inv (cpus m) pc)"

text \<open>The piece of code the hart runs next, and that it cannot panic.\<close>

definition next_piece :: "lock_id \<Rightarrow> lock_pc \<Rightarrow> (kstate, unit) thread" where
  "next_piece l p = (case p of Out \<Rightarrow> acquire_enter l | Trying \<Rightarrow> seq (test_and_set l) (ret ())
     | Got \<Rightarrow> acquire_record l | Inside \<Rightarrow> release_clear l | Clearing \<Rightarrow> release_unlock l)"

lemma owns_simps [simp]:
  "\<not> owns Out" "\<not> owns Trying" "owns Got" "owns Inside" "owns Clearing"
  by (simp_all add: owns_def)

lemma lock_inv_init: "lock_init l c \<Longrightarrow> lock_inv l c"
  by (cases c) (auto simp: lock_init_def lock_inv_def word_inv_def intr_inv_def lk_free_def mach_ok_def)

lemma word_inv_same:
  assumes "word_inv k pc" "owns (pc h) = owns p" "lk_locked k' = lk_locked k"
    and "\<And>x. lk_cpu k' = Some x \<longleftrightarrow> (pc(h := p)) x = Inside"
  shows "word_inv k' (pc(h := p))"
proof -
  have "owns ((pc(h := p)) x) = owns (pc x)" for x
    using assms(2) by simp
  then show ?thesis
    using assms(1,3,4) by (simp only: word_inv_def) blast
qed

lemma intr_inv_acquire:
  "intr_inv cs pc \<Longrightarrow> intr_inv (cs(h := (cs h)\<lparr>sie := False, intena := i, noff := noff (cs h) + 1\<rparr>)) (pc(h := p))"
  by (auto simp: intr_inv_def)

lemma intr_inv_same: "intr_inv cs pc \<Longrightarrow> pc h \<noteq> Out \<Longrightarrow> intr_inv cs (pc(h := p))"
  by (auto simp: intr_inv_def)

lemma intr_inv_release:
  assumes "intr_inv cs pc" "pc h \<noteq> Out"
  shows "intr_inv (cs(h := (cs h)\<lparr>noff := noff (cs h) - 1, sie := (noff (cs h) = 1 \<and> i)\<rparr>)) (pc(h := Out))"
  using assms by (auto simp: intr_inv_def)

lemma lock_inv_enter:
  assumes inv: "lock_inv l (m, pc)" and h: "pc h = Out"
    and run: "on_hart h (acquire_enter l) m = Done () t"
  shows "lock_inv l (mach t, pc(h := Trying))"
proof -
  have t: "t = \<lparr>mach = m\<lparr>hart := h, cpus := (cpus m)(h := (cpus m h)\<lparr>sie := False,
      intena := (if noff (cpus m h) = 0 then sie (cpus m h) else intena (cpus m h)),
      noff := noff (cpus m h) + 1\<rparr>)\<rparr>\<rparr>"
    using run by (simp add: on_hart_def acquire_enter_def holding_def exec_simps split: if_splits)
  have "word_inv (locks m l) (pc(h := Trying))"
    using inv h by (intro word_inv_same [where pc = pc]) (auto simp: lock_inv_def word_inv_def)
  then show ?thesis
    using inv by (simp add: t lock_inv_def intr_inv_acquire)
qed

lemma lock_inv_fail:
  "lock_inv l (m, pc) \<Longrightarrow> on_hart h (test_and_set l) m = Done True t \<Longrightarrow> lock_inv l (mach t, pc)"
  by (auto simp: on_hart_def test_and_set_def set_lock_def exec_simps lock_inv_def word_inv_def)

lemma lock_inv_win:
  "lock_inv l (m, pc) \<Longrightarrow> pc h = Trying \<Longrightarrow> on_hart h (test_and_set l) m = Done False t \<Longrightarrow>
   lock_inv l (mach t, pc(h := Got))"
  by (auto simp: on_hart_def test_and_set_def set_lock_def exec_simps lock_inv_def intr_inv_same word_inv_def)

lemma lock_inv_record:
  assumes inv: "lock_inv l (m, pc)" and h: "pc h = Got"
    and run: "on_hart h (acquire_record l) m = Done () t"
  shows "lock_inv l (mach t, pc(h := Inside))"
proof -
  have t: "t = \<lparr>mach = m\<lparr>hart := h, locks := (locks m)(l := (locks m l)\<lparr>lk_cpu := Some h\<rparr>)\<rparr>\<rparr>"
    using run by (simp add: on_hart_def acquire_record_def cpuid_def set_lock_def exec_simps)
  have "word_inv ((locks m l)\<lparr>lk_cpu := Some h\<rparr>) (pc(h := Inside))"
    using inv h by (intro word_inv_same [where pc = pc and k = "locks m l"])
      (auto simp: lock_inv_def word_inv_def)
  then show ?thesis
    using inv h by (simp add: t lock_inv_def intr_inv_same)
qed

lemma lock_inv_clear:
  assumes inv: "lock_inv l (m, pc)" and h: "pc h = Inside"
    and run: "on_hart h (release_clear l) m = Done () t"
  shows "lock_inv l (mach t, pc(h := Clearing))"
proof -
  have t: "t = \<lparr>mach = m\<lparr>hart := h, locks := (locks m)(l := (locks m l)\<lparr>lk_cpu := None\<rparr>)\<rparr>\<rparr>"
    using run by (simp add: on_hart_def release_clear_def holding_def set_lock_def exec_simps split: if_splits)
  have "word_inv ((locks m l)\<lparr>lk_cpu := None\<rparr>) (pc(h := Clearing))"
    using inv h by (intro word_inv_same [where pc = pc and k = "locks m l"])
      (auto simp: lock_inv_def word_inv_def)
  then show ?thesis
    using inv h by (simp add: t lock_inv_def intr_inv_same)
qed

lemma lock_inv_intr_disabled:
  "lock_inv l (m, pc) \<Longrightarrow> pc h \<noteq> Out \<Longrightarrow> intr_disabled (m\<lparr>hart := h, locks := k\<rparr>)"
  by (simp add: lock_inv_def intr_inv_def intr_disabled_def)

lemma lock_inv_unlock:
  assumes inv: "lock_inv l (m, pc)" and h: "pc h = Clearing"
    and run: "on_hart h (release_unlock l) m = Done () t"
  shows "lock_inv l (mach t, pc(h := Out))"
proof -
  have "intr_disabled (m\<lparr>hart := h, locks := k\<rparr>)" for k
    using lock_inv_intr_disabled [OF inv] h by simp
  then have t: "mach t = m\<lparr>hart := h, locks := (locks m)(l := (locks m l)\<lparr>lk_locked := False\<rparr>),
      cpus := (cpus m)(h := (cpus m h)\<lparr>noff := noff (cpus m h) - 1,
        sie := (noff (cpus m h) = 1 \<and> intena (cpus m h))\<rparr>)\<rparr>"
    using run by (auto simp: on_hart_def release_unlock_def set_lock_def exec_simps)
  have "word_inv ((locks m l)\<lparr>lk_locked := False\<rparr>) (pc(h := Out))"
    using inv h by (auto simp: lock_inv_def word_inv_def)
  then show ?thesis
    using inv h by (simp add: t lock_inv_def intr_inv_release)
qed

lemma lock_inv_step: "lock_inv l c \<Longrightarrow> lock_step l c d \<Longrightarrow> lock_inv l d"
  by (erule lock_step.cases)
    (auto intro: lock_inv_enter lock_inv_fail lock_inv_win lock_inv_record lock_inv_clear lock_inv_unlock)

interpretation contention: invariant_system "lock_init l" "lock_step l" "lock_inv l" for l
  by unfold_locales (auto intro: lock_inv_init lock_inv_step)

lemma lock_inv_no_panic:
  assumes inv: "lock_inv l (m, pc)"
  shows "\<exists>t. on_hart h (next_piece l (pc h)) m = Done () t"
proof (cases "pc h")
  case Clearing
  then have "intr_disabled (m\<lparr>hart := h, locks := k\<rparr>)" for k
    using lock_inv_intr_disabled [OF inv] by simp
  then show ?thesis
    using Clearing by (simp add: on_hart_def next_piece_def release_unlock_def set_lock_def exec_simps)
next
  case Inside
  then have "lk_locked (locks m l)" "lk_cpu (locks m l) = Some h"
    using inv owns_simps(4) by (auto simp: lock_inv_def word_inv_def simp del: owns_simps) metis
  then show ?thesis
    using Inside by (simp add: on_hart_def next_piece_def release_clear_def holding_def set_lock_def exec_simps)
qed (use inv in \<open>auto simp: lock_inv_def word_inv_def on_hart_def next_piece_def acquire_enter_def holding_def
      test_and_set_def acquire_record_def cpuid_def release_clear_def set_lock_def exec_simps\<close>)

subsection \<open>Properties\<close>

text \<open>A machine on which nothing runs: no lock taken, interrupts enabled on every hart.\<close>

definition idle_machine :: machine where
  "idle_machine = \<lparr>hart = 0, cpus = (\<lambda>_. \<lparr>cpu_proc = None, noff = 0, intena = False, sie = True\<rparr>),
     locks = (\<lambda>_. \<lparr>lk_locked = False, lk_name = [], lk_cpu = None\<rparr>)\<rparr>"

lemma idle_machine_simps [simp]:
  "hart idle_machine = 0" "lk_free l idle_machine" "mach_ok (idle_machine\<lparr>hart := h\<rparr>)" "mach_ok idle_machine"
  "lock_init l (idle_machine, \<lambda>_. Out)"
  by (simp_all add: idle_machine_def lk_free_def mach_ok_def lock_init_def)

text \<open>
  C4. Mutual exclusion: however the harts interleave their pieces of \<^verbatim>\<open>acquire\<close> and \<^verbatim>\<open>release\<close> on one
  lock, at most one hart is past the test-and-set and not yet past the unlock, and that hart runs
  with interrupts off.
\<close>

theorem mutual_exclusion:
  assumes "reachable (lock_init l) (lock_step l) (m, pc)" and "owns (pc h)"
  shows "(owns (pc h') \<longrightarrow> h' = h) \<and> \<not> sie (cpus m h)"
  using contention.reachable_inv [OF assms(1)] assms(2)
  by (auto simp: lock_inv_def word_inv_def intr_inv_def) (metis owns_simps(1))

lemma contended_example:
  obtains m pc where "reachable (lock_init Lk_kmem) (lock_step Lk_kmem) (m, pc)" "pc 1 = Got" "pc 2 = Trying"
proof -
  have init: "reachable (lock_init Lk_kmem) (lock_step Lk_kmem) (idle_machine, \<lambda>_. Out)"
    by (rule reach_init) simp
  obtain t1 where t1: "on_hart 1 (acquire_enter Lk_kmem) idle_machine = Done () t1" "\<not> lk_locked (locks (mach t1) Lk_kmem)"
    by (simp add: on_hart_def acquire_enter_def holding_def exec_simps idle_machine_def)
  obtain t2 where t2: "on_hart 2 (acquire_enter Lk_kmem) (mach t1) = Done () t2" "\<not> lk_locked (locks (mach t2) Lk_kmem)"
    using t1(2) by (simp add: on_hart_def acquire_enter_def holding_def exec_simps)
  obtain t3 where t3: "on_hart 1 (test_and_set Lk_kmem) (mach t2) = Done False t3"
    using t2(2) by (simp add: on_hart_def test_and_set_def set_lock_def exec_simps)
  have "reachable (lock_init Lk_kmem) (lock_step Lk_kmem) (mach t1, (\<lambda>_. Out)(1 := Trying))"
    by (rule reach_step [OF init]) (rule step_enter [OF _ t1(1)], simp)
  then have "reachable (lock_init Lk_kmem) (lock_step Lk_kmem) (mach t2, (\<lambda>_. Out)(1 := Trying, 2 := Trying))"
    by (rule reach_step) (rule step_enter [OF _ t2(1)], simp)
  then have "reachable (lock_init Lk_kmem) (lock_step Lk_kmem) (mach t3, (\<lambda>_. Out)(1 := Trying, 2 := Trying, 1 := Got))"
    by (rule reach_step) (rule step_win [OF _ t3], simp)
  then show thesis by (rule that) simp_all
qed

theorem mutual_exclusion_witness:
  "\<exists>m pc. reachable (lock_init Lk_kmem) (lock_step Lk_kmem) (m, pc) \<and> owns (pc 1) \<and>
     pc 2 = Trying \<and> \<not> sie (cpus m 1)"
proof -
  obtain m pc where c: "reachable (lock_init Lk_kmem) (lock_step Lk_kmem) (m, pc)" "pc 1 = Got" "pc 2 = Trying"
    by (rule contended_example)
  then have "owns (pc 1)" by simp
  then show ?thesis
    using c mutual_exclusion [OF c(1), of 1 1] by blast
qed

text \<open>
  C23. No piece of the protocol panics: in every reachable state every hart can run the next piece of
  its \<^verbatim>\<open>acquire\<close> or \<^verbatim>\<open>release\<close> (the checks of \<^verbatim>\<open>acquire\<close>, \<^verbatim>\<open>release\<close> and \<^verbatim>\<open>pop_off\<close> all pass).
\<close>

theorem contention_no_panic:
  "reachable (lock_init l) (lock_step l) (m, pc) \<Longrightarrow> \<exists>t. on_hart h (next_piece l (pc h)) m = Done () t"
  by (rule lock_inv_no_panic) (rule contention.reachable_inv)

theorem contention_no_panic_witness:
  "\<exists>m pc t. reachable (lock_init Lk_kmem) (lock_step Lk_kmem) (m, pc) \<and> pc 1 = Got \<and>
     on_hart 1 (next_piece Lk_kmem Got) m = Done () t"
proof -
  obtain m pc where c: "reachable (lock_init Lk_kmem) (lock_step Lk_kmem) (m, pc)" "pc 1 = Got"
    by (rule contended_example)
  then show ?thesis
    using contention_no_panic [OF c(1), of 1] by auto
qed

text \<open>
  \<^verbatim>\<open>push_off\<close> and \<^verbatim>\<open>pop_off\<close> are matched: after \<open>n\<close> calls of each, nested, the interrupt enable bit and
  the nesting depth are what they were before, and interrupts are off in between.
\<close>

lemma push_pop_matched:
  assumes "mach_ok (mach s)" and "0 < n"
  shows "\<exists>t. for_each (replicate n ()) (\<lambda>_. push_off) s = Done () t \<and> \<not> sie (this_cpu (mach t)) \<and>
    for_each (replicate n ()) (\<lambda>_. pop_off) t = Done () (s\<lparr>mach := settle (mach s)\<rparr>)"
proof -
  obtain t where t: "for_each (replicate n ()) (\<lambda>_. push_off) s = Done () t"
    "t = s\<lparr>mach := (mach s)\<lparr>cpus := (cpus (mach s))(hart (mach s) :=
       (this_cpu (mach s))\<lparr>sie := False,
         intena := (if noff (this_cpu (mach s)) = 0 then sie (this_cpu (mach s))
                    else intena (this_cpu (mach s))),
         noff := noff (this_cpu (mach s)) + int n\<rparr>)\<rparr>\<rparr>"
    using pushes_exec [OF assms(1), of n] assms(2) by simp
  have "for_each (replicate n ()) (\<lambda>_. pop_off) t = Done () (s\<lparr>mach := settle (mach s)\<rparr>)"
    using assms by (subst pops_exec) (auto simp: t(2) mach_ok_def settle_def fun_upd_def cpu_sie_id cong: if_cong)
  then show ?thesis using t by auto
qed

end
