(* ===== verification/Kalloc.thy ===== *)
theory Kalloc
  imports Spinlock Kstring
begin

text \<open>
  \<^verbatim>\<open>kernel/kalloc.c\<close>: the allocator of 4096-byte physical pages. Physical memory is a function from
  addresses to bytes. The free list has no storage of its own: the first eight bytes of a free page
  hold the address of the next one, and \<open>chain\<close> relates those pointers to a list of pages. The
  address \<^verbatim>\<open>end\<close> that the linker gives the end of the kernel is a component of the state that no
  operation changes.
\<close>

subsection \<open>Physical memory\<close>

record kmstate = kstate +
  mem :: bytes
  kend :: u64
  freelist :: u64

definition load64 :: "bytes \<Rightarrow> u64 \<Rightarrow> u64" where
  "load64 m a = of_nat (rd 8 m (unat a))"

definition store64 :: "u64 \<Rightarrow> u64 \<Rightarrow> bytes \<Rightarrow> bytes" where
  "store64 a v m = wr 8 (unat v) (unat a) m"

lemma unat_u64_less: "unat (x :: u64) < 256 ^ 8"
  using unsigned_less [where 'a = nat, of x] by simp

lemma load64_store64 [simp]: "load64 (store64 a v m) a = v"
  by (simp only: load64_def store64_def rd_wr_same [OF unat_u64_less] of_nat_unat ucast_id)

lemma load64_store64_other:
  "unat a + 8 \<le> unat b \<or> unat b + 8 \<le> unat a \<Longrightarrow> load64 (store64 b v m) a = load64 m a"
  by (simp add: load64_def store64_def rd_wr_other)

lemma load64_cong: "(\<And>i. unat a \<le> i \<Longrightarrow> i < unat a + 8 \<Longrightarrow> m i = m' i) \<Longrightarrow> load64 m a = load64 m' a"
  unfolding load64_def by (intro arg_cong [where f = of_nat] rd_cong)

subsection \<open>kalloc.c\<close>

definition kfree :: "u64 \<Rightarrow> ('x kmstate_scheme, unit) thread" where
  "kfree pa =
     bind (gets kend) (\<lambda>e.
     if pa mod PGSIZE \<noteq> 0 \<or> pa < e \<or> pa \<ge> PHYSTOP then panic ''kfree'' else
     seq (modify (\<lambda>s. s\<lparr>mem := memset (mem s) (unat pa) 1 4096\<rparr>)) (
     seq (acquire Lk_kmem) (
     seq (modify (\<lambda>s. s\<lparr>mem := store64 pa (freelist s) (mem s)\<rparr>)) (
     seq (modify (\<lambda>s. s\<lparr>freelist := pa\<rparr>))
         (release Lk_kmem)))))"

function freerange_loop :: "nat \<Rightarrow> nat \<Rightarrow> ('x kmstate_scheme, unit) thread" where
  "freerange_loop p pa_end =
     (if p + 4096 \<le> pa_end then seq (kfree (of_nat p)) (freerange_loop (p + 4096) pa_end) else ret ())"
  by auto
termination by (relation "measure (\<lambda>(p, pa_end). pa_end - p)") auto

declare freerange_loop.simps [simp del]

definition freerange :: "u64 \<Rightarrow> u64 \<Rightarrow> ('x kmstate_scheme, unit) thread" where
  "freerange pa_start pa_end = freerange_loop (unat (PGROUNDUP pa_start)) (unat pa_end)"

definition kinit :: "('x kmstate_scheme, unit) thread" where
  "kinit = seq (initlock Lk_kmem ''kmem'') (bind (gets kend) (\<lambda>e. freerange e PHYSTOP))"

definition kalloc :: "('x kmstate_scheme, u64) thread" where
  "kalloc =
     seq (acquire Lk_kmem) (
     bind (gets freelist) (\<lambda>r.
     seq (whenM (r \<noteq> 0) (modify (\<lambda>s. s\<lparr>freelist := load64 (mem s) r\<rparr>))) (
     seq (release Lk_kmem) (
     seq (whenM (r \<noteq> 0) (modify (\<lambda>s. s\<lparr>mem := memset (mem s) (unat r) 5 4096\<rparr>)))
         (ret r)))))"

subsection \<open>The free list\<close>

definition page_ok :: "u64 \<Rightarrow> u64 \<Rightarrow> bool" where
  "page_ok e p = (page_aligned p \<and> e \<le> p \<and> p < PHYSTOP)"

primrec chain :: "u64 list \<Rightarrow> bytes \<Rightarrow> u64 \<Rightarrow> bool" where
  "chain [] m r = (r = 0)"
| "chain (p # ps) m r = (r = p \<and> p \<noteq> 0 \<and> chain ps m (load64 m p))"

definition free_list :: "u64 list \<Rightarrow> 'x kmstate_scheme \<Rightarrow> bool" where
  "free_list ps s = (chain ps (mem s) (freelist s) \<and> distinct ps \<and> (\<forall>p \<in> set ps. page_ok (kend s) p))"

definition kmem_ready :: "'x kmstate_scheme \<Rightarrow> bool" where
  "kmem_ready s = (lk_free Lk_kmem (mach s) \<and> mach_ok (mach s) \<and> 0 < kend s)"

lemma pages_apart:
  assumes "page_ok e p" "page_ok e q" "p \<noteq> q"
  shows "unat p + 4096 \<le> unat q \<or> unat q + 4096 \<le> unat p"
proof -
  obtain i j where "unat p = 4096 * i" "unat q = 4096 * j"
    using assms(1,2) by (auto simp: page_ok_def page_aligned_iff_unat dvd_def)
  moreover have "unat p \<noteq> unat q"
    using assms(3) by (simp only: word_unat_eq_iff not_False_eq_True)
  ultimately show ?thesis by auto
qed

lemma chain_cong:
  "chain ps m r \<Longrightarrow> (\<And>p i. p \<in> set ps \<Longrightarrow> unat p \<le> i \<Longrightarrow> i < unat p + 8 \<Longrightarrow> m i = m' i) \<Longrightarrow> chain ps m' r"
proof (induction ps arbitrary: r)
  case (Cons p ps)
  have "load64 m p = load64 m' p"
    by (rule load64_cong) (auto intro: Cons.prems(2))
  moreover have "chain ps m' (load64 m p)"
    by (rule Cons.IH) (use Cons.prems in auto)
  ultimately show ?case
    using Cons.prems(1) by simp
qed simp

lemma kfree_exec [exec_simps]:
  assumes "kmem_ready s" "page_ok (kend s) pa"
  shows "kfree pa s = Done () (s\<lparr>mach := settle (mach s), freelist := pa,
    mem := store64 pa (freelist s) (fill 4096 1 (unat pa) (mem s))\<rparr>)"
  using assms by (simp add: kfree_def exec_simps lock_simps kmem_ready_def page_ok_def page_aligned_def
      memset_fill not_le not_less)

lemma kalloc_exec [exec_simps]:
  assumes "kmem_ready s"
  shows "kalloc s = (if freelist s = 0 then Done 0 (s\<lparr>mach := settle (mach s)\<rparr>) else
    Done (freelist s) (s\<lparr>mach := settle (mach s), freelist := load64 (mem s) (freelist s),
      mem := fill 4096 5 (unat (freelist s)) (mem s)\<rparr>))"
  using assms by (simp add: kalloc_def exec_simps lock_simps kmem_ready_def memset_fill)

lemma kmem_ready_settle [simp]:
  "kmem_ready (s\<lparr>mach := settle (mach s), freelist := f, mem := m\<rparr>) = kmem_ready s"
  "kmem_ready (s\<lparr>mach := settle (mach s)\<rparr>) = kmem_ready s"
  by (simp_all add: kmem_ready_def lock_simps)

lemma free_list_kfree:
  assumes "free_list ps s" "page_ok (kend s) pa" "pa \<notin> set ps" "0 < kend s"
  shows "free_list (pa # ps) (s\<lparr>mach := m, freelist := pa,
    mem := store64 pa (freelist s) (fill 4096 1 (unat pa) (mem s))\<rparr>)"
proof -
  have "chain ps (store64 pa (freelist s) (fill 4096 1 (unat pa) (mem s))) (freelist s)"
  proof (rule chain_cong)
    fix p i assume p: "p \<in> set ps" and i: "unat p \<le> i" "i < unat p + 8"
    have "unat p + 4096 \<le> unat pa \<or> unat pa + 4096 \<le> unat p"
      using assms(1-3) p by (intro pages_apart [of "kend s"]) (auto simp: free_list_def)
    then show "mem s i = store64 pa (freelist s) (fill 4096 1 (unat pa) (mem s)) i"
      using i by (auto simp: store64_def wr_def fill_def)
  qed (use assms in \<open>simp add: free_list_def\<close>)
  moreover have "pa \<noteq> 0"
    using assms(2,4) by (auto simp: page_ok_def)
  ultimately show ?thesis
    using assms by (simp add: free_list_def)
qed

lemma free_list_kalloc:
  assumes "free_list (p # ps) s"
  shows "free_list ps (s\<lparr>mach := m, freelist := load64 (mem s) (freelist s),
    mem := fill 4096 c (unat (freelist s)) (mem s)\<rparr>)"
proof -
  have "chain ps (fill 4096 c (unat p) (mem s)) (load64 (mem s) p)"
  proof (rule chain_cong)
    fix q i assume q: "q \<in> set ps" and i: "unat q \<le> i" "i < unat q + 8"
    have "unat q + 4096 \<le> unat p \<or> unat p + 4096 \<le> unat q"
      using assms q by (intro pages_apart [of "kend s"]) (auto simp: free_list_def)
    then show "mem s i = fill 4096 c (unat p) (mem s) i"
      using i by (auto simp: fill_def)
  qed (use assms in \<open>simp add: free_list_def\<close>)
  then show ?thesis
    using assms by (auto simp: free_list_def)
qed

lemma free_list_Nil: "free_list [] s \<longleftrightarrow> freelist s = 0"
  by (simp add: free_list_def)

lemma free_list_Cons: "free_list (p # ps) s \<Longrightarrow> freelist s = p \<and> p \<noteq> 0 \<and> p \<notin> set ps \<and> page_ok (kend s) p"
  by (simp add: free_list_def)

subsection \<open>The allocator of pages\<close>

definition kalloc_opt :: "('x kmstate_scheme, u64 option) thread" where
  "kalloc_opt = bind kalloc (\<lambda>r. ret (if r = 0 then None else Some r))"

definition pages_free :: "u64 \<Rightarrow> u64 set \<Rightarrow> 'x kmstate_scheme \<Rightarrow> bool" where
  "pages_free e S s = (kend s = e \<and> kmem_ready s \<and> (\<exists>ps. free_list ps s \<and> set ps = S))"

interpretation page_pool: pool kalloc_opt kfree "pages_free e" "{p. page_ok e p}" for e
proof
  show "S \<subseteq> {p. page_ok e p}" if "pages_free e S s" for S and s :: "'x kmstate_scheme"
    using that by (auto simp: pages_free_def free_list_def)
next
  fix S and s :: "'x kmstate_scheme"
  assume S: "pages_free e S s" "S \<noteq> {}"
  then obtain p ps where ps: "free_list (p # ps) s" "S = set (p # ps)" "kmem_ready s" "kend s = e"
    unfolding pages_free_def by (metis list.exhaust list.set(1))
  let ?t = "s\<lparr>mach := settle (mach s), freelist := load64 (mem s) (freelist s),
      mem := fill 4096 5 (unat (freelist s)) (mem s)\<rparr>"
  have "kalloc_opt s = Done (Some p) ?t"
    using ps(3) free_list_Cons [OF ps(1)] by (simp add: kalloc_opt_def exec_simps)
  moreover have "pages_free e (S - {p}) ?t"
    using ps free_list_Cons [OF ps(1)] free_list_kalloc [OF ps(1), where m = "settle (mach s)" and c = 5]
    by (auto simp: pages_free_def)
  ultimately show "\<exists>i t. kalloc_opt s = Done (Some i) t \<and> i \<in> S \<and> pages_free e (S - {i}) t"
    using ps(2) by auto
next
  fix s :: "'x kmstate_scheme"
  assume "pages_free e {} s"
  then show "\<exists>t. kalloc_opt s = Done None t \<and> pages_free e {} t"
    by (auto simp: pages_free_def kalloc_opt_def exec_simps free_list_Nil)
next
  fix S i and s :: "'x kmstate_scheme"
  assume S: "pages_free e S s" "i \<in> {p. page_ok e p}" "i \<notin> S"
  then obtain ps where ps: "free_list ps s" "S = set ps" "kmem_ready s" "kend s = e"
    by (auto simp: pages_free_def)
  let ?t = "s\<lparr>mach := settle (mach s), freelist := i,
      mem := store64 i (freelist s) (fill 4096 1 (unat i) (mem s))\<rparr>"
  have "free_list (i # ps) ?t"
    using free_list_kfree [OF ps(1)] S ps by (simp add: kmem_ready_def)
  then have "pages_free e (insert i S) ?t"
    unfolding pages_free_def using ps by (intro conjI exI [of _ "i # ps"]) simp_all
  moreover have "kfree i s = Done () ?t"
    by (rule kfree_exec) (use ps S in simp_all)
  ultimately show "\<exists>t. kfree i s = Done () t \<and> pages_free e (insert i S) t"
    by blast
qed

lemma freerange_loop_frees:
  assumes "pages_free e S s" "4096 dvd p" "unat e \<le> p" "\<And>q. q \<in> S \<Longrightarrow> unat q < p" "p \<le> unat PHYSTOP"
  shows "\<exists>t. freerange_loop p (unat PHYSTOP) s = Done () t \<and> pages_free e (S \<union> {q. page_ok e q \<and> p \<le> unat q}) t"
  using assms
proof (induction "unat PHYSTOP - p" arbitrary: p S s rule: less_induct)
  case less
  obtain k where k: "p = 4096 * k" using less.prems(2) by (auto simp: dvd_def)
  show ?case
  proof (cases "p + 4096 \<le> unat PHYSTOP")
    case True
    then have up: "unat (of_nat p :: u64) = p" by (simp add: unat_of_nat)
    then have ok: "page_ok e (of_nat p)"
      using True less.prems(2,3) by (simp add: page_ok_def page_aligned_iff_unat word_le_nat_alt word_less_nat_alt)
    have "of_nat p \<notin> S" using less.prems(4) [of "of_nat p"] up by auto
    then obtain t where t: "kfree (of_nat p) s = Done () t" "pages_free e (insert (of_nat p) S) t"
      using page_pool.free_ok [OF less.prems(1), of "of_nat p"] ok by auto
    have "\<exists>u. freerange_loop (p + 4096) (unat PHYSTOP) t = Done () u \<and>
        pages_free e (insert (of_nat p) S \<union> {q. page_ok e q \<and> p + 4096 \<le> unat q}) u"
    proof (rule less.hyps [OF _ t(2)])
      show "unat q < p + 4096" if "q \<in> insert (of_nat p) S" for q
        using that less.prems(4) [of q] up by auto
    qed (use True less.prems(2,3) in auto)
    moreover have "insert (of_nat p) S \<union> {q. page_ok e q \<and> p + 4096 \<le> unat q} = S \<union> {q. page_ok e q \<and> p \<le> unat q}"
    proof -
      have "q = of_nat p \<or> p + 4096 \<le> unat q" if "page_ok e q" "p \<le> unat q" for q
        using pages_apart [OF that(1) ok] that(2) up by auto
      moreover have "p \<le> unat (of_nat p :: u64)" using up by simp
      ultimately show ?thesis
        unfolding set_eq_iff Un_iff insert_iff mem_Collect_eq using ok by (metis add_leD1)
    qed
    ultimately show ?thesis
      using True t(1) by (subst freerange_loop.simps) (auto simp: seq_Done)
  next
    case False
    then have "{q. page_ok e q \<and> p \<le> unat q} = {}"
      using k less.prems(5) by (auto simp: page_ok_def page_aligned_iff_unat word_less_nat_alt elim!: dvdE)
    then show ?thesis
      using False less.prems(1) by (subst freerange_loop.simps) (simp add: ret_def del: Collect_empty_eq)
  qed
qed

subsection \<open>Properties\<close>

text \<open>
  C33. Booting the allocator makes every page available: from any memory contents, \<^verbatim>\<open>kinit\<close> returns with a
  well-formed free list that holds exactly the aligned pages between the end of the kernel and
  \<^verbatim>\<open>PHYSTOP\<close>, each once.
\<close>

theorem kinit_frees_all:
  assumes "mach_ok (mach s)" "0 < kend s" "kend s \<le> PHYSTOP" "freelist s = 0"
  shows "\<exists>t ps. kinit s = Done () t \<and> free_list ps t \<and> set ps = {p. page_ok (kend s) p}"
proof -
  let ?s = "s\<lparr>mach := (mach s)\<lparr>locks := (locks (mach s))(Lk_kmem :=
    (locks (mach s) Lk_kmem)\<lparr>lk_name := ''kmem'', lk_locked := False, lk_cpu := None\<rparr>)\<rparr>\<rparr>"
  let ?p = "unat (PGROUNDUP (kend s))"
  have "unat (kend s) \<le> unat PHYSTOP"
    using assms(3) by (simp add: word_le_nat_alt)
  then have p: "?p = (unat (kend s) + 4095) div 4096 * 4096" "?p \<le> unat PHYSTOP" "unat (kend s) \<le> ?p" "4096 dvd ?p"
    using unat_PGROUNDUP [of "kend s"] by auto
  have "pages_free (kend s) {} ?s"
    using assms by (simp add: pages_free_def kmem_ready_def lk_free_def mach_ok_def free_list_Nil)
  from freerange_loop_frees [OF this p(4,3) _ p(2)] obtain t where
    t: "freerange_loop ?p (unat PHYSTOP) ?s = Done () t" "pages_free (kend s) {q. page_ok (kend s) q \<and> ?p \<le> unat q} t"
    by auto
  have "{q. page_ok (kend s) q \<and> ?p \<le> unat q} = {q. page_ok (kend s) q}"
    using p(1) by (auto simp: page_ok_def page_aligned_iff_unat word_le_nat_alt dvd_def)
  then show ?thesis
    using t by (auto simp: kinit_def initlock_def set_lock_def exec_simps freerange_def pages_free_def)
qed

definition boot_memory :: "kmstate" where
  "boot_memory = \<lparr>mach = idle_machine, mem = (\<lambda>_. 0), kend = 0x87FFDFFF, freelist = 0\<rparr>"

lemma boot_memory_simps:
  "mach boot_memory = idle_machine" "kend boot_memory = 0x87FFDFFF" "freelist boot_memory = 0"
  by (simp_all add: boot_memory_def)

theorem kinit_frees_all_witness:
  "\<exists>t ps. kinit boot_memory = Done () t \<and> free_list ps t \<and> set ps = {p. page_ok (kend boot_memory) p}"
  by (rule kinit_frees_all) (simp_all add: boot_memory_simps)

text \<open>
  C3. No page is ever allocated twice: whatever sequence of \<^verbatim>\<open>kalloc\<close> and \<^verbatim>\<open>kfree\<close> calls the kernel makes,
  freeing only what it holds, every call returns, \<^verbatim>\<open>kalloc\<close> never returns a page that is in use, and
  the free pages are at every moment exactly those not in use.
\<close>

theorem pages_never_shared:
  assumes "pages_free e ({p. page_ok e p} - held) s" "held \<subseteq> {p. page_ok e p}"
  shows "\<exists>held' t. serve kalloc_opt kfree rs held s = Done held' t \<and> held' \<subseteq> {p. page_ok e p} \<and>
    pages_free e ({p. page_ok e p} - held') t"
  using assms by (rule page_pool.serve_ok)

theorem pages_never_shared_witness:
  "\<exists>s held' t. serve kalloc_opt kfree [Take, Take, Give (PHYSTOP - 0x1000), Take, Take] {} (s :: kmstate) = Done held' t \<and>
     pages_free 0x87FFDFFF ({p. page_ok 0x87FFDFFF p} - held') t"
proof -
  have p0: "4096 dvd unat (PHYSTOP - 0x2000)" by simp
  have "pages_free 0x87FFDFFF {} boot_memory"
    by (simp add: boot_memory_def pages_free_def kmem_ready_def free_list_Nil)
  from freerange_loop_frees [OF this p0] obtain s :: kmstate where
    s: "pages_free 0x87FFDFFF {q. page_ok 0x87FFDFFF q \<and> unat (PHYSTOP - 0x2000) \<le> unat q} s"
    by auto
  have "{q. page_ok 0x87FFDFFF q \<and> unat (PHYSTOP - 0x2000) \<le> unat q} = {q. page_ok 0x87FFDFFF q} - {}"
    by (auto simp: page_ok_def page_aligned_iff_unat word_le_nat_alt dvd_def)
  with s have "pages_free 0x87FFDFFF ({q. page_ok 0x87FFDFFF q} - {}) s" by simp
  from pages_never_shared [OF this, of "[Take, Take, Give (PHYSTOP - 0x1000), Take, Take]"] show ?thesis
    by blast
qed

text \<open>
  C34. Effect of the two calls on memory: \<^verbatim>\<open>kalloc\<close> takes the first page of the list and fills it with
  5; \<^verbatim>\<open>kfree\<close> puts a page at the front, its first word pointing to the old list and the rest filled with 1;
  neither changes a byte of any other page. \<^verbatim>\<open>kfree\<close> panics on an unaligned or out-of-range address.
\<close>

theorem kalloc_kfree_memory:
  assumes "kmem_ready s" "free_list (p # ps) s"
  shows "\<exists>t. kalloc s = Done p t \<and> free_list ps t \<and>
      (\<forall>i. mem t i = (if unat p \<le> i \<and> i < unat p + 4096 then 5 else mem s i)) \<and>
      (\<exists>u. kfree p t = Done () u \<and> free_list (p # ps) u \<and>
        (\<forall>i. i < unat p \<or> unat p + 4096 \<le> i \<longrightarrow> mem u i = mem s i) \<and>
        (\<forall>i. unat p + 8 \<le> i \<and> i < unat p + 4096 \<longrightarrow> mem u i = 1)) \<and>
      (\<not> page_ok (kend s) q \<longrightarrow> kfree q s = Panic ''kfree'')"
proof -
  note p = free_list_Cons [OF assms(2)]
  let ?t = "s\<lparr>mach := settle (mach s), freelist := load64 (mem s) (freelist s),
      mem := fill 4096 5 (unat (freelist s)) (mem s)\<rparr>"
  have t: "kalloc s = Done p ?t" "free_list ps ?t"
    using assms(1) p free_list_kalloc [OF assms(2)] by (simp_all add: exec_simps)
  have "kfree p ?t = Done () (?t\<lparr>mach := settle (mach ?t), freelist := p,
    mem := store64 p (freelist ?t) (fill 4096 1 (unat p) (mem ?t))\<rparr>)"
    by (rule kfree_exec) (use assms p in simp_all)
  moreover have "free_list (p # ps) (?t\<lparr>mach := settle (mach ?t), freelist := p,
    mem := store64 p (freelist ?t) (fill 4096 1 (unat p) (mem ?t))\<rparr>)"
    by (rule free_list_kfree) (use assms p t in \<open>simp_all add: kmem_ready_def\<close>)
  moreover have "\<not> page_ok (kend s) q \<longrightarrow> kfree q s = Panic ''kfree''"
    by (auto simp: kfree_def exec_simps page_ok_def page_aligned_def not_le not_less)
  ultimately show ?thesis
    using t p by (auto simp: store64_def wr_def fill_def)
qed

theorem kalloc_kfree_memory_witness:
  "\<exists>(s :: kmstate) t. kmem_ready s \<and> kalloc s = Done (PHYSTOP - 0x1000) t \<and> mem t (unat PHYSTOP - 1) = 5"
proof -
  let ?s = "boot_memory\<lparr>freelist := PHYSTOP - 0x1000\<rparr>"
  have "kmem_ready ?s" "free_list [PHYSTOP - 0x1000] ?s"
    by (simp_all add: boot_memory_def kmem_ready_def free_list_def load64_def rd_def page_ok_def page_aligned_def)
  from kalloc_kfree_memory [OF this, of 0] obtain t where
    "kalloc ?s = Done (PHYSTOP - 0x1000) t" "mem t (unat PHYSTOP - 1) = 5" by auto
  with \<open>kmem_ready ?s\<close> show ?thesis by blast
qed

end
