(* ===== verification/Vm.thy ===== *)
theory Vm
  imports Kalloc
begin

unbundle bit_operations_syntax

text \<open>
  \<^verbatim>\<open>kernel/vm.c\<close>: page tables in physical memory, and copying between kernel and user memory. A page
  table is the address of its root page; its 512 entries, and those of the lower levels, are 64-bit
  words in memory. A kernel buffer that is copied from or to is a byte array with an offset. The
  loops over addresses count in natural numbers: before an address could wrap around 64 bits it
  passes \<^verbatim>\<open>MAXVA\<close>, where \<^verbatim>\<open>walk\<close> panics. \<open>node\<close> and \<open>pt_lookup\<close> are the reference view: the tree of
  table pages, and the entry that a virtual address has.
\<close>

record vmstate = kmstate +
  kernel_pagetable :: u64
  satp :: "nat \<Rightarrow> u64"

definition set_mem :: "(bytes \<Rightarrow> bytes) \<Rightarrow> ('x kmstate_scheme, unit) thread" where
  "set_mem f = modify (\<lambda>s. s\<lparr>mem := f (mem s)\<rparr>)"

definition entry :: "u64 \<Rightarrow> u64 \<Rightarrow> u64" where
  "entry pagetable i = pagetable + 8 * i"

definition has :: "u64 \<Rightarrow> u64 \<Rightarrow> bool" where
  "has pte flag = (pte AND flag \<noteq> 0)"

lemma set_mem_exec [exec_simps]: "set_mem f s = Done () (s\<lparr>mem := f (mem s)\<rparr>)"
  by (simp add: set_mem_def modify_def)

subsection \<open>Walking and changing page tables\<close>

text \<open>One level of \<^verbatim>\<open>walk\<close>: the table below the entry of \<open>va\<close>, \<open>None\<close> where there is none.\<close>

definition walk_level :: "nat \<Rightarrow> u64 \<Rightarrow> u64 \<Rightarrow> bool \<Rightarrow> ('x kmstate_scheme, u64 option) thread" where
  "walk_level level pagetable va alloc =
     (let pte = entry pagetable (PX level va) in
      bind (gets (\<lambda>s. load64 (mem s) pte)) (\<lambda>v.
      if has v PTE_V then ret (Some (PTE2PA v))
      else if \<not> alloc then ret None
      else bind kalloc (\<lambda>p.
        if p = 0 then ret None
        else seq (set_mem (\<lambda>m. memset m (unat p) 0 4096)) (
             seq (set_mem (store64 pte (PA2PTE p OR PTE_V)))
                 (ret (Some p))))))"

primrec walk_loop :: "nat \<Rightarrow> u64 \<Rightarrow> u64 \<Rightarrow> bool \<Rightarrow> ('x kmstate_scheme, u64) thread" where
  "walk_loop 0 pagetable va alloc = ret (entry pagetable (PX 0 va))"
| "walk_loop (Suc l) pagetable va alloc =
     bind (walk_level (Suc l) pagetable va alloc) (\<lambda>r. case r of
       None \<Rightarrow> ret 0
     | Some p \<Rightarrow> walk_loop l p va alloc)"

definition walk :: "u64 \<Rightarrow> u64 \<Rightarrow> bool \<Rightarrow> ('x kmstate_scheme, u64) thread" where
  "walk pagetable va alloc = (if va \<ge> MAXVA then panic ''walk'' else walk_loop 2 pagetable va alloc)"

definition walkaddr :: "u64 \<Rightarrow> u64 \<Rightarrow> ('x kmstate_scheme, u64) thread" where
  "walkaddr pagetable va =
     (if va \<ge> MAXVA then ret 0 else
      bind (walk pagetable va False) (\<lambda>pte.
      if pte = 0 then ret 0 else
      bind (gets (\<lambda>s. load64 (mem s) pte)) (\<lambda>v.
      if \<not> has v PTE_V then ret 0 else
      if \<not> has v PTE_U then ret 0 else
      ret (PTE2PA v))))"

text \<open>
  The loop of \<^verbatim>\<open>mappages\<close> runs until \<open>a\<close> is the \<^verbatim>\<open>last\<close> page, here \<open>stop\<close>. If 4096 does not divide \<open>stop - a\<close> it would never end;
  \<^verbatim>\<open>mappages\<close> has checked the alignment before.
\<close>

lemma mappages_measure:
  "a \<noteq> stop \<Longrightarrow> 4096 dvd unat (stop - a) \<Longrightarrow> unat (stop - (a + 4096)) < unat (stop - a)" for a stop :: u64
proof -
  assume a: "a \<noteq> stop" "4096 dvd unat (stop - a)"
  then have "0 < unat (stop - a)" by (simp add: unat_gt_0)
  then have "4096 \<le> unat (stop - a)" using a(2) by (auto dest: dvd_imp_le)
  then have "unat (stop - a - 4096) = unat (stop - a) - 4096"
    by (subst unat_sub) (simp_all add: word_le_nat_alt)
  then show ?thesis using \<open>4096 \<le> unat (stop - a)\<close> by (simp add: diff_diff_eq)
qed

function mappages_loop :: "u64 \<Rightarrow> u64 \<Rightarrow> u64 \<Rightarrow> u64 \<Rightarrow> u64 \<Rightarrow> ('x kmstate_scheme, int) thread" where
  "mappages_loop pagetable a stop pa perm =
     bind (walk pagetable a True) (\<lambda>pte.
     if pte = 0 then ret (- 1) else
     bind (gets (\<lambda>s. load64 (mem s) pte)) (\<lambda>v.
     if has v PTE_V then panic ''mappages: remap'' else
     seq (set_mem (store64 pte (PA2PTE pa OR perm OR PTE_V))) (
     if a = stop then ret 0
     else if \<not> 4096 dvd unat (stop - a) then spin
     else mappages_loop pagetable (a + PGSIZE) stop (pa + PGSIZE) perm)))"
  by auto
termination by (relation "measure (\<lambda>(pagetable, a, stop, pa, perm). unat (stop - a))")
    (simp_all add: mappages_measure)

declare mappages_loop.simps [simp del]

definition mappages :: "u64 \<Rightarrow> u64 \<Rightarrow> u64 \<Rightarrow> u64 \<Rightarrow> u64 \<Rightarrow> ('x kmstate_scheme, int) thread" where
  "mappages pagetable va sz pa perm =
     (if va mod PGSIZE \<noteq> 0 then panic ''mappages: va not aligned''
      else if sz mod PGSIZE \<noteq> 0 then panic ''mappages: size not aligned''
      else if sz = 0 then panic ''mappages: size''
      else mappages_loop pagetable va (va + sz - PGSIZE) pa perm)"

definition kvmmap :: "u64 \<Rightarrow> u64 \<Rightarrow> u64 \<Rightarrow> u64 \<Rightarrow> u64 \<Rightarrow> ('x kmstate_scheme, unit) thread" where
  "kvmmap kpgtbl va pa sz perm =
     bind (mappages kpgtbl va sz pa perm) (\<lambda>r. if r \<noteq> 0 then panic ''kvmmap'' else ret ())"

definition proc_mapstacks :: "u64 \<Rightarrow> ('x kmstate_scheme, unit) thread" where
  "proc_mapstacks kpgtbl =
     for_each [0..<NPROC] (\<lambda>i.
       bind kalloc (\<lambda>pa.
       if pa = 0 then panic ''kalloc''
       else kvmmap kpgtbl (KSTACK i) pa PGSIZE (PTE_R OR PTE_W)))"

definition kvmmake :: "u64 \<Rightarrow> u64 \<Rightarrow> ('x kmstate_scheme, u64) thread" where
  "kvmmake etext trampoline =
     bind kalloc (\<lambda>kpgtbl.
     seq (set_mem (\<lambda>m. memset m (unat kpgtbl) 0 4096)) (
     seq (kvmmap kpgtbl UART0 UART0 PGSIZE (PTE_R OR PTE_W)) (
     seq (kvmmap kpgtbl VIRTIO0 VIRTIO0 PGSIZE (PTE_R OR PTE_W)) (
     seq (kvmmap kpgtbl PLIC PLIC 0x4000000 (PTE_R OR PTE_W)) (
     seq (kvmmap kpgtbl KERNBASE KERNBASE (etext - KERNBASE) (PTE_R OR PTE_X)) (
     seq (kvmmap kpgtbl etext etext (PHYSTOP - etext) (PTE_R OR PTE_W)) (
     seq (kvmmap kpgtbl TRAMPOLINE trampoline PGSIZE (PTE_R OR PTE_X)) (
     seq (proc_mapstacks kpgtbl)
         (ret kpgtbl)))))))))"

definition kvminit :: "u64 \<Rightarrow> u64 \<Rightarrow> ('x vmstate_scheme, unit) thread" where
  "kvminit etext trampoline =
     bind (kvmmake etext trampoline) (\<lambda>p. modify (\<lambda>s. s\<lparr>kernel_pagetable := p\<rparr>))"

definition MAKE_SATP :: "u64 \<Rightarrow> u64" where
  "MAKE_SATP pagetable = push_bit 60 8 OR drop_bit 12 pagetable"

definition kvminithart :: "('x vmstate_scheme, unit) thread" where
  "kvminithart = bind cpuid (\<lambda>h.
     modify (\<lambda>s. s\<lparr>satp := (satp s)(h := MAKE_SATP (kernel_pagetable s))\<rparr>))"

subsection \<open>User address spaces\<close>

function uvmunmap_loop :: "u64 \<Rightarrow> nat \<Rightarrow> nat \<Rightarrow> bool \<Rightarrow> ('x kmstate_scheme, unit) thread" where
  "uvmunmap_loop pagetable a stop do_free =
     (if a < stop then
        bind (walk pagetable (of_nat a) False) (\<lambda>pte.
        if pte = 0 then panic ''uvmunmap: walk'' else
        bind (gets (\<lambda>s. load64 (mem s) pte)) (\<lambda>v.
        if \<not> has v PTE_V then panic ''uvmunmap: not mapped'' else
        if PTE_FLAGS v = PTE_V then panic ''uvmunmap: not a leaf'' else
        seq (whenM do_free (kfree (PTE2PA v))) (
        seq (set_mem (store64 pte 0))
            (uvmunmap_loop pagetable (a + 4096) stop do_free))))
      else ret ())"
  by auto
termination by (relation "measure (\<lambda>(pagetable, a, stop, do_free). stop - a)") auto

declare uvmunmap_loop.simps [simp del]

definition uvmunmap :: "u64 \<Rightarrow> u64 \<Rightarrow> u64 \<Rightarrow> bool \<Rightarrow> ('x kmstate_scheme, unit) thread" where
  "uvmunmap pagetable va npages do_free =
     (if va mod PGSIZE \<noteq> 0 then panic ''uvmunmap: not aligned''
      else uvmunmap_loop pagetable (unat va) (unat (va + npages * PGSIZE)) do_free)"

definition uvmcreate :: "('x kmstate_scheme, u64) thread" where
  "uvmcreate =
     bind kalloc (\<lambda>pagetable.
     if pagetable = 0 then ret 0 else
     seq (set_mem (\<lambda>m. memset m (unat pagetable) 0 4096)) (ret pagetable))"

definition uvmfirst :: "u64 \<Rightarrow> bytes \<Rightarrow> nat \<Rightarrow> ('x kmstate_scheme, unit) thread" where
  "uvmfirst pagetable src sz =
     (if sz \<ge> 4096 then panic ''uvmfirst: more than a page'' else
      bind kalloc (\<lambda>p.
      seq (set_mem (\<lambda>m. memset m (unat p) 0 4096)) (
      seq (mappages pagetable 0 PGSIZE p (PTE_W OR PTE_R OR PTE_X OR PTE_U))
          (set_mem (blit sz src 0 (unat p))))))"

definition uvmdealloc :: "u64 \<Rightarrow> u64 \<Rightarrow> u64 \<Rightarrow> ('x kmstate_scheme, u64) thread" where
  "uvmdealloc pagetable oldsz newsz =
     (if newsz \<ge> oldsz then ret oldsz else
      seq (whenM (PGROUNDUP newsz < PGROUNDUP oldsz)
            (let npages = s32 (unat ((PGROUNDUP oldsz - PGROUNDUP newsz) div PGSIZE) mod 2 ^ 32)
             in uvmunmap pagetable (PGROUNDUP newsz) (of_int npages) True))
          (ret newsz))"

function uvmalloc_loop :: "u64 \<Rightarrow> u64 \<Rightarrow> nat \<Rightarrow> u64 \<Rightarrow> u64 \<Rightarrow> ('x kmstate_scheme, u64) thread" where
  "uvmalloc_loop pagetable oldsz a newsz xperm =
     (if a < unat newsz then
        bind kalloc (\<lambda>p.
        if p = 0 then seq (uvmdealloc pagetable (of_nat a) oldsz) (ret 0) else
        seq (set_mem (\<lambda>m. memset m (unat p) 0 4096)) (
        bind (mappages pagetable (of_nat a) PGSIZE p (PTE_R OR PTE_U OR xperm)) (\<lambda>r.
        if r \<noteq> 0 then
          seq (kfree p) (
          seq (uvmdealloc pagetable (of_nat a) oldsz)
              (ret 0))
        else uvmalloc_loop pagetable oldsz (a + 4096) newsz xperm)))
      else ret newsz)"
  by auto
termination by (relation "measure (\<lambda>(pagetable, oldsz, a, newsz, xperm). unat newsz - a)") auto

declare uvmalloc_loop.simps [simp del]

definition uvmalloc :: "u64 \<Rightarrow> u64 \<Rightarrow> u64 \<Rightarrow> u64 \<Rightarrow> ('x kmstate_scheme, u64) thread" where
  "uvmalloc pagetable oldsz newsz xperm =
     (if newsz < oldsz then ret oldsz
      else uvmalloc_loop pagetable (PGROUNDUP oldsz) (unat (PGROUNDUP oldsz)) newsz xperm)"

text \<open>\<open>freewalk\<close> has the depth of recursion that is left; three levels of tables never exhaust it.\<close>

primrec freewalk :: "nat \<Rightarrow> u64 \<Rightarrow> ('x kmstate_scheme, unit) thread" where
  "freewalk 0 pagetable = spin"
| "freewalk (Suc depth) pagetable =
     seq (for_each [0..<512] (\<lambda>i.
       bind (gets (\<lambda>s. load64 (mem s) (entry pagetable (of_nat i)))) (\<lambda>pte.
       if has pte PTE_V \<and> pte AND (PTE_R OR PTE_W OR PTE_X) = 0 then
         seq (freewalk depth (PTE2PA pte))
             (set_mem (store64 (entry pagetable (of_nat i)) 0))
       else if has pte PTE_V then panic ''freewalk: leaf''
       else ret ())))
     (kfree pagetable)"

definition uvmfree :: "u64 \<Rightarrow> u64 \<Rightarrow> ('x kmstate_scheme, unit) thread" where
  "uvmfree pagetable sz =
     seq (whenM (sz > 0) (uvmunmap pagetable 0 (PGROUNDUP sz div PGSIZE) True))
         (freewalk 4 pagetable)"

function uvmcopy_loop :: "u64 \<Rightarrow> u64 \<Rightarrow> nat \<Rightarrow> u64 \<Rightarrow> ('x kmstate_scheme, int) thread" where
  "uvmcopy_loop old new i sz =
     (if i < unat sz then
        bind (walk old (of_nat i) False) (\<lambda>pte.
        if pte = 0 then panic ''uvmcopy: pte should exist'' else
        bind (gets (\<lambda>s. load64 (mem s) pte)) (\<lambda>v.
        if \<not> has v PTE_V then panic ''uvmcopy: page not present'' else
        bind kalloc (\<lambda>p.
        let err = seq (uvmunmap new 0 (of_nat i div PGSIZE) True) (ret (- 1)) in
        if p = 0 then err else
        seq (set_mem (\<lambda>m. memmove m (unat p) (unat (PTE2PA v)) 4096)) (
        bind (mappages new (of_nat i) PGSIZE p (PTE_FLAGS v)) (\<lambda>r.
        if r \<noteq> 0 then seq (kfree p) err
        else uvmcopy_loop old new (i + 4096) sz)))))
      else ret 0)"
  by auto
termination by (relation "measure (\<lambda>(old, new, i, sz). unat sz - i)") auto

declare uvmcopy_loop.simps [simp del]

definition uvmcopy :: "u64 \<Rightarrow> u64 \<Rightarrow> u64 \<Rightarrow> ('x kmstate_scheme, int) thread" where
  "uvmcopy old new sz = uvmcopy_loop old new 0 sz"

definition uvmclear :: "u64 \<Rightarrow> u64 \<Rightarrow> ('x kmstate_scheme, unit) thread" where
  "uvmclear pagetable va =
     bind (walk pagetable va False) (\<lambda>pte.
     if pte = 0 then panic ''uvmclear'' else
     set_mem (\<lambda>m. store64 pte (load64 m pte AND NOT PTE_U) m))"

subsection \<open>Copying between kernel and user memory\<close>

lemma page_offset: "unat (a - PGROUNDDOWN a) = unat a mod 4096"
proof -
  have "unat (PGROUNDDOWN a) \<le> unat a" by (simp add: unat_PGROUNDDOWN)
  then have "unat (a - PGROUNDDOWN a) = unat a - unat (PGROUNDDOWN a)"
    by (subst unat_sub) (simp_all add: word_le_nat_alt)
  then show ?thesis by (simp add: unat_PGROUNDDOWN minus_div_mult_eq_mod)
qed

text \<open>The bytes of the page of \<open>va\<close> from \<open>va\<close> on, at most \<open>len\<close>.\<close>

definition chunk :: "u64 \<Rightarrow> nat \<Rightarrow> nat" where
  "chunk va len = (let n = 4096 - unat (va - PGROUNDDOWN va) in if n > len then len else n)"

lemma chunk_pos: "0 < len \<Longrightarrow> 0 < chunk va len"
  by (simp add: chunk_def Let_def page_offset)

lemma chunk_le: "chunk va len \<le> len"
  by (simp add: chunk_def Let_def)

function copyout :: "u64 \<Rightarrow> u64 \<Rightarrow> bytes \<Rightarrow> nat \<Rightarrow> nat \<Rightarrow> ('x kmstate_scheme, int) thread" where
  "copyout pagetable dstva src soff len =
     (if 0 < len then
        let va0 = PGROUNDDOWN dstva in
        if va0 \<ge> MAXVA then ret (- 1) else
        bind (walk pagetable va0 False) (\<lambda>pte.
        bind (gets (\<lambda>s. load64 (mem s) pte)) (\<lambda>v.
        if pte = 0 \<or> \<not> has v PTE_V \<or> \<not> has v PTE_U \<or> \<not> has v PTE_W then ret (- 1) else
        let n = chunk dstva len in
        seq (set_mem (blit n src soff (unat (PTE2PA v + (dstva - va0)))))
            (copyout pagetable (va0 + PGSIZE) src (soff + n) (len - n))))
      else ret 0)"
  by auto
termination by (relation "measure (\<lambda>(pagetable, dstva, src, soff, len). len)")
    (use chunk_pos in \<open>auto simp: Let_def\<close>)

declare copyout.simps [simp del]

function copyin :: "u64 \<Rightarrow> bytes \<Rightarrow> nat \<Rightarrow> u64 \<Rightarrow> nat \<Rightarrow> ('x kmstate_scheme, int \<times> bytes) thread" where
  "copyin pagetable dst doff srcva len =
     (if 0 < len then
        let va0 = PGROUNDDOWN srcva in
        bind (walkaddr pagetable va0) (\<lambda>pa0.
        if pa0 = 0 then ret (- 1, dst) else
        let n = chunk srcva len in
        bind (gets (\<lambda>s. blit n (mem s) (unat (pa0 + (srcva - va0))) doff dst)) (\<lambda>dst.
        copyin pagetable dst (doff + n) (va0 + PGSIZE) (len - n)))
      else ret (0, dst))"
  by auto
termination by (relation "measure (\<lambda>(pagetable, dst, doff, srcva, len). len)")
    (use chunk_pos in \<open>auto simp: Let_def\<close>)

declare copyin.simps [simp del]

text \<open>The inner loop of \<^verbatim>\<open>copyinstr\<close>: whether the NUL was found, the destination, and the bytes copied.\<close>

primrec copy_chars :: "bytes \<Rightarrow> nat \<Rightarrow> bytes \<Rightarrow> nat \<Rightarrow> nat \<Rightarrow> bool \<times> bytes" where
  "copy_chars m p dst d 0 = (False, dst)"
| "copy_chars m p dst d (Suc n) =
     (if m p = 0 then (True, dst(d := 0))
      else copy_chars m (p + 1) (dst(d := m p)) (d + 1) n)"

function copyinstr :: "u64 \<Rightarrow> bytes \<Rightarrow> nat \<Rightarrow> u64 \<Rightarrow> nat \<Rightarrow> ('x kmstate_scheme, int \<times> bytes) thread" where
  "copyinstr pagetable dst doff srcva maxlen =
     (if 0 < maxlen then
        let va0 = PGROUNDDOWN srcva in
        bind (walkaddr pagetable va0) (\<lambda>pa0.
        if pa0 = 0 then ret (- 1, dst) else
        let n = chunk srcva maxlen in
        bind (gets (\<lambda>s. copy_chars (mem s) (unat (pa0 + (srcva - va0))) dst doff n)) (\<lambda>(got_null, dst).
        if got_null then ret (0, dst)
        else copyinstr pagetable dst (doff + n) (va0 + PGSIZE) (maxlen - n)))
      else ret (- 1, dst))"
  by auto
termination by (relation "measure (\<lambda>(pagetable, dst, doff, srcva, maxlen). maxlen)")
    (use chunk_pos in \<open>auto simp: Let_def\<close>)

declare copyinstr.simps [simp del]

subsection \<open>What memory management leaves alone\<close>

text \<open>Allocation and page tables change the machine, memory and the free list, nothing else.\<close>

lemma keeps_of_kstate: "keeps kstate.more m \<Longrightarrow> keeps kmstate.more m"
  unfolding keeps_def by (metis kmstate.select_convs(4) kmstate.surjective kstate.select_convs(2))

lemma keeps_kalloc [keeps_intros]:
  "keeps kmstate.more (acquire l)" "keeps kmstate.more (release l)" "keeps kmstate.more (set_mem f)"
  "keeps kmstate.more kalloc" "keeps kmstate.more (kfree pa)"
proof -
  show l: "keeps kmstate.more (acquire l)" "keeps kmstate.more (release l)" for l
    by (intro keeps_of_kstate keeps_intros)+
  show "keeps kmstate.more (set_mem f)"
    by (simp add: set_mem_def keeps_modify)
  show "keeps kmstate.more kalloc" "keeps kmstate.more (kfree pa)"
    unfolding kalloc_def kfree_def by (intro keeps_intros l keeps_modify; simp)+
qed

lemma keeps_walk [keeps_intros]: "keeps kmstate.more (walk_loop l r va alloc)" "keeps kmstate.more (walk r va alloc)"
proof -
  show loop: "keeps kmstate.more (walk_loop l r va alloc)" for l r
    by (induction l arbitrary: r) (auto simp: walk_level_def intro!: keeps_intros)
  show "keeps kmstate.more (walk r va alloc)"
    unfolding walk_def by (intro keeps_intros loop)
qed

lemma keeps_mappages [keeps_intros]: "keeps kmstate.more (mappages r va n pa perm)"
proof -
  have "keeps kmstate.more (mappages_loop r a stop pa perm)" for a stop pa
    by (induction r a stop pa perm rule: mappages_loop.induct)
      (subst mappages_loop.simps, intro keeps_intros; simp)
  then show ?thesis
    unfolding mappages_def by (intro keeps_intros)
qed

lemma keeps_uvmunmap [keeps_intros]: "keeps kmstate.more (uvmunmap r va n free)"
proof -
  have "keeps kmstate.more (uvmunmap_loop r a stop free)" for a stop
    by (induction r a stop free rule: uvmunmap_loop.induct)
      (subst uvmunmap_loop.simps, intro keeps_intros; simp)
  then show ?thesis
    unfolding uvmunmap_def by (intro keeps_intros)
qed

lemma keeps_uvmfree [keeps_intros]: "keeps kmstate.more (uvmfree r n)"
proof -
  have "keeps kmstate.more (freewalk d r)" for d r
    by (induction d arbitrary: r) (auto intro!: keeps_intros)
  then show ?thesis
    unfolding uvmfree_def by (intro keeps_intros)
qed

lemma keeps_uvmcreate [keeps_intros]: "keeps kmstate.more uvmcreate"
  unfolding uvmcreate_def by (intro keeps_intros)

lemma keeps_uvmalloc [keeps_intros]:
  "keeps kmstate.more (uvmdealloc r a b)" "keeps kmstate.more (uvmalloc r a b perm)"
proof -
  show d: "keeps kmstate.more (uvmdealloc r a b)" for r a b
    unfolding uvmdealloc_def by (intro keeps_intros)
  have "keeps kmstate.more (uvmalloc_loop r old a b perm)" for old a
    by (induction r old a b perm rule: uvmalloc_loop.induct)
      (subst uvmalloc_loop.simps, intro keeps_intros d; simp)
  then show "keeps kmstate.more (uvmalloc r a b perm)"
    unfolding uvmalloc_def by (intro keeps_intros)
qed

lemma keeps_uvmcopy [keeps_intros]: "keeps kmstate.more (uvmcopy old new n)"
proof -
  have "keeps kmstate.more (uvmcopy_loop old new i n)" for i
    by (induction old new i n rule: uvmcopy_loop.induct)
      (subst uvmcopy_loop.simps, intro keeps_intros; blast)
  then show ?thesis
    by (simp add: uvmcopy_def)
qed

lemma keeps_copyout [keeps_intros]: "keeps kmstate.more (copyout r va src soff len)"
  by (induction r va src soff len rule: copyout.induct) (subst copyout.simps, intro keeps_intros; simp)

lemma keeps_copyin [keeps_intros]: "keeps kmstate.more (walkaddr r va)" "keeps kmstate.more (copyin r dst doff va len)"
proof -
  show w: "keeps kmstate.more (walkaddr r va)" for r va
    unfolding walkaddr_def by (intro keeps_intros)
  show "keeps kmstate.more (copyin r dst doff va len)"
    by (induction r dst doff va len rule: copyin.induct) (subst copyin.simps, intro keeps_intros w; simp)
qed

end
