(* ===== verification/Vm_Tree.thy ===== *)
theory Vm_Tree
  imports Vm
begin

unbundle bit_operations_syntax

text \<open>
  The page table as a map. \<open>node m r p\<close> is the table page that the index path \<open>p\<close> leads to from the
  root \<open>r\<close>, \<open>pt_lookup m r va\<close> the entry of a virtual address, 0 where there is no table. A table is
  well formed when its pages are proper, pairwise different pages. \<^verbatim>\<open>walk\<close> finds, and if asked to creates,
  the place of an entry without changing the map.
\<close>

subsection \<open>Entries and paths\<close>

definition ent :: "u64 \<Rightarrow> nat \<Rightarrow> u64" where
  "ent a i = entry a (of_nat i)"

definition ix :: "nat \<Rightarrow> u64 \<Rightarrow> nat" where
  "ix l va = unat (PX l va)"

fun node :: "bytes \<Rightarrow> u64 \<Rightarrow> nat list \<Rightarrow> u64 option" where
  "node m r [] = Some r"
| "node m r (i # p) = (let v = load64 m (ent r i) in if has v PTE_V then node m (PTE2PA v) p else None)"

definition is_path :: "nat list \<Rightarrow> bool" where
  "is_path p = (length p \<le> 2 \<and> (\<forall>i \<in> set p. i < 512))"

definition tbl :: "bytes \<Rightarrow> u64 \<Rightarrow> nat list \<Rightarrow> u64 \<Rightarrow> bool" where
  "tbl m r p a = (is_path p \<and> node m r p = Some a)"

definition wf_pt :: "u64 \<Rightarrow> bytes \<Rightarrow> u64 \<Rightarrow> bool" where
  "wf_pt e m r = ((\<forall>p a. tbl m r p a \<longrightarrow> page_ok e a) \<and> (\<forall>p q a. tbl m r p a \<and> tbl m r q a \<longrightarrow> p = q))"

definition pt_lookup :: "bytes \<Rightarrow> u64 \<Rightarrow> u64 \<Rightarrow> u64" where
  "pt_lookup m r va = (case node m r [ix 2 va, ix 1 va] of None \<Rightarrow> 0 | Some a \<Rightarrow> load64 m (ent a (ix 0 va)))"

definition tables :: "bytes \<Rightarrow> u64 \<Rightarrow> u64 set" where
  "tables m r = {a. \<exists>p. tbl m r p a}"

lemma ix_less [simp]: "ix l va < 512"
  using PX_less [of l va] by (simp add: ix_def word_less_nat_alt)

lemma entry_PX: "entry a (PX l va) = ent a (ix l va)"
  by (simp add: ent_def ix_def)

lemma has_0 [simp]: "\<not> has 0 f"
  by (simp add: has_def)

lemma or_V: "(v OR PTE_V) AND PTE_V = PTE_V" for v :: u64
  by (rule bit_word_eqI) (auto simp: bit_simps)

lemma has_V [simp]: "has (v OR PTE_V) PTE_V"
  by (simp add: has_def or_V)

lemma unat_ent: "page_ok e a \<Longrightarrow> i < 512 \<Longrightarrow> unat (ent a i) = unat a + 8 * i"
proof -
  assume "page_ok e a" "i < 512"
  then have "unat a < 0x88000000" by (simp add: page_ok_def word_less_nat_alt)
  moreover have "unat (8 * of_nat i :: u64) = 8 * i"
    using \<open>i < 512\<close> by (simp add: unat_word_ariths unat_of_nat)
  ultimately show ?thesis
    using \<open>i < 512\<close> by (simp add: ent_def entry_def unat_word_ariths)
qed

lemma ent_apart:
  assumes "page_ok e a" "page_ok e b" "i < 512" "j < 512" "a \<noteq> b \<or> i \<noteq> j"
  shows "unat (ent a i) + 8 \<le> unat (ent b j) \<or> unat (ent b j) + 8 \<le> unat (ent a i)"
  using pages_apart [OF assms(1,2)] assms by (cases "a = b") (auto simp: unat_ent)

lemma ent_nonzero: "page_ok e a \<Longrightarrow> 0 < e \<Longrightarrow> i < 512 \<Longrightarrow> ent a i \<noteq> 0"
  using unat_ent [of e a i] by (auto simp: page_ok_def word_less_nat_alt word_le_nat_alt)

lemma load_store_ent:
  assumes "page_ok e a" "page_ok e b" "i < 512" "j < 512"
  shows "load64 (store64 (ent b j) v m) (ent a i) = (if a = b \<and> i = j then v else load64 m (ent a i))"
  using ent_apart [OF assms] by (auto simp: load64_store64_other)

lemma load_fill_ent:
  assumes "page_ok e a" "page_ok e b" "i < 512"
  shows "load64 (fill 4096 0 (unat b) m) (ent a i) = (if a = b then 0 else load64 m (ent a i))"
    and "a \<noteq> b \<Longrightarrow> load64 (fill 4096 c (unat b) m) (ent a i) = load64 m (ent a i)"
  using pages_apart [OF assms(1,2)] assms
  by (auto simp: load64_def unat_ent rd_fill_0 rd_fill_other)

lemma node_append: "node m r (p @ [i]) = (case node m r p of None \<Rightarrow> None | Some a \<Rightarrow>
    let v = load64 m (ent a i) in if has v PTE_V then Some (PTE2PA v) else None)"
  by (induction p arbitrary: r) (auto simp: Let_def)

declare node.simps(2) [simp del]

lemma is_path_append: "is_path (p @ [i]) \<Longrightarrow> is_path p \<and> i < 512 \<and> length p \<le> 1"
  by (auto simp: is_path_def)

lemma wf_ptD:
  "wf_pt e m r \<Longrightarrow> tbl m r p a \<Longrightarrow> page_ok e a"
  "wf_pt e m r \<Longrightarrow> tbl m r p a \<Longrightarrow> tbl m r q a \<Longrightarrow> p = q"
  unfolding wf_pt_def by blast+

lemma wf_pt_tables: "wf_pt e m r \<Longrightarrow> a \<in> tables m r \<Longrightarrow> page_ok e a"
  by (auto simp: tables_def dest: wf_ptD(1))

lemma node_cong:
  assumes "\<And>a i. a \<in> tables m r \<Longrightarrow> i < 512 \<Longrightarrow> load64 m' (ent a i) = load64 m (ent a i)" "is_path p"
  shows "node m' r p = node m r p"
  using assms(2)
proof (induction p rule: rev_induct)
  case (snoc i p)
  then have p: "is_path p" "i < 512" by (auto dest: is_path_append)
  then have "load64 m' (ent a i) = load64 m (ent a i)" if "node m r p = Some a" for a
    using that by (intro assms(1)) (auto simp: tables_def tbl_def)
  then show ?case
    using snoc.IH [OF p(1)] by (auto simp: node_append split: option.splits)
qed simp

lemma tables_cong:
  assumes "\<forall>a \<in> tables m r. \<forall>i < 512. load64 m' (ent a i) = load64 m (ent a i)"
  shows "tbl m' r p a \<longleftrightarrow> tbl m r p a" "pt_lookup m' r va = pt_lookup m r va" "tables m' r = tables m r"
    "wf_pt e m' r = wf_pt e m r"
proof -
  show tbl: "tbl m' r p a \<longleftrightarrow> tbl m r p a" for p a
    using node_cong [of m r m' p] assms by (auto simp: tbl_def)
  show "tables m' r = tables m r" "wf_pt e m' r = wf_pt e m r"
    by (simp_all add: tables_def wf_pt_def tbl)
  have "is_path [ix 2 va, ix 1 va]" by (simp add: is_path_def)
  moreover from this have "node m' r [ix 2 va, ix 1 va] = node m r [ix 2 va, ix 1 va]"
    by (rule node_cong [rotated]) (use assms in blast)
  ultimately show "pt_lookup m' r va = pt_lookup m r va"
    using assms unfolding pt_lookup_def tables_def tbl_def by (auto split: option.split)
qed

subsection \<open>Changing one entry\<close>

text \<open>A store to an entry of the last level leaves the tables alone and changes one entry of the map.\<close>

lemma leaf_store:
  fixes v :: u64
  assumes wf: "wf_pt e m r" and b: "node m r [i, j] = Some b" and ij: "i < 512" "j < 512" "k < 512"
  defines "m' \<equiv> store64 (ent b k) v m"
  shows "tbl m' r p a \<longleftrightarrow> tbl m r p a"
    and "pt_lookup m' r va = (if ix 2 va = i \<and> ix 1 va = j \<and> ix 0 va = k then v else pt_lookup m r va)"
    and "tables m' r = tables m r" "wf_pt e m' r"
proof -
  have tb: "tbl m r [i, j] b" using b ij by (simp add: tbl_def is_path_def)
  have ld: "load64 m' (ent a n) = (if a = b \<and> n = k then v else load64 m (ent a n))" if "tbl m r p a" "n < 512" for p a n
    unfolding m'_def using that ij wf_ptD(1) [OF wf tb] wf_ptD(1) [OF wf that(1)] by (intro load_store_ent)
  have nodes: "node m' r p = node m r p" if "is_path p" for p
    using that
  proof (induction p rule: rev_induct)
    case (snoc n p)
    then have p: "is_path p" "n < 512" "length p \<le> 1" by (auto dest: is_path_append)
    have "load64 m' (ent a n) = load64 m (ent a n)" if "node m r p = Some a" for a
    proof -
      have "a \<noteq> b" using wf_ptD(2) [OF wf _ tb, of p] that p by (auto simp: tbl_def)
      then show ?thesis using ld [of p a n] that p by (simp add: tbl_def)
    qed
    then show ?case
      using snoc.IH [OF p(1)] by (auto simp: node_append split: option.splits)
  qed simp
  then show tbl: "tbl m' r p a \<longleftrightarrow> tbl m r p a" for p a
    by (auto simp: tbl_def)
  show "tables m' r = tables m r" "wf_pt e m' r"
    using wf by (simp_all add: tables_def wf_pt_def tbl)
  have pth: "is_path [ix 2 va, ix 1 va]" by (simp add: is_path_def)
  have "a = b \<longleftrightarrow> ix 2 va = i \<and> ix 1 va = j" if "node m r [ix 2 va, ix 1 va] = Some a" for a
    using wf_ptD(2) [OF wf _ tb, of "[ix 2 va, ix 1 va]"] that pth b by (auto simp: tbl_def)
  then show "pt_lookup m' r va = (if ix 2 va = i \<and> ix 1 va = j \<and> ix 0 va = k then v else pt_lookup m r va)"
    using nodes [OF pth] ld [of "[ix 2 va, ix 1 va]" _ "ix 0 va"] pth b
    unfolding pt_lookup_def by (auto simp: tbl_def split: option.split)
qed

text \<open>Linking a new zeroed table page below a node adds that page and leaves the map as it is.\<close>

lemma link_table:
  assumes wf: "wf_pt e m r" and b: "tbl m r q b" and q: "length q \<le> 1" "k < 512"
    and empty: "\<not> has (load64 m (ent b k)) PTE_V"
    and p: "page_ok e p" "p \<notin> tables m r"
    and zero: "\<forall>i < 512. load64 m (ent p i) = 0"
  defines "m' \<equiv> store64 (ent b k) (PA2PTE p OR PTE_V) m"
  shows "wf_pt e m' r" "tables m' r = insert p (tables m r)" "pt_lookup m' r va = pt_lookup m r va"
    "node m' r (q @ [k]) = Some p"
proof -
  have vp: "has (PA2PTE p OR PTE_V) PTE_V" "PTE2PA (PA2PTE p OR PTE_V) = p"
    using p(1) by (simp_all add: PTE2PA_PA2PTE page_ok_def)
  have ld: "load64 m' (ent a n) = (if a = b \<and> n = k then PA2PTE p OR PTE_V else load64 m (ent a n))"
    if "page_ok e a" "n < 512" for a n
    unfolding m'_def using that q(2) wf_ptD(1) [OF wf b] by (intro load_store_ent)
  have pb: "p \<noteq> b" using p(2) b by (auto simp: tables_def)
  have nodes: "node m' r t = (if t = q @ [k] then Some p else node m r t)" if "is_path t" for t
    using that
  proof (induction t rule: rev_induct)
    case Nil
    then show ?case by simp
  next
    case (snoc n t)
    then have t: "is_path t" "n < 512" "length t \<le> 1" by (auto dest: is_path_append)
    show ?case
    proof (cases "t = q @ [k]")
      case True
      then have "node m r t = None"
        using b empty by (simp add: node_append tbl_def)
      then have "node m r (t @ [n]) = None"
        by (simp only: node_append option.case)
      moreover have "node m' r t = Some p" "load64 m' (ent p n) = 0"
        using snoc.IH [OF t(1)] True ld [OF p(1) t(2)] zero t(2) pb by simp_all
      then have "node m' r (t @ [n]) = None"
        by (simp only: node_append option.case Let_def has_0 if_False)
      ultimately show ?thesis using True by simp
    next
      case False
      then have same: "node m' r t = node m r t" using snoc.IH [OF t(1)] by simp
      show ?thesis
      proof (cases "node m r t")
        case None
        then show ?thesis
          using same b by (auto simp: node_append tbl_def)
      next
        case (Some a)
        then have ta: "tbl m r t a" using t by (simp add: tbl_def)
        have "t = q" if "a = b"
          using wf_ptD(2) [OF wf ta] b that by blast
        moreover have "a = b" if "t = q"
          using ta b that by (simp add: tbl_def)
        ultimately show ?thesis
          using same Some ld [OF wf_ptD(1) [OF wf ta] t(2)] vp b by (auto simp: node_append)
      qed
    qed
  qed
  have qk: "is_path (q @ [k])" using b q by (auto simp: tbl_def is_path_def)
  show "node m' r (q @ [k]) = Some p" using nodes [OF qk] by simp
  have old: "node m r (q @ [k]) = None" using b empty by (simp add: node_append tbl_def)
  have tbl': "tbl m' r t a \<longleftrightarrow> tbl m r t a \<or> t = q @ [k] \<and> a = p" for t a
    using nodes [of t] qk old by (auto simp: tbl_def)
  show "tables m' r = insert p (tables m r)"
    by (auto simp: tables_def tbl')
  show "wf_pt e m' r"
    using wf p unfolding wf_pt_def tbl' tables_def mem_Collect_eq by blast
  have pth: "is_path [ix 2 va, ix 1 va]" by (simp add: is_path_def)
  show "pt_lookup m' r va = pt_lookup m r va"
  proof (cases "[ix 2 va, ix 1 va] = q @ [k]")
    case True
    then have "node m' r [ix 2 va, ix 1 va] = Some p" "node m r [ix 2 va, ix 1 va] = None"
      using nodes [OF pth] old by (simp_all only: simp_thms if_True)
    then show ?thesis
      using ld [OF p(1), of "ix 0 va"] zero pb by (simp add: pt_lookup_def)
  next
    case False
    have "load64 m' (ent a (ix 0 va)) = load64 m (ent a (ix 0 va))" if "node m r [ix 2 va, ix 1 va] = Some a" for a
    proof -
      have ta: "tbl m r [ix 2 va, ix 1 va] a" using that pth by (simp add: tbl_def)
      have "a \<noteq> b"
      proof
        assume "a = b"
        then have "[ix 2 va, ix 1 va] = q" using wf_ptD(2) [OF wf ta] b by blast
        then show False using q(1) by auto
      qed
      then show ?thesis using ld [OF wf_ptD(1) [OF wf ta], of "ix 0 va"] by simp
    qed
    then show ?thesis using nodes [OF pth] False by (auto simp: pt_lookup_def split: option.split)
  qed
qed

subsection \<open>Walking\<close>

text \<open>
  \<open>vm_ok e r S s\<close>: the table at \<open>r\<close> is well formed, \<open>S\<close> are the free pages, and no table page is free.
  \<open>vm_step\<close> relates two such states between which pages only moved from the free list into the table
  and no byte outside these pages changed.
\<close>

definition span :: "u64 set \<Rightarrow> nat set" where
  "span A = {i. \<exists>p \<in> A. unat p \<le> i \<and> i < unat p + 4096}"

definition vm_ok :: "u64 \<Rightarrow> u64 \<Rightarrow> u64 set \<Rightarrow> 'x kmstate_scheme \<Rightarrow> bool" where
  "vm_ok e r S s = (pages_free e S s \<and> wf_pt e (mem s) r \<and> S \<inter> tables (mem s) r = {})"

definition vm_step :: "u64 \<Rightarrow> u64 \<Rightarrow> u64 set \<Rightarrow> 'x kmstate_scheme \<Rightarrow> u64 set \<Rightarrow> 'x kmstate_scheme \<Rightarrow> bool" where
  "vm_step e r S s S' t = (vm_ok e r S' t \<and> S' \<subseteq> S \<and>
     S' \<union> tables (mem t) r = S \<union> tables (mem s) r \<and>
     (\<forall>i. i \<notin> span (S \<union> tables (mem s) r) \<longrightarrow> mem t i = mem s i) \<and>
     settle (mach t) = settle (mach s) \<and>
     t = s\<lparr>mach := mach t, mem := mem t, freelist := freelist t\<rparr>)"

lemma vm_step_refl: "vm_ok e r S s \<Longrightarrow> vm_step e r S s S s"
  by (simp add: vm_step_def)

lemma vm_step_trans:
  assumes "vm_step e r S s S' t" "vm_step e r S' t S'' u"
  shows "vm_step e r S s S'' u"
proof -
  have "u = s\<lparr>mach := mach u, mem := mem u, freelist := freelist u\<rparr>"
  proof -
    have t: "t = s\<lparr>mach := mach t, mem := mem t, freelist := freelist t\<rparr>"
      and u: "u = t\<lparr>mach := mach u, mem := mem u, freelist := freelist u\<rparr>"
      using assms by (auto simp: vm_step_def)
    show ?thesis by (subst u, subst t) simp
  qed
  then show ?thesis
    using assms unfolding vm_step_def by auto
qed

lemma tables_page: "vm_ok e r S s \<Longrightarrow> a \<in> tables (mem s) r \<Longrightarrow> page_ok e a"
  by (auto simp: vm_ok_def dest: wf_pt_tables)

lemma pages_free_page: "pages_free e S s \<Longrightarrow> p \<in> S \<Longrightarrow> page_ok e p"
  using page_pool.ready_items by auto

text \<open>Memory changes outside the table and the free pages keep everything.\<close>

lemma pages_free_cong:
  assumes "pages_free e S s" "\<And>i. i \<in> span S \<Longrightarrow> m i = mem s i"
  shows "pages_free e S (s\<lparr>mem := m\<rparr>)"
proof -
  obtain ps where ps: "free_list ps s" "set ps = S" "kend s = e" "kmem_ready s"
    using assms(1) by (auto simp: pages_free_def)
  have "chain ps m (freelist s)"
    by (rule chain_cong [where m = "mem s"]) (use ps assms(2) [symmetric] in \<open>fastforce simp: free_list_def span_def\<close>)+
  then show ?thesis
    using ps by (auto simp: pages_free_def free_list_def kmem_ready_def)
qed

lemma load_outside:
  assumes "page_ok e a" "k < 512" "\<And>i. unat a \<le> i \<Longrightarrow> i < unat a + 4096 \<Longrightarrow> m' i = m i"
  shows "load64 m' (ent a k) = load64 m (ent a k)"
  by (rule load64_cong) (use assms in \<open>simp add: unat_ent\<close>)

lemma span_page: "page_ok e a \<Longrightarrow> \<forall>p \<in> A. page_ok e p \<Longrightarrow> a \<notin> A \<Longrightarrow> unat a \<le> i \<Longrightarrow> i < unat a + 4096 \<Longrightarrow> i \<notin> span A"
  unfolding span_def using pages_apart [of e a] by fastforce

lemma walk_level_found:
  assumes "tbl (mem s) r q a" "node (mem s) r (q @ [ix l va]) = Some p"
  shows "walk_level l a va alloc s = Done (Some p) s"
  using assms by (auto simp: walk_level_def Let_def exec_simps entry_PX tbl_def node_append split: if_splits)

lemma walk_level_missing:
  assumes "tbl (mem s) r q a" "node (mem s) r (q @ [ix l va]) = None"
  shows "\<not> has (load64 (mem s) (ent a (ix l va))) PTE_V" "walk_level l a va False s = Done None s"
  using assms by (auto simp: walk_level_def Let_def exec_simps entry_PX tbl_def node_append split: if_splits)

lemma kalloc_vm:
  assumes "vm_ok e r S s"
  shows "(S = {} \<and> kalloc s = Done 0 (s\<lparr>mach := settle (mach s)\<rparr>) \<and> vm_step e r S s S (s\<lparr>mach := settle (mach s)\<rparr>)) \<or>
    (\<exists>p t. p \<in> S \<and> p \<noteq> 0 \<and> kalloc s = Done p t \<and> pages_free e (S - {p}) t \<and> mem t = fill 4096 5 (unat p) (mem s) \<and>
       settle (mach t) = settle (mach s) \<and> t = s\<lparr>mach := mach t, mem := mem t, freelist := freelist t\<rparr>)"
proof -
  have ready: "pages_free e S s" "kmem_ready s" using assms by (auto simp: vm_ok_def pages_free_def)
  obtain ps where ps: "free_list ps s" "set ps = S" "kend s = e"
    using ready by (auto simp: pages_free_def)
  show ?thesis
  proof (cases ps)
    case Nil
    then have "kalloc s = Done 0 (s\<lparr>mach := settle (mach s)\<rparr>)"
      using ready(2) ps(1) by (simp add: kalloc_exec free_list_Nil)
    moreover have "vm_ok e r S (s\<lparr>mach := settle (mach s)\<rparr>)"
      using assms by (auto simp: vm_ok_def pages_free_def free_list_def)
    ultimately show ?thesis
      using ps(2) Nil by (simp add: vm_step_def settle_settle)
  next
    case (Cons p qs)
    note p = free_list_Cons [OF ps(1) [unfolded Cons]]
    let ?t = "s\<lparr>mach := settle (mach s), freelist := load64 (mem s) (freelist s),
      mem := fill 4096 5 (unat (freelist s)) (mem s)\<rparr>"
    have "kalloc s = Done p ?t" using ready(2) p by (simp add: kalloc_exec)
    moreover have "pages_free e (S - {p}) ?t"
      unfolding pages_free_def
      using free_list_kalloc [OF ps(1) [unfolded Cons]] ps p ready(2) Cons by auto
    moreover have "p \<in> S" using ps(2) Cons by auto
    ultimately show ?thesis
      using p by (intro disjI2 exI [of _ p] exI [of _ ?t]) (simp add: settle_settle)
  qed
qed

lemma walk_level_alloc:
  assumes ok: "vm_ok e r S s" and a: "tbl (mem s) r q a" "length q \<le> 1"
  shows "(S = {} \<and> (\<exists>t. walk_level l a va True s = Done None t \<and> vm_step e r S s S t \<and> mem t = mem s)) \<or>
    (\<exists>p t S'. walk_level l a va True s = Done (Some p) t \<and> vm_step e r S s S' t \<and>
      tbl (mem t) r (q @ [ix l va]) p \<and> (\<forall>va'. pt_lookup (mem t) r va' = pt_lookup (mem s) r va'))"
proof (cases "node (mem s) r (q @ [ix l va])")
  case (Some p)
  moreover have "is_path (q @ [ix l va])" using a by (auto simp: tbl_def is_path_def)
  ultimately show ?thesis
    using walk_level_found [OF a(1) Some] vm_step_refl [OF ok]
    by (intro disjI2 exI [of _ p] exI [of _ s] exI [of _ S]) (simp add: tbl_def)
next
  case None
  note missing = walk_level_missing(1) [OF a(1) None]
  have wf: "wf_pt e (mem s) r" and fr: "pages_free e S s" and dis: "S \<inter> tables (mem s) r = {}"
    using ok by (auto simp: vm_ok_def)
  from kalloc_vm [OF ok] show ?thesis
  proof (elim disjE exE conjE)
    assume "S = {}" "kalloc s = Done 0 (s\<lparr>mach := settle (mach s)\<rparr>)" "vm_step e r S s S (s\<lparr>mach := settle (mach s)\<rparr>)"
    then show ?thesis
      using missing by (intro disjI1) (simp add: walk_level_def entry_PX Let_def exec_simps)
  next
    fix p t
    assume p: "p \<in> S" "p \<noteq> 0" and k: "kalloc s = Done p t" and t: "pages_free e (S - {p}) t"
      "mem t = fill 4096 5 (unat p) (mem s)" "settle (mach t) = settle (mach s)"
      "t = s\<lparr>mach := mach t, mem := mem t, freelist := freelist t\<rparr>"
    have pp: "page_ok e p" and pt: "p \<notin> tables (mem s) r"
      using pages_free_page [OF fr p(1)] p(1) dis by auto
    let ?m0 = "fill 4096 0 (unat p) (mem t)"
    let ?m1 = "store64 (ent a (ix l va)) (PA2PTE p OR PTE_V) ?m0"
    let ?u = "t\<lparr>mem := ?m1\<rparr>"
    have run: "walk_level l a va True s = Done (Some p) ?u"
      using missing p k by (simp add: walk_level_def entry_PX Let_def exec_simps memset_fill)
    have ta: "a \<in> tables (mem s) r" using a by (auto simp: tables_def)
    have same: "\<forall>b \<in> tables (mem s) r. \<forall>i < 512. load64 ?m0 (ent b i) = load64 (mem s) (ent b i)"
    proof (intro ballI allI impI)
      fix b i assume b: "b \<in> tables (mem s) r" "i < (512 :: nat)"
      have "b \<noteq> p" "page_ok e b" using b pt tables_page [OF ok] by auto
      then show "load64 ?m0 (ent b i) = load64 (mem s) (ent b i)"
        using load_fill_ent [OF _ pp b(2)] by (simp add: t(2))
    qed
    note cong = tables_cong [OF same]
    have pre: "wf_pt e ?m0 r" "tbl ?m0 r q a" "\<not> has (load64 ?m0 (ent a (ix l va))) PTE_V" "p \<notin> tables ?m0 r"
      "\<forall>i < 512. load64 ?m0 (ent p i) = 0"
      using wf a(1) missing pt ta same load_fill_ent(1) [OF pp pp] by (simp_all add: cong)
    note link = link_table [OF pre(1,2) a(2) ix_less pre(3) pp pre(4,5)]
    have out: "?m1 i = mem s i" if "i \<notin> span (insert p (tables (mem s) r))" for i
    proof -
      have "\<not> (unat p \<le> i \<and> i < unat p + 4096)" "\<not> (unat a \<le> i \<and> i < unat a + 4096)"
        using that ta by (auto simp: span_def)
      moreover have "ix l va \<le> 511" using ix_less [of l va] by linarith
      ultimately show ?thesis
        using unat_ent [OF tables_page [OF ok ta] ix_less, of l va] by (auto simp: store64_def wr_def fill_def t(2) ix_def [symmetric])
    qed
    have "pages_free e (S - {p}) ?u"
    proof (rule pages_free_cong [OF t(1)])
      fix i assume "i \<in> span (S - {p})"
      then obtain f where f: "f \<in> S - {p}" "unat f \<le> i" "i < unat f + 4096" by (auto simp: span_def)
      have "i \<notin> span (insert p (tables (mem s) r))"
        by (rule span_page [of e f]) (use f pp dis tables_page [OF ok] pages_free_page [OF fr] in auto)
      from out [OF this] show "?m1 i = mem t i"
        using span_page [of e f "{p}" i] f pp pages_free_page [OF fr] by (auto simp: t(2) fill_def span_def)
    qed
    moreover have tabs: "tables ?m1 r = insert p (tables (mem s) r)"
      using link(2) cong(3) by simp
    ultimately have "vm_ok e r (S - {p}) ?u"
      using link(1) dis by (auto simp: vm_ok_def)
    moreover have "span (insert p (tables (mem s) r)) \<subseteq> span (S \<union> tables (mem s) r)"
      using p by (auto simp: span_def)
    then have "\<forall>i. i \<notin> span (S \<union> tables (mem s) r) \<longrightarrow> ?m1 i = mem s i"
      using out by blast
    moreover have "?u = s\<lparr>mach := mach t, mem := ?m1, freelist := freelist t\<rparr>"
      using arg_cong [OF t(4), of "\<lambda>x. x\<lparr>mem := ?m1\<rparr>"] by simp
    moreover have "S - {p} \<union> insert p (tables (mem s) r) = S \<union> tables (mem s) r"
      using p by auto
    ultimately have "vm_step e r S s (S - {p}) ?u"
      using tabs t(3) by (simp add: vm_step_def)
    moreover have "tbl ?m1 r (q @ [ix l va]) p"
      using a link(4) by (auto simp: tbl_def is_path_def)
    moreover have "\<forall>va'. pt_lookup ?m1 r va' = pt_lookup (mem s) r va'"
      using link(3) cong(2) by simp
    ultimately show ?thesis
      using run by (intro disjI2 exI [of _ p] exI [of _ ?u] exI [of _ "S - {p}"]) simp
  qed
qed

lemma walk_alloc:
  assumes ok: "vm_ok e r S s" and va: "va < MAXVA"
  shows "(\<exists>t. walk r va True s = Done 0 t \<and> vm_step e r S s {} t \<and>
      (\<forall>va'. pt_lookup (mem t) r va' = pt_lookup (mem s) r va')) \<or>
    (\<exists>b t S'. walk r va True s = Done (ent b (ix 0 va)) t \<and> ent b (ix 0 va) \<noteq> 0 \<and> vm_step e r S s S' t \<and>
      tbl (mem t) r [ix 2 va, ix 1 va] b \<and> (\<forall>va'. pt_lookup (mem t) r va' = pt_lookup (mem s) r va'))"
proof -
  have two: "(2 :: nat) = Suc (Suc 0)" by simp
  have root: "tbl (mem s) r [] r" by (simp add: tbl_def is_path_def)
  have le0: "length ([] :: nat list) \<le> 1" and le1: "length ([] @ [ix (Suc (Suc 0)) va]) \<le> 1" by simp_all
  have e0: "0 < e" using ok by (auto simp: vm_ok_def pages_free_def kmem_ready_def)
  have run: "walk r va True s = walk_loop (Suc (Suc 0)) r va True s"
    using va by (simp only: walk_def two not_le if_False simp_thms) (simp add: not_le [symmetric])
  from walk_level_alloc [OF ok root le0, of "Suc (Suc 0)" va] show ?thesis
  proof (elim disjE exE conjE)
    fix t assume "S = {}" "walk_level (Suc (Suc 0)) r va True s = Done None t" "vm_step e r S s S t" "mem t = mem s"
    then show ?thesis using run by (auto simp: bind_Done ret_def)
  next
    fix p t S' assume l2: "walk_level (Suc (Suc 0)) r va True s = Done (Some p) t" "vm_step e r S s S' t"
      "tbl (mem t) r ([] @ [ix (Suc (Suc 0)) va]) p" "\<forall>va'. pt_lookup (mem t) r va' = pt_lookup (mem s) r va'"
    have ok': "vm_ok e r S' t" using l2(2) by (simp add: vm_step_def)
    from walk_level_alloc [OF ok' l2(3) le1, of "Suc 0" va] show ?thesis
    proof (elim disjE exE conjE)
      fix u assume "S' = {}" "walk_level (Suc 0) p va True t = Done None u" "vm_step e r S' t S' u" "mem u = mem t"
      then show ?thesis
        using run l2 vm_step_trans [OF l2(2)] by (auto simp: bind_Done ret_def)
    next
      fix b u S'' assume l1: "walk_level (Suc 0) p va True t = Done (Some b) u" "vm_step e r S' t S'' u"
        "tbl (mem u) r (([] @ [ix (Suc (Suc 0)) va]) @ [ix (Suc 0) va]) b"
        "\<forall>va'. pt_lookup (mem u) r va' = pt_lookup (mem t) r va'"
      have "page_ok e b"
        using l1(2,3) by (auto simp: vm_step_def vm_ok_def dest: wf_ptD(1))
      then have "ent b (ix 0 va) \<noteq> 0" using ent_nonzero e0 by simp
      moreover have "walk r va True s = Done (ent b (ix 0 va)) u"
        using run l2(1) l1(1) by (simp add: bind_Done ret_def entry_PX)
      moreover have "tbl (mem u) r [ix 2 va, ix 1 va] b"
        using l1(3) by (simp add: two)
      moreover have "\<forall>va'. pt_lookup (mem u) r va' = pt_lookup (mem s) r va'"
        using l1(4) l2(4) by simp
      ultimately show ?thesis
        using vm_step_trans [OF l2(2) l1(2)] by blast
    qed
  qed
qed

lemma walk_find:
  assumes "va < MAXVA"
  shows "walk r va False s = Done (case node (mem s) r [ix 2 va, ix 1 va] of None \<Rightarrow> 0 | Some b \<Rightarrow> ent b (ix 0 va)) s"
proof -
  have two: "(2 :: nat) = Suc (Suc 0)" by simp
  have "walk r va False s = walk_loop (Suc (Suc 0)) r va False s"
    using assms by (simp only: walk_def two not_le if_False simp_thms) (simp add: not_le [symmetric])
  then show ?thesis
    by (simp add: walk_level_def entry_PX Let_def exec_simps node.simps(2) two split: option.split if_split)
qed

subsection \<open>Page numbers\<close>

definition vpn :: "u64 \<Rightarrow> nat" where
  "vpn va = unat va div 4096"

lemma ix_vpn: "ix l va = vpn va div 512 ^ l mod 512"
proof -
  have m: "(0x1FF :: u64) = mask 9" by (simp add: mask_eq_exp_minus_1)
  have "ix l va = unat (take_bit 9 (drop_bit (12 + 9 * l) va))"
    unfolding ix_def PX_def PXSHIFT_def m by (simp add: take_bit_eq_mask)
  also have "\<dots> = unat va div 2 ^ (12 + 9 * l) mod 512"
    by (simp only: unsigned_take_bit_eq unat_drop_bit_eq) (simp add: take_bit_eq_mod drop_bit_eq_div)
  also have "\<dots> = vpn va div 512 ^ l mod 512"
    by (simp add: vpn_def power_add power_mult div_mult2_eq)
  finally show ?thesis .
qed

lemma vpn_less: "va < MAXVA \<Longrightarrow> vpn va < 2 ^ 26"
  by (simp add: vpn_def word_less_nat_alt less_mult_imp_div_less)

lemma same_vpn:
  assumes "va < MAXVA" "va' < MAXVA"
  shows "ix 2 va = ix 2 va' \<and> ix 1 va = ix 1 va' \<and> ix 0 va = ix 0 va' \<longleftrightarrow> vpn va = vpn va'"
proof -
  have split: "n = (n div 262144 mod 512) * 262144 + (n div 512 mod 512) * 512 + n mod 512" if "n < 2 ^ 26" for n :: nat
  proof -
    have "n div 262144 mod 512 = n div 512 div 512"
      using that by (simp add: div_mult2_eq [symmetric] less_mult_imp_div_less)
    then show ?thesis
      using div_mult_mod_eq [of "n div 512" 512] div_mult_mod_eq [of n 512] by linarith
  qed
  have "ix 2 v = vpn v div 262144 mod 512" "ix 1 v = vpn v div 512 mod 512" "ix 0 v = vpn v mod 512" for v
    by (simp_all add: ix_vpn)
  then show ?thesis
    using split [OF vpn_less [OF assms(1)]] split [OF vpn_less [OF assms(2)]] by metis
qed

subsection \<open>Storing an entry\<close>

lemma store_leaf_step:
  assumes step: "vm_step e r S s S' t" and b: "tbl (mem t) r [ix 2 va, ix 1 va] b" and va: "va < MAXVA"
  shows "vm_step e r S s S' (t\<lparr>mem := store64 (ent b (ix 0 va)) v (mem t)\<rparr>)"
    and "va' < MAXVA \<Longrightarrow> pt_lookup (store64 (ent b (ix 0 va)) v (mem t)) r va' =
      (if vpn va' = vpn va then v else pt_lookup (mem t) r va')"
    and "load64 (mem t) (ent b (ix 0 va)) = pt_lookup (mem t) r va"
proof -
  let ?m = "store64 (ent b (ix 0 va)) v (mem t)"
  have wf: "wf_pt e (mem t) r" and free: "pages_free e S' t" and dis: "S' \<inter> tables (mem t) r = {}"
    using step by (auto simp: vm_step_def vm_ok_def)
  have nb: "node (mem t) r [ix 2 va, ix 1 va] = Some b" using b by (simp add: tbl_def)
  note leaf = leaf_store [OF wf nb ix_less ix_less ix_less]
  show "load64 (mem t) (ent b (ix 0 va)) = pt_lookup (mem t) r va"
    using nb by (simp add: pt_lookup_def)
  show "pt_lookup ?m r va' = (if vpn va' = vpn va then v else pt_lookup (mem t) r va')" if "va' < MAXVA"
    using same_vpn [OF that va] by (simp only: leaf(2))
  have tb: "b \<in> tables (mem t) r" using b by (auto simp: tables_def)
  have pb: "page_ok e b" using wf_pt_tables [OF wf tb] .
  have in_b: "?m i = mem t i" if "\<not> (unat b \<le> i \<and> i < unat b + 4096)" for i
  proof -
    have "ix 0 va \<le> 511" using ix_less [of 0 va] by linarith
    then show ?thesis using that unat_ent [OF pb ix_less, of 0 va] by (auto simp: store64_def wr_def)
  qed
  have "pages_free e S' (t\<lparr>mem := ?m\<rparr>)"
  proof (rule pages_free_cong [OF free])
    fix i assume "i \<in> span S'"
    moreover have "b \<notin> S'" using tb dis by auto
    ultimately show "?m i = mem t i"
      using in_b span_page [OF pb, of S' i] pages_free_page [OF free] by blast
  qed
  then have "vm_ok e r S' (t\<lparr>mem := ?m\<rparr>)"
    using leaf(3,4) dis by (simp add: vm_ok_def)
  moreover have "?m i = mem s i" if "i \<notin> span (S \<union> tables (mem s) r)" for i
  proof -
    have "span {b} \<subseteq> span (S \<union> tables (mem s) r)"
      using step tb by (auto simp: vm_step_def span_def)
    then have "?m i = mem t i" using in_b that by (auto simp: span_def)
    then show ?thesis using step that by (simp add: vm_step_def)
  qed
  moreover have "t\<lparr>mem := ?m\<rparr> = s\<lparr>mach := mach t, mem := ?m, freelist := freelist t\<rparr>"
  proof -
    have "t = s\<lparr>mach := mach t, mem := mem t, freelist := freelist t\<rparr>"
      using step unfolding vm_step_def by blast
    from arg_cong [OF this, of "\<lambda>x. x\<lparr>mem := ?m\<rparr>"] show ?thesis by simp
  qed
  ultimately show "vm_step e r S s S' (t\<lparr>mem := ?m\<rparr>)"
    using step leaf(3) by (simp add: vm_step_def)
qed

end
