(* ===== verification/Vm_Map.thy ===== *)
theory Vm_Map
  imports Vm_Tree
begin

unbundle bit_operations_syntax

text \<open>
  What \<^verbatim>\<open>mappages\<close>, \<^verbatim>\<open>uvmunmap\<close>, \<^verbatim>\<open>copyin\<close> and \<^verbatim>\<open>copyout\<close> do to the map from virtual pages to entries and to
  user memory.
\<close>

subsection \<open>Mapping\<close>

text \<open>The map after \<open>k\<close> pages from page number \<open>v\<close> on were mapped to consecutive frames from \<open>pa\<close>.\<close>

definition mapped :: "nat \<Rightarrow> u64 \<Rightarrow> u64 \<Rightarrow> nat \<Rightarrow> (u64 \<Rightarrow> u64) \<Rightarrow> u64 \<Rightarrow> u64" where
  "mapped v pa perm k L va' = (if v \<le> vpn va' \<and> vpn va' < v + k
     then PA2PTE (pa + PGSIZE * of_nat (vpn va' - v)) OR perm OR PTE_V else L va')"

lemma mapped_0 [simp]: "mapped v pa perm 0 L = L"
  by (rule ext) (auto simp: mapped_def)

lemma mapped_Suc: "mapped v pa perm (Suc k) L = mapped (Suc v) (pa + PGSIZE) perm k (mapped v pa perm 1 L)"
proof
  fix va'
  show "mapped v pa perm (Suc k) L va' = mapped (Suc v) (pa + PGSIZE) perm k (mapped v pa perm 1 L) va'"
  proof (cases "Suc v \<le> vpn va'")
    case True
    then have "vpn va' - v = Suc (vpn va' - Suc v)" by simp
    then show ?thesis using True by (simp add: mapped_def algebra_simps)
  qed (auto simp: mapped_def)
qed

lemma unat_pages: "4096 * k < 2 ^ 64 \<Longrightarrow> unat (PGSIZE * of_nat k) = 4096 * k"
proof -
  assume "4096 * k < 2 ^ 64"
  moreover have "(PGSIZE * of_nat k :: u64) = of_nat (4096 * k)" by simp
  ultimately show ?thesis by (simp only: unat_of_nat take_bit_eq_mod) simp
qed

lemma vpn_add: "unat va + 4096 < 2 ^ 64 \<Longrightarrow> unat (va + PGSIZE) = unat va + 4096 \<and> vpn (va + PGSIZE) = Suc (vpn va)"
  by (simp add: vpn_def unat_word_ariths)

lemma vm_step_ok: "vm_step e r S s S' t \<Longrightarrow> vm_ok e r S' t"
  by (simp add: vm_step_def)

lemma mappages_loop_maps:
  assumes "vm_ok e r S s" "stop = va + PGSIZE * of_nat n" "unat va + 4096 * Suc n \<le> unat MAXVA"
    and "\<forall>va'. va' < MAXVA \<and> vpn va \<le> vpn va' \<and> vpn va' \<le> vpn va + n \<longrightarrow> \<not> has (pt_lookup (mem s) r va') PTE_V"
  shows "\<exists>k t S'. vm_step e r S s S' t \<and>
    (\<forall>va' < MAXVA. pt_lookup (mem t) r va' = mapped (vpn va) pa perm k (pt_lookup (mem s) r) va') \<and>
    (mappages_loop r va stop pa perm s = Done 0 t \<and> k = Suc n \<or>
     mappages_loop r va stop pa perm s = Done (- 1) t \<and> k \<le> n \<and> S' = {})"
  using assms
proof (induction n arbitrary: va pa s S)
  case (0 va pa s S)
  then have va: "va < MAXVA" by (simp add: word_less_nat_alt)
  from walk_alloc [OF "0.prems"(1) va] show ?case
  proof (elim disjE exE conjE)
    fix t assume "walk r va True s = Done 0 t" "vm_step e r S s {} t" "\<forall>va'. pt_lookup (mem t) r va' = pt_lookup (mem s) r va'"
    then show ?thesis
      by (subst (1 2) mappages_loop.simps) (auto simp: bind_Done ret_def intro!: exI [of _ 0])
  next
    fix b t S' assume w: "walk r va True s = Done (ent b (ix 0 va)) t" "ent b (ix 0 va) \<noteq> 0" "vm_step e r S s S' t"
      "tbl (mem t) r [ix 2 va, ix 1 va] b" "\<forall>va'. pt_lookup (mem t) r va' = pt_lookup (mem s) r va'"
    note st = store_leaf_step [OF w(3,4) va]
    have "\<not> has (load64 (mem t) (ent b (ix 0 va))) PTE_V"
      using "0.prems"(4) va w(5) by (simp add: st(3))
    then have "mappages_loop r va stop pa perm s =
        Done 0 (t\<lparr>mem := store64 (ent b (ix 0 va)) (PA2PTE pa OR perm OR PTE_V) (mem t)\<rparr>)"
      using "0.prems"(2) w(1,2) by (subst mappages_loop.simps) (simp add: exec_simps)
    then show ?thesis
      using st(1,2) w(5) by (intro exI [of _ 1] exI conjI) (auto simp: mapped_def)
  qed
next
  case (Suc n va pa s S)
  then have va: "va < MAXVA" and wrap: "unat va + 4096 < 2 ^ 64" by (simp_all add: word_less_nat_alt)
  note nxt = vpn_add [OF wrap]
  have "stop - va = PGSIZE * of_nat (Suc n)"
    using Suc.prems(2) by simp
  then have gap: "unat (stop - va) = 4096 * Suc n"
    using Suc.prems(3) unat_pages [of "Suc n"] by simp
  then have more: "va \<noteq> stop" "4096 dvd unat (stop - va)" by auto
  from walk_alloc [OF Suc.prems(1) va] show ?case
  proof (elim disjE exE conjE)
    fix t assume "walk r va True s = Done 0 t" "vm_step e r S s {} t" "\<forall>va'. pt_lookup (mem t) r va' = pt_lookup (mem s) r va'"
    then show ?thesis
      by (subst (1 2) mappages_loop.simps) (auto simp: bind_Done ret_def intro!: exI [of _ 0])
  next
    fix b t S' assume w: "walk r va True s = Done (ent b (ix 0 va)) t" "ent b (ix 0 va) \<noteq> 0" "vm_step e r S s S' t"
      "tbl (mem t) r [ix 2 va, ix 1 va] b" "\<forall>va'. pt_lookup (mem t) r va' = pt_lookup (mem s) r va'"
    let ?t = "t\<lparr>mem := store64 (ent b (ix 0 va)) (PA2PTE pa OR perm OR PTE_V) (mem t)\<rparr>"
    note st = store_leaf_step [OF w(3,4) va]
    have "\<not> has (load64 (mem t) (ent b (ix 0 va))) PTE_V"
      using Suc.prems(4) va w(5) by (simp add: st(3))
    then have run: "mappages_loop r va stop pa perm s = mappages_loop r (va + PGSIZE) stop (pa + PGSIZE) perm ?t"
      using more w(1,2) by (subst mappages_loop.simps) (simp add: exec_simps)
    have look: "pt_lookup (mem ?t) r va' = mapped (vpn va) pa perm 1 (pt_lookup (mem s) r) va'" if "va' < MAXVA" for va'
      using st(2) [OF that] w(5) by (auto simp: mapped_def)
    have "\<exists>k u S''. vm_step e r S' ?t S'' u \<and>
      (\<forall>va' < MAXVA. pt_lookup (mem u) r va' = mapped (vpn (va + PGSIZE)) (pa + PGSIZE) perm k (pt_lookup (mem ?t) r) va') \<and>
      (mappages_loop r (va + PGSIZE) stop (pa + PGSIZE) perm ?t = Done 0 u \<and> k = Suc n \<or>
       mappages_loop r (va + PGSIZE) stop (pa + PGSIZE) perm ?t = Done (- 1) u \<and> k \<le> n \<and> S'' = {})"
    proof (rule Suc.IH)
      show "vm_ok e r S' ?t" by (rule vm_step_ok [OF st(1)])
      show "stop = va + PGSIZE + PGSIZE * of_nat n" using Suc.prems(2) by (simp add: algebra_simps)
      show "unat (va + PGSIZE) + 4096 * Suc n \<le> unat MAXVA" using Suc.prems(3) nxt by simp
      show "\<forall>va'. va' < MAXVA \<and> vpn (va + PGSIZE) \<le> vpn va' \<and> vpn va' \<le> vpn (va + PGSIZE) + n \<longrightarrow>
          \<not> has (pt_lookup (mem ?t) r va') PTE_V"
        using Suc.prems(4) nxt look by (auto simp: mapped_def)
    qed
    then obtain k u S'' where u: "vm_step e r S' ?t S'' u"
      "\<forall>va' < MAXVA. pt_lookup (mem u) r va' = mapped (Suc (vpn va)) (pa + PGSIZE) perm k (pt_lookup (mem ?t) r) va'"
      "mappages_loop r (va + PGSIZE) stop (pa + PGSIZE) perm ?t = Done 0 u \<and> k = Suc n \<or>
       mappages_loop r (va + PGSIZE) stop (pa + PGSIZE) perm ?t = Done (- 1) u \<and> k \<le> n \<and> S'' = {}"
      using nxt by auto
    have "vm_step e r S s S'' u"
      using vm_step_trans [OF st(1) [where v = "PA2PTE pa OR perm OR PTE_V"] u(1)] .
    moreover have "pt_lookup (mem u) r va' = mapped (vpn va) pa perm (Suc k) (pt_lookup (mem s) r) va'" if "va' < MAXVA" for va'
      using u(2) that look [OF that] unfolding mapped_Suc by (simp add: mapped_def)
    ultimately show ?thesis
      using u(3) unfolding run by (intro exI [of _ "Suc k"] exI [of _ u] exI [of _ S'']) auto
  qed
qed

subsection \<open>Unmapping\<close>

lemma kfree_vm:
  assumes ok: "vm_ok e r S s" and p: "page_ok e p" "p \<notin> S" "p \<notin> tables (mem s) r"
  shows "\<exists>t. kfree p s = Done () t \<and> vm_ok e r (insert p S) t \<and> tables (mem t) r = tables (mem s) r \<and>
    (\<forall>q va. tbl (mem t) r q va = tbl (mem s) r q va) \<and>
    (\<forall>va. pt_lookup (mem t) r va = pt_lookup (mem s) r va) \<and> (\<forall>i. i \<notin> span {p} \<longrightarrow> mem t i = mem s i)"
proof -
  have fr: "pages_free e S s" and ready: "kmem_ready s" "kend s = e" and wf: "wf_pt e (mem s) r"
    and dis: "S \<inter> tables (mem s) r = {}"
    using ok by (auto simp: vm_ok_def pages_free_def)
  let ?m = "store64 p (freelist s) (fill 4096 1 (unat p) (mem s))"
  let ?t = "s\<lparr>mach := settle (mach s), freelist := p, mem := ?m\<rparr>"
  have run: "kfree p s = Done () ?t" by (rule kfree_exec) (use ready p in simp_all)
  have out: "?m i = mem s i" if "i \<notin> span {p}" for i
    using that by (auto simp: span_def store64_def wr_def fill_def)
  have "pages_free e (insert p S) ?t"
    using page_pool.free_ok [OF fr _ p(2)] p(1) run by simp
  moreover have "\<forall>a \<in> tables (mem s) r. \<forall>i < 512. load64 ?m (ent a i) = load64 (mem s) (ent a i)"
  proof (intro ballI allI impI)
    fix a i assume a: "a \<in> tables (mem s) r" "i < (512 :: nat)"
    then have "a \<noteq> p" "page_ok e a" using p(3) wf_pt_tables [OF wf] by auto
    then show "load64 ?m (ent a i) = load64 (mem s) (ent a i)"
      using span_page [of e a "{p}"] p(1) out by (intro load_outside [OF _ a(2), of e]) auto
  qed
  note cong = tables_cong [OF this]
  ultimately have "vm_ok e r (insert p S) ?t"
    using wf dis p(3) by (simp add: vm_ok_def cong)
  then show ?thesis
    using run cong out by (intro exI [of _ ?t]) simp
qed

text \<open>The frame of page number \<open>k\<close>.\<close>

definition frame :: "bytes \<Rightarrow> u64 \<Rightarrow> nat \<Rightarrow> u64" where
  "frame m r k = PTE2PA (pt_lookup m r (of_nat (4096 * k)))"

definition leaf :: "bytes \<Rightarrow> u64 \<Rightarrow> nat \<Rightarrow> bool" where
  "leaf m r k = (has (pt_lookup m r (of_nat (4096 * k))) PTE_V \<and> PTE_FLAGS (pt_lookup m r (of_nat (4096 * k))) \<noteq> PTE_V)"

lemma vpn_of_nat: "4096 * k < 2 ^ 64 \<Longrightarrow> vpn (of_nat (4096 * k)) = k"
  by (simp only: vpn_def unat_of_nat take_bit_eq_mod) simp

lemma lookup_vpn:
  assumes "va < MAXVA" "va' < MAXVA" "vpn va = vpn va'"
  shows "pt_lookup m r va = pt_lookup m r va'"
  using same_vpn [OF assms(1,2)] assms(3) by (simp add: pt_lookup_def cong: option.case_cong)

lemma of_nat_MAXVA: "k < 2 ^ 26 \<Longrightarrow> (of_nat (4096 * k) :: u64) < MAXVA"
  by (simp only: word_less_nat_alt unat_of_nat take_bit_eq_mod) simp

lemma leaf_cong:
  assumes "k < 2 ^ 26" "\<forall>va' < MAXVA. pt_lookup m' r va' = (if vpn va' = v then 0 else pt_lookup m r va')" "k \<noteq> v"
  shows "leaf m' r k = leaf m r k" "frame m' r k = frame m r k"
proof -
  have "vpn (of_nat (4096 * k)) = k" by (rule vpn_of_nat) (use assms(1) in simp)
  then have "pt_lookup m' r (of_nat (4096 * k)) = pt_lookup m r (of_nat (4096 * k))"
    using assms(2,3) of_nat_MAXVA [OF assms(1)] by auto
  then show "leaf m' r k = leaf m r k" "frame m' r k = frame m r k"
    by (simp_all only: leaf_def frame_def)
qed

lemma uvmunmap_one:
  assumes ok: "vm_ok e r S s" and v: "v < 2 ^ 26" and lf: "leaf (mem s) r v"
    and p: "page_ok e (frame (mem s) r v)" "frame (mem s) r v \<notin> S \<union> tables (mem s) r"
  shows "\<exists>t. (\<forall>stop. 4096 * v < stop \<longrightarrow> uvmunmap_loop r (4096 * v) stop True s = uvmunmap_loop r (4096 * v + 4096) stop True t) \<and>
    vm_ok e r (insert (frame (mem s) r v) S) t \<and> tables (mem t) r = tables (mem s) r \<and>
    (\<forall>va' < MAXVA. pt_lookup (mem t) r va' = (if vpn va' = v then 0 else pt_lookup (mem s) r va')) \<and>
    (\<forall>i. i \<notin> span (insert (frame (mem s) r v) (tables (mem s) r)) \<longrightarrow> mem t i = mem s i)"
proof -
  let ?va = "of_nat (4096 * v) :: u64"
  have va: "?va < MAXVA" by (rule of_nat_MAXVA [OF v])
  have vv: "vpn ?va = v" by (rule vpn_of_nat) (use v in simp)
  have "node (mem s) r [ix 2 ?va, ix 1 ?va] \<noteq> None"
    using lf by (auto simp: leaf_def pt_lookup_def split: option.splits)
  then obtain b where b: "node (mem s) r [ix 2 ?va, ix 1 ?va] = Some b" by blast
  then have tb: "tbl (mem s) r [ix 2 ?va, ix 1 ?va] b" by (simp add: tbl_def is_path_def)
  have e0: "0 < e" using ok by (auto simp: vm_ok_def pages_free_def kmem_ready_def)
  have "page_ok e b" using ok tb by (auto simp: vm_ok_def dest: wf_ptD(1))
  then have nz: "ent b (ix 0 ?va) \<noteq> 0" using ent_nonzero e0 by simp
  obtain t where t: "kfree (frame (mem s) r v) s = Done () t" "vm_ok e r (insert (frame (mem s) r v) S) t"
    "tables (mem t) r = tables (mem s) r" "\<forall>q va. tbl (mem t) r q va = tbl (mem s) r q va"
    "\<forall>va. pt_lookup (mem t) r va = pt_lookup (mem s) r va" "\<forall>i. i \<notin> span {frame (mem s) r v} \<longrightarrow> mem t i = mem s i"
    using kfree_vm [OF ok p(1)] p(2) by blast
  have tb': "tbl (mem t) r [ix 2 ?va, ix 1 ?va] b" using tb t(4) by simp
  note st = store_leaf_step [OF vm_step_refl [OF t(2)] tb' va]
  let ?u = "t\<lparr>mem := store64 (ent b (ix 0 ?va)) 0 (mem t)\<rparr>"
  have ld: "load64 (mem s) (ent b (ix 0 ?va)) = pt_lookup (mem s) r ?va"
    using b by (simp add: pt_lookup_def)
  have w: "walk r ?va False s = Done (ent b (ix 0 ?va)) s"
    using walk_find [OF va, of r s] by (simp only: b option.case)
  have run: "uvmunmap_loop r (4096 * v) stop True s = uvmunmap_loop r (4096 * v + 4096) stop True ?u" if "4096 * v < stop" for stop
    using that lf nz t(1) unfolding leaf_def frame_def
    by (subst uvmunmap_loop.simps) (simp add: w exec_simps ld del: of_nat_mult)
  have "wf_pt e (mem t) r" "node (mem t) r [ix 2 ?va, ix 1 ?va] = Some b"
    using t(2) tb' by (simp_all add: vm_ok_def tbl_def)
  from leaf_store(3) [OF this ix_less ix_less ix_less, of 0 ?va 0] have tabs: "tables (mem ?u) r = tables (mem s) r"
    using t(3) by simp
  have "mem ?u i = mem s i" if "i \<notin> span (insert (frame (mem s) r v) (tables (mem s) r))" for i
  proof -
    have "b \<in> tables (mem s) r" using tb by (auto simp: tables_def)
    moreover have "ix 0 ?va \<le> 511" using ix_less [of 0 ?va] by linarith
    ultimately have "store64 (ent b (ix 0 ?va)) 0 (mem t) i = mem t i"
      using that unat_ent [OF \<open>page_ok e b\<close> ix_less, of 0 ?va] by (auto simp: store64_def wr_def span_def)
    then show ?thesis using t(6) that by (auto simp: span_def)
  qed
  moreover have "\<forall>va' < MAXVA. pt_lookup (mem ?u) r va' = (if vpn va' = v then 0 else pt_lookup (mem s) r va')"
    using st(2) [where v = 0] t(5) vv by simp
  ultimately show ?thesis
    using run vm_step_ok [OF st(1) [where v = 0]] tabs by (intro exI [of _ ?u] conjI) auto
qed

lemma uvmunmap_frees:
  assumes "vm_ok e r S s" "v + n \<le> 2 ^ 26" "\<forall>k \<in> {v..<v + n}. leaf (mem s) r k \<and> page_ok e (frame (mem s) r k)"
    "frame (mem s) r ` {v..<v + n} \<inter> (S \<union> tables (mem s) r) = {}" "inj_on (frame (mem s) r) {v..<v + n}"
  shows "\<exists>t. uvmunmap_loop r (4096 * v) (4096 * (v + n)) True s = Done () t \<and>
    vm_ok e r (S \<union> frame (mem s) r ` {v..<v + n}) t \<and> tables (mem t) r = tables (mem s) r \<and>
    (\<forall>va' < MAXVA. pt_lookup (mem t) r va' = (if v \<le> vpn va' \<and> vpn va' < v + n then 0 else pt_lookup (mem s) r va')) \<and>
    (\<forall>i. i \<notin> span (frame (mem s) r ` {v..<v + n} \<union> tables (mem s) r) \<longrightarrow> mem t i = mem s i)"
  using assms
proof (induction n arbitrary: v S s)
  case (0 v S s)
  then show ?case by (subst uvmunmap_loop.simps) (auto simp: ret_def)
next
  case (Suc n v S s)
  let ?F = "frame (mem s) r"
  have range: "{v..<v + Suc n} = insert v {Suc v..<Suc v + n}" by auto
  have v: "v < 2 ^ 26" "leaf (mem s) r v" "page_ok e (?F v)" "?F v \<notin> S \<union> tables (mem s) r"
    using Suc.prems range by auto
  obtain t where t: "\<forall>stop. 4096 * v < stop \<longrightarrow> uvmunmap_loop r (4096 * v) stop True s = uvmunmap_loop r (4096 * v + 4096) stop True t"
    "vm_ok e r (insert (?F v) S) t" "tables (mem t) r = tables (mem s) r"
    "\<forall>va' < MAXVA. pt_lookup (mem t) r va' = (if vpn va' = v then 0 else pt_lookup (mem s) r va')"
    "\<forall>i. i \<notin> span (insert (?F v) (tables (mem s) r)) \<longrightarrow> mem t i = mem s i"
    using uvmunmap_one [OF Suc.prems(1) v] by blast
  have keep: "leaf (mem t) r k = leaf (mem s) r k" "frame (mem t) r k = ?F k" if "k \<in> {Suc v..<Suc v + n}" for k
    using leaf_cong [OF _ t(4), of k] that Suc.prems(2) by auto
  then have img: "frame (mem t) r ` {Suc v..<Suc v + n} = ?F ` {Suc v..<Suc v + n}" by simp
  have "\<exists>u. uvmunmap_loop r (4096 * Suc v) (4096 * (Suc v + n)) True t = Done () u \<and>
    vm_ok e r (insert (?F v) S \<union> frame (mem t) r ` {Suc v..<Suc v + n}) u \<and> tables (mem u) r = tables (mem t) r \<and>
    (\<forall>va' < MAXVA. pt_lookup (mem u) r va' = (if Suc v \<le> vpn va' \<and> vpn va' < Suc v + n then 0 else pt_lookup (mem t) r va')) \<and>
    (\<forall>i. i \<notin> span (frame (mem t) r ` {Suc v..<Suc v + n} \<union> tables (mem t) r) \<longrightarrow> mem u i = mem t i)"
  proof (rule Suc.IH [OF t(2)])
    show "Suc v + n \<le> 2 ^ 26" using Suc.prems(2) by simp
    show "\<forall>k \<in> {Suc v..<Suc v + n}. leaf (mem t) r k \<and> page_ok e (frame (mem t) r k)"
      using Suc.prems(3) keep range by simp
    show "frame (mem t) r ` {Suc v..<Suc v + n} \<inter> (insert (?F v) S \<union> tables (mem t) r) = {}"
    proof -
      have "?F k \<noteq> ?F v" if "k \<in> {Suc v..<Suc v + n}" for k
        using inj_onD [OF Suc.prems(5), of k v] that by auto
      moreover have "?F k \<notin> S \<union> tables (mem s) r" if "k \<in> {Suc v..<Suc v + n}" for k
        using Suc.prems(4) that unfolding range by blast
      ultimately show ?thesis unfolding img t(3) by blast
    qed
    show "inj_on (frame (mem t) r) {Suc v..<Suc v + n}"
      using inj_on_subset [OF Suc.prems(5), of "{Suc v..<Suc v + n}"] keep(2) inj_on_cong [of _ "frame (mem t) r" ?F]
      by fastforce
  qed
  then obtain u where u: "uvmunmap_loop r (4096 * Suc v) (4096 * (Suc v + n)) True t = Done () u"
    "vm_ok e r (insert (?F v) S \<union> ?F ` {Suc v..<Suc v + n}) u" "tables (mem u) r = tables (mem s) r"
    "\<forall>va' < MAXVA. pt_lookup (mem u) r va' = (if Suc v \<le> vpn va' \<and> vpn va' < Suc v + n then 0 else pt_lookup (mem t) r va')"
    "\<forall>i. i \<notin> span (?F ` {Suc v..<Suc v + n} \<union> tables (mem s) r) \<longrightarrow> mem u i = mem t i"
    unfolding img t(3) by blast
  have "uvmunmap_loop r (4096 * v) (4096 * (v + Suc n)) True s = Done () u"
    using t(1) u(1) by (simp add: add.commute)
  moreover have "S \<union> ?F ` {v..<v + Suc n} = insert (?F v) S \<union> ?F ` {Suc v..<Suc v + n}"
    unfolding range by auto
  moreover have "pt_lookup (mem u) r va' = (if v \<le> vpn va' \<and> vpn va' < v + Suc n then 0 else pt_lookup (mem s) r va')"
    if "va' < MAXVA" for va'
    using u(4) t(4) that by auto
  moreover have "mem u i = mem s i" if "i \<notin> span (?F ` {v..<v + Suc n} \<union> tables (mem s) r)" for i
  proof -
    have "i \<notin> span (?F ` {Suc v..<Suc v + n} \<union> tables (mem s) r)" "i \<notin> span (insert (?F v) (tables (mem s) r))"
      using that unfolding range by (auto simp: span_def)
    then show ?thesis using u(5) t(5) by simp
  qed
  ultimately show ?case
    using u(2,3) by (intro exI [of _ u]) simp
qed

subsection \<open>User memory\<close>

text \<open>The physical address of a user byte; the test \<open>ok\<close> looks at the flags of the entry.\<close>

definition upage :: "bytes \<Rightarrow> u64 \<Rightarrow> u64 \<Rightarrow> bool" where
  "upage m r va = (va < MAXVA \<and> has (pt_lookup m r va) PTE_V \<and> has (pt_lookup m r va) PTE_U \<and> PTE2PA (pt_lookup m r va) \<noteq> 0)"

definition uaddr :: "bytes \<Rightarrow> u64 \<Rightarrow> u64 \<Rightarrow> nat" where
  "uaddr m r va = unat (PTE2PA (pt_lookup m r va)) + unat va mod 4096"

lemma PTE2PA_aligned: "page_aligned (PTE2PA v)"
proof -
  have "take_bit 12 (PTE2PA v) = 0"
    unfolding PTE2PA_def by (rule bit_word_eqI) (auto simp: bit_simps)
  then show ?thesis by (simp add: page_aligned_iff_bits)
qed

lemma aligned_add: "page_aligned p \<Longrightarrow> unat off < 4096 \<Longrightarrow> unat (p + off) = unat p + unat off"
proof -
  assume p: "page_aligned p" and off: "unat off < 4096"
  obtain k where k: "unat p = 4096 * k" using p by (auto simp: page_aligned_iff_unat)
  have "unat p < 2 ^ 64" using unsigned_less [where 'a = nat, of p] by simp
  then have "unat p + 4096 \<le> 2 ^ 64" unfolding k by simp
  then show ?thesis using off by (simp add: unat_word_ariths)
qed

lemma PGROUNDDOWN_MAXVA: "PGROUNDDOWN va < MAXVA \<longleftrightarrow> va < MAXVA"
  by (auto simp: word_less_nat_alt unat_PGROUNDDOWN)

lemma vpn_PGROUNDDOWN [simp]: "vpn (PGROUNDDOWN va) = vpn va"
  by (simp add: vpn_def unat_PGROUNDDOWN)

lemma lookup_PGROUNDDOWN: "va < MAXVA \<Longrightarrow> pt_lookup m r (PGROUNDDOWN va) = pt_lookup m r va"
  by (rule lookup_vpn) (simp_all add: PGROUNDDOWN_MAXVA)

lemma walk_find_lookup:
  assumes "va < MAXVA" "has (pt_lookup (mem s) r va) PTE_V" "vm_ok e r S s"
  shows "\<exists>a. walk r va False s = Done a s \<and> a \<noteq> 0 \<and> load64 (mem s) a = pt_lookup (mem s) r va"
proof -
  obtain b where b: "node (mem s) r [ix 2 va, ix 1 va] = Some b"
    using assms(2) by (auto simp: pt_lookup_def split: option.splits)
  have e0: "0 < e" using assms(3) by (auto simp: vm_ok_def pages_free_def kmem_ready_def)
  have "tbl (mem s) r [ix 2 va, ix 1 va] b" using b by (simp add: tbl_def is_path_def)
  then have "page_ok e b" using assms(3) by (auto simp: vm_ok_def dest: wf_ptD(1))
  moreover have "walk r va False s = Done (ent b (ix 0 va)) s"
    using walk_find [OF assms(1), of r s] b by simp
  ultimately show ?thesis
    using b ent_nonzero [OF _ e0] by (auto simp: pt_lookup_def)
qed

lemma walkaddr_ok:
  assumes "upage (mem s) r va" "vm_ok e r S s"
  shows "walkaddr r (PGROUNDDOWN va) s = Done (PTE2PA (pt_lookup (mem s) r va)) s"
proof -
  have va: "PGROUNDDOWN va < MAXVA" "va < MAXVA" using assms(1) by (simp_all add: upage_def PGROUNDDOWN_MAXVA)
  then have "has (pt_lookup (mem s) r (PGROUNDDOWN va)) PTE_V"
    using assms(1) by (simp add: upage_def lookup_PGROUNDDOWN)
  then obtain a where "walk r (PGROUNDDOWN va) False s = Done a s" "a \<noteq> 0"
      "load64 (mem s) a = pt_lookup (mem s) r (PGROUNDDOWN va)"
    using walk_find_lookup [OF va(1) _ assms(2)] by blast
  then show ?thesis
    using assms(1) va by (simp add: walkaddr_def exec_simps upage_def lookup_PGROUNDDOWN not_le)
qed

lemma uaddr_eq:
  assumes "upage m r va"
  shows "unat (PTE2PA (pt_lookup m r va) + (va - PGROUNDDOWN va)) = uaddr m r va"
  unfolding uaddr_def page_offset [symmetric]
  by (rule aligned_add [OF PTE2PA_aligned]) (simp add: page_offset)

text \<open>Within the page of \<open>va\<close>, addresses advance together.\<close>

lemma chunk_offset: "k < chunk va len \<Longrightarrow> unat va mod 4096 + k < 4096"
  by (auto simp: chunk_def Let_def page_offset split: if_splits)

lemma same_page_add:
  assumes "k < chunk va len" "va < MAXVA"
  shows "va + of_nat k < MAXVA" "vpn (va + of_nat k) = vpn va" "unat (va + of_nat k) mod 4096 = unat va mod 4096 + k"
    "unat (va + of_nat k) = unat va + k"
proof -
  have k: "unat va mod 4096 + k < 4096" by (rule chunk_offset [OF assms(1)])
  have va: "unat va < 0x4000000000" using assms(2) by (simp add: word_less_nat_alt)
  have u: "unat (va + of_nat k) = unat va + k"
    using va k by (simp add: unat_word_ariths unat_of_nat)
  have d: "(unat va + k) div 4096 = unat va div 4096" "(unat va + k) mod 4096 = unat va mod 4096 + k"
    using k by (metis div_mult_mod_eq add.assoc div_mult_self3 div_less add.right_neutral zero_neq_numeral)
      (metis k mod_add_left_eq mod_less)
  show "unat (va + of_nat k) = unat va + k" by (rule u)
  show "vpn (va + of_nat k) = vpn va" "unat (va + of_nat k) mod 4096 = unat va mod 4096 + k"
    using d by (simp_all only: vpn_def u)
  have "unat va div 4096 < 0x4000000" using va by (simp add: less_mult_imp_div_less)
  then have "unat va + k < 0x4000000000"
    using k div_mult_mod_eq [of "unat va" 4096] by linarith
  then show "va + of_nat k < MAXVA" by (simp only: word_less_nat_alt u) simp
qed

lemma uaddr_add:
  assumes "k < chunk va len" "upage m r va"
  shows "upage m r (va + of_nat k)" "uaddr m r (va + of_nat k) = uaddr m r va + k"
proof -
  have va: "va < MAXVA" using assms(2) by (simp add: upage_def)
  note add = same_page_add [OF assms(1) va]
  have "pt_lookup m r (va + of_nat k) = pt_lookup m r va" by (rule lookup_vpn) (use add va in simp_all)
  then show "upage m r (va + of_nat k)" "uaddr m r (va + of_nat k) = uaddr m r va + k"
    using assms(2) add by (simp_all add: upage_def uaddr_def)
qed

lemma next_page: "chunk va len < len \<Longrightarrow> PGROUNDDOWN va + PGSIZE = va + of_nat (chunk va len)"
proof -
  assume "chunk va len < len"
  then have c: "chunk va len = 4096 - unat (va - PGROUNDDOWN va)" by (auto simp: chunk_def Let_def split: if_splits)
  have "unat (va - PGROUNDDOWN va) \<le> 4096" by (simp add: page_offset)
  then have "of_nat (chunk va len) = (4096 - (va - PGROUNDDOWN va) :: u64)"
    unfolding c by (simp add: of_nat_diff)
  then show ?thesis by simp
qed

lemma copyin_reads:
  assumes "vm_ok e r S s" "\<And>k. k < len \<Longrightarrow> upage (mem s) r (va + of_nat k)"
  shows "copyin r dst doff va len s =
    Done (0, \<lambda>i. if doff \<le> i \<and> i < doff + len then mem s (uaddr (mem s) r (va + of_nat (i - doff))) else dst i) s"
  using assms(2)
proof (induction len arbitrary: va dst doff rule: less_induct)
  case (less len)
  show ?case
  proof (cases "len = 0")
    case True
    then show ?thesis by (subst copyin.simps) (auto simp: ret_def fun_eq_iff)
  next
    case False
    let ?n = "chunk va len"
    have n: "0 < ?n" "?n \<le> len" using False chunk_pos chunk_le by simp_all
    have up: "upage (mem s) r va" using less.prems [of 0] False by simp
    let ?d = "blit ?n (mem s) (uaddr (mem s) r va) doff dst"
    have run: "copyin r dst doff va len s = copyin r ?d (doff + ?n) (PGROUNDDOWN va + PGSIZE) (len - ?n) s"
      using False up walkaddr_ok [OF up assms(1)] uaddr_eq [OF up]
      by (subst copyin.simps) (simp add: Let_def exec_simps upage_def)
    have d: "?d i = (if doff \<le> i \<and> i < doff + ?n then mem s (uaddr (mem s) r (va + of_nat (i - doff))) else dst i)" for i
      using uaddr_add(2) [OF _ up, of "i - doff" len] by (auto simp: blit_def)
    show ?thesis
    proof (cases "?n = len")
      case True
      then show ?thesis
        unfolding run by (subst copyin.simps) (use d in \<open>auto simp: ret_def fun_eq_iff\<close>)
    next
      case False
      then have nx: "PGROUNDDOWN va + PGSIZE = va + of_nat ?n" using next_page n by simp
      have "copyin r ?d (doff + ?n) (va + of_nat ?n) (len - ?n) s = Done (0, \<lambda>i. if doff + ?n \<le> i \<and> i < doff + ?n + (len - ?n)
          then mem s (uaddr (mem s) r (va + of_nat ?n + of_nat (i - (doff + ?n)))) else ?d i) s"
      proof (rule less.IH)
        show "len - ?n < len" using n by simp
        show "upage (mem s) r (va + of_nat ?n + of_nat k)" if "k < len - ?n" for k
          using less.prems [of "?n + k"] that by (simp add: add.assoc)
      qed
      then show ?thesis
        unfolding run nx using n d by (auto simp: fun_eq_iff of_nat_diff algebra_simps)
    qed
  qed
qed

lemma vm_ok_outside:
  assumes ok: "vm_ok e r S s" and out: "\<forall>i \<in> span (S \<union> tables (mem s) r). m i = mem s i"
  shows "vm_ok e r S (s\<lparr>mem := m\<rparr>)" "pt_lookup m r va = pt_lookup (mem s) r va" "tables m r = tables (mem s) r"
proof -
  have "\<forall>a \<in> tables (mem s) r. \<forall>i < 512. load64 m (ent a i) = load64 (mem s) (ent a i)"
  proof (intro ballI allI impI)
    fix a i assume a: "a \<in> tables (mem s) r" "i < (512 :: nat)"
    then have "page_ok e a" using tables_page [OF ok] by simp
    then show "load64 m (ent a i) = load64 (mem s) (ent a i)"
      by (rule load_outside [OF _ a(2)]) (use out a(1) in \<open>auto simp: span_def\<close>)
  qed
  note cong = tables_cong [OF this]
  show "pt_lookup m r va = pt_lookup (mem s) r va" "tables m r = tables (mem s) r" by (rule cong)+
  have "pages_free e S (s\<lparr>mem := m\<rparr>)"
    by (rule pages_free_cong) (use ok out in \<open>auto simp: vm_ok_def span_def\<close>)
  then show "vm_ok e r S (s\<lparr>mem := m\<rparr>)"
    using ok by (simp add: vm_ok_def cong)
qed

definition uwritable :: "bytes \<Rightarrow> u64 \<Rightarrow> u64 \<Rightarrow> bool" where
  "uwritable m r va = (upage m r va \<and> has (pt_lookup m r va) PTE_W)"

lemma user_cong:
  assumes "pt_lookup m r a = pt_lookup m' r a"
  shows "uaddr m r a = uaddr m' r a" "upage m r a = upage m' r a" "uwritable m r a = uwritable m' r a"
  by (simp_all add: uaddr_def uwritable_def upage_def assms)

lemma copyout_step:
  assumes "vm_ok e r S s" "uwritable (mem s) r va" "0 < len"
  shows "copyout r va src soff len s = copyout r (PGROUNDDOWN va + PGSIZE) src (soff + chunk va len) (len - chunk va len)
    (s\<lparr>mem := blit (chunk va len) src soff (uaddr (mem s) r va) (mem s)\<rparr>)"
proof -
  have up: "upage (mem s) r va" using assms(2) by (simp add: uwritable_def)
  then have va: "PGROUNDDOWN va < MAXVA" "va < MAXVA" by (simp_all add: upage_def PGROUNDDOWN_MAXVA)
  have "has (pt_lookup (mem s) r (PGROUNDDOWN va)) PTE_V"
    using up va by (simp add: upage_def lookup_PGROUNDDOWN)
  then obtain a where "walk r (PGROUNDDOWN va) False s = Done a s" "a \<noteq> 0"
      "load64 (mem s) a = pt_lookup (mem s) r va"
    using walk_find_lookup [OF va(1) _ assms(1)] lookup_PGROUNDDOWN [OF va(2)] by metis
  moreover have "\<not> MAXVA \<le> PGROUNDDOWN va" using va(1) by (simp only: not_le)
  ultimately show ?thesis
    using assms(2,3) up uaddr_eq [OF up]
    by (subst copyout.simps) (simp add: Let_def exec_simps upage_def uwritable_def)
qed

lemma copyout_writes:
  assumes "vm_ok e r S s" "\<forall>k < len. uwritable (mem s) r (va + of_nat k)"
    "\<forall>k < len. uaddr (mem s) r (va + of_nat k) \<notin> span (S \<union> tables (mem s) r)"
    "inj_on (\<lambda>k. uaddr (mem s) r (va + of_nat k)) {..<len}"
  shows "\<exists>m. copyout r va src soff len s = Done 0 (s\<lparr>mem := m\<rparr>) \<and>
    (\<forall>k < len. m (uaddr (mem s) r (va + of_nat k)) = src (soff + k)) \<and>
    (\<forall>i. i \<notin> (\<lambda>k. uaddr (mem s) r (va + of_nat k)) ` {..<len} \<longrightarrow> m i = mem s i)"
  using assms
proof (induction len arbitrary: va soff s rule: less_induct)
  case (less len)
  show ?case
  proof (cases "len = 0")
    case True
    then show ?thesis by (subst copyout.simps) (auto simp: ret_def intro!: exI [of _ "mem s"])
  next
    case False
    let ?n = "chunk va len" and ?A = "\<lambda>k. uaddr (mem s) r (va + of_nat k)"
    have n: "0 < ?n" "?n \<le> len" using False chunk_pos chunk_le by simp_all
    have wr: "uwritable (mem s) r va" using less.prems(2) False by (auto dest: spec [of _ 0])
    have up: "upage (mem s) r va" using wr by (simp add: uwritable_def)
    have A: "?A k = uaddr (mem s) r va + k" if "k < ?n" for k
      using uaddr_add(2) [OF that up] .
    let ?m = "blit ?n src soff (uaddr (mem s) r va) (mem s)"
    let ?s = "s\<lparr>mem := ?m\<rparr>"
    have m: "?m (?A k) = src (soff + k)" if "k < ?n" for k
      using A [OF that] that by (simp add: blit_def)
    have m_other: "?m i = mem s i" if "i \<notin> ?A ` {..<?n}" for i
    proof -
      have "\<not> (uaddr (mem s) r va \<le> i \<and> i < uaddr (mem s) r va + ?n)"
      proof
        assume i: "uaddr (mem s) r va \<le> i \<and> i < uaddr (mem s) r va + ?n"
        then have d: "i - uaddr (mem s) r va < ?n" by linarith
        from A [OF d] i have "i = ?A (i - uaddr (mem s) r va)" by (simp del: of_nat_diff)
        then show False using that d by blast
      qed
      then show ?thesis by (auto simp: blit_def)
    qed
    have "\<forall>i \<in> span (S \<union> tables (mem s) r). ?m i = mem s i"
    proof (intro ballI m_other notI)
      fix i assume that: "i \<in> span (S \<union> tables (mem s) r)" and "i \<in> ?A ` {..<?n}"
      then obtain k where "k < ?n" "i = ?A k" by blast
      then show False using less.prems(3) that n(2) by (metis less_le_trans)
    qed
    note keep = vm_ok_outside [OF less.prems(1) this]
    have same: "uaddr ?m r a = uaddr (mem s) r a" "uwritable ?m r a = uwritable (mem s) r a" for a
      by (intro user_cong keep(2))+
    have run: "copyout r va src soff len s = copyout r (PGROUNDDOWN va + PGSIZE) src (soff + ?n) (len - ?n) ?s"
      by (rule copyout_step [OF less.prems(1) wr]) (use False in simp)
    show ?thesis
    proof (cases "?n = len")
      case True
      then have "copyout r va src soff len s = Done 0 ?s"
        unfolding run by (subst copyout.simps) (simp add: ret_def)
      then show ?thesis using m m_other unfolding True by blast
    next
      case False
      then have nx: "PGROUNDDOWN va + PGSIZE = va + of_nat ?n" using next_page n by simp
      have sh: "va + of_nat ?n + of_nat k = va + of_nat (?n + k)" for k by (simp add: add.assoc)
      have "\<exists>m'. copyout r (va + of_nat ?n) src (soff + ?n) (len - ?n) ?s = Done 0 (?s\<lparr>mem := m'\<rparr>) \<and>
        (\<forall>k < len - ?n. m' (uaddr (mem ?s) r (va + of_nat ?n + of_nat k)) = src (soff + ?n + k)) \<and>
        (\<forall>i. i \<notin> (\<lambda>k. uaddr (mem ?s) r (va + of_nat ?n + of_nat k)) ` {..<len - ?n} \<longrightarrow> m' i = mem ?s i)"
      proof (rule less.IH)
        show "len - ?n < len" using n by simp
        show "vm_ok e r S ?s" by (rule keep)
        show "\<forall>k < len - ?n. uwritable (mem ?s) r (va + of_nat ?n + of_nat k)"
          using less.prems(2) unfolding sh by (simp add: same del: of_nat_add)
        show "\<forall>k < len - ?n. uaddr (mem ?s) r (va + of_nat ?n + of_nat k) \<notin> span (S \<union> tables (mem ?s) r)"
          using less.prems(3) unfolding sh by (simp add: same keep(3) del: of_nat_add)
        show "inj_on (\<lambda>k. uaddr (mem ?s) r (va + of_nat ?n + of_nat k)) {..<len - ?n}"
        proof (rule inj_onI)
          fix x y assume "x \<in> {..<len - ?n}" "y \<in> {..<len - ?n}"
            "uaddr (mem ?s) r (va + of_nat ?n + of_nat x) = uaddr (mem ?s) r (va + of_nat ?n + of_nat y)"
          then show "x = y"
            using inj_onD [OF less.prems(4), of "?n + x" "?n + y"] unfolding sh by (simp add: same del: of_nat_add)
        qed
      qed
      then obtain m' where m': "copyout r (va + of_nat ?n) src (soff + ?n) (len - ?n) ?s = Done 0 (?s\<lparr>mem := m'\<rparr>)"
        "\<forall>k < len - ?n. m' (?A (?n + k)) = src (soff + ?n + k)"
        "\<forall>i. i \<notin> (\<lambda>k. ?A (?n + k)) ` {..<len - ?n} \<longrightarrow> m' i = ?m i"
        by (auto simp: same sh simp del: of_nat_add)
      have lo: "m' (?A k) = src (soff + k)" if "k < ?n" for k
      proof -
        have "?A k \<noteq> ?A (?n + j)" if "j < len - ?n" for j
        proof -
          have "?n + j < len" using that by linarith
          then show ?thesis using inj_onD [OF less.prems(4), of k "?n + j"] \<open>k < ?n\<close> n by auto
        qed
        then have "m' (?A k) = ?m (?A k)" using m'(3) by auto
        then show ?thesis using m [OF that] by simp
      qed
      have hi: "m' (?A k) = src (soff + k)" if "k < len" "\<not> k < ?n" for k
        using m'(2) [rule_format, of "k - ?n"] that by (simp add: add.assoc)
      have "m' i = mem s i" if "i \<notin> ?A ` {..<len}" for i
      proof -
        have "(\<lambda>k. ?A (?n + k)) ` {..<len - ?n} \<subseteq> ?A ` {..<len}"
        proof (rule image_subsetI)
          fix x assume "x \<in> {..<len - ?n}"
          then show "?A (?n + x) \<in> ?A ` {..<len}" by (intro image_eqI [where x = "?n + x"]) auto
        qed
        then have "i \<notin> (\<lambda>k. ?A (?n + k)) ` {..<len - ?n}" "i \<notin> ?A ` {..<?n}"
          using that n(2) by auto
        then show ?thesis using m'(3) m_other by simp
      qed
      then show ?thesis
        using m'(1) lo hi unfolding run nx by (intro exI [of _ m']) auto
    qed
  qed
qed

subsection \<open>A small address space\<close>

text \<open>
  Three table pages and one user page, mapped at address 0 with all permissions; nothing else is
  mapped and no page is free.
\<close>

definition demo_mem :: bytes where
  "demo_mem = store64 (ent 0x87FFF000 0) (PA2PTE 0x87FFE000 OR PTE_V)
     (store64 (ent 0x87FFE000 0) (PA2PTE 0x87FFD000 OR PTE_V)
     (store64 (ent 0x87FFD000 0) (PA2PTE 0x87FFC000 OR 0x1F) (\<lambda>_. 0)))"

definition demo_vm :: kmstate where
  "demo_vm = \<lparr>mach = idle_machine, mem = demo_mem, kend = 0x87FF0000, freelist = 0\<rparr>"

lemma demo_page [simp]:
  "page_ok 0x87FF0000 0x87FFF000" "page_ok 0x87FF0000 0x87FFE000" "page_ok 0x87FF0000 0x87FFD000"
  "page_ok 0x87FF0000 0x87FFC000"
  by (simp_all add: page_ok_def page_aligned_def)

lemma demo_load:
  "i < 512 \<Longrightarrow> load64 demo_mem (ent 0x87FFF000 i) = (if i = 0 then PA2PTE 0x87FFE000 OR PTE_V else 0)"
  "i < 512 \<Longrightarrow> load64 demo_mem (ent 0x87FFE000 i) = (if i = 0 then PA2PTE 0x87FFD000 OR PTE_V else 0)"
  "i < 512 \<Longrightarrow> load64 demo_mem (ent 0x87FFD000 i) = (if i = 0 then PA2PTE 0x87FFC000 OR 0x1F else 0)"
  by (simp_all add: demo_mem_def load_store_ent [where e = "0x87FF0000"]) (simp_all add: load64_def rd_def)

lemma demo_link: "PTE2PA (PA2PTE 0x87FFE000 OR PTE_V) = 0x87FFE000" "PTE2PA (PA2PTE 0x87FFD000 OR PTE_V) = 0x87FFD000"
  "PTE2PA (PA2PTE 0x87FFC000 OR 0x1F) = 0x87FFC000"
  by (rule PTE2PA_PA2PTE; simp add: page_aligned_def)+

lemma demo_node:
  assumes "is_path p"
  shows "node demo_mem 0x87FFF000 p = (if p = [] then Some 0x87FFF000 else if p = [0] then Some 0x87FFE000
    else if p = [0, 0] then Some 0x87FFD000 else None)"
proof -
  consider "p = []" | i where "p = [i]" "i < 512" | i j where "p = [i, j]" "i < 512" "j < 512"
    using assms by (cases p rule: remdups_adj.cases) (auto simp: is_path_def)
  then show ?thesis
    by cases (auto simp: node.simps(2) Let_def demo_load demo_link)
qed

lemma demo_tbl: "tbl demo_mem 0x87FFF000 p a \<longleftrightarrow> p = [] \<and> a = 0x87FFF000 \<or> p = [0] \<and> a = 0x87FFE000 \<or> p = [0, 0] \<and> a = 0x87FFD000"
  unfolding tbl_def using demo_node [of p] by (auto simp: is_path_def split: if_splits)

lemma demo_tables: "tables demo_mem 0x87FFF000 = {0x87FFF000, 0x87FFE000, 0x87FFD000}"
  by (auto simp: tables_def demo_tbl)

lemma demo_ok: "vm_ok 0x87FF0000 0x87FFF000 {} demo_vm"
  by (auto simp: vm_ok_def pages_free_def kmem_ready_def demo_vm_def free_list_Nil wf_pt_def demo_tbl)

lemma demo_lookup: "va < MAXVA \<Longrightarrow> pt_lookup demo_mem 0x87FFF000 va = (if vpn va = 0 then PA2PTE 0x87FFC000 OR 0x1F else 0)"
proof -
  assume va: "va < MAXVA"
  have z: "ix l 0 = 0" for l by (simp add: ix_vpn vpn_def)
  have "vpn va = 0 \<longleftrightarrow> ix 2 va = 0 \<and> ix 1 va = 0 \<and> ix 0 va = 0"
    using same_vpn [OF va, of 0] z by (simp add: vpn_def)
  moreover have "is_path [ix 2 va, ix 1 va]" by (simp add: is_path_def)
  ultimately show ?thesis
    by (auto simp: pt_lookup_def demo_node demo_load)
qed

subsection \<open>Properties\<close>

text \<open>
  C5. \<^verbatim>\<open>mappages\<close> maps exactly the pages it is given: on a well-formed table in which the range is
  unmapped it returns, either 0 with the \<open>i\<close>th page of the range mapped to the \<open>i\<close>th frame from \<open>pa\<close> with
  the given permissions, or -1, with only a proper initial part of the range mapped, when no free page is left
  for a table. Every other virtual address keeps its entry, the table stays well formed, the pages
  it takes come from the free list, and no byte outside the tables and the free pages changes.
\<close>

theorem mappages_maps:
  assumes "vm_ok e r S s" "page_aligned va" "page_aligned sz" "0 < sz" "unat va + unat sz \<le> unat MAXVA"
    and "\<forall>va'. va' < MAXVA \<and> vpn va \<le> vpn va' \<and> vpn va' < vpn va + unat sz div 4096 \<longrightarrow> \<not> has (pt_lookup (mem s) r va') PTE_V"
  shows "\<exists>k t S'. vm_step e r S s S' t \<and>
    (\<forall>va' < MAXVA. pt_lookup (mem t) r va' = mapped (vpn va) pa perm k (pt_lookup (mem s) r) va') \<and>
    (mappages r va sz pa perm s = Done 0 t \<and> k = unat sz div 4096 \<or>
     mappages r va sz pa perm s = Done (- 1) t \<and> k < unat sz div 4096 \<and> S' = {})"
proof -
  have "0 < unat sz" using assms(4) by (simp add: word_less_nat_alt)
  moreover have "4096 dvd unat sz" using assms(3) by (simp add: page_aligned_iff_unat)
  ultimately obtain n where n: "unat sz = 4096 * Suc n" by (metis dvdE mult_0_right not_gr0 old.nat.exhaust)
  have "sz = PGSIZE * of_nat (Suc n)"
  proof -
    have "(of_nat (unat sz) :: u64) = of_nat (4096 * Suc n)" by (simp only: n)
    then show ?thesis by simp
  qed
  then have stop: "va + sz - PGSIZE = va + PGSIZE * of_nat n" by (simp add: algebra_simps)
  have run: "mappages r va sz pa perm s = mappages_loop r va (va + sz - PGSIZE) pa perm s"
    using assms(2-4) by (auto simp: mappages_def page_aligned_def)
  show ?thesis
    unfolding run using mappages_loop_maps [OF assms(1) stop, of pa perm] assms(5,6) n
    by (simp add: less_Suc_eq_le)
qed

theorem mappages_maps_witness:
  "\<exists>k t. (\<forall>va' < MAXVA. pt_lookup (mem t) 0x87FFF000 va' = mapped 1 0x87FFB000 0x16 k (pt_lookup demo_mem 0x87FFF000) va') \<and>
     (mappages 0x87FFF000 0x1000 0x1000 0x87FFB000 0x16 demo_vm = Done 0 t \<and> k = 1 \<or>
      mappages 0x87FFF000 0x1000 0x1000 0x87FFB000 0x16 demo_vm = Done (- 1) t \<and> k = 0)"
proof -
  have v1: "vpn 0x1000 = 1" by (simp add: vpn_def)
  have m: "mem demo_vm = demo_mem" by (simp add: demo_vm_def)
  have fresh: "\<forall>va'. va' < MAXVA \<and> vpn 0x1000 \<le> vpn va' \<and> vpn va' < vpn 0x1000 + unat (0x1000 :: u64) div 4096 \<longrightarrow>
      \<not> has (pt_lookup (mem demo_vm) 0x87FFF000 va') PTE_V"
    by (auto simp: m v1 demo_lookup)
  from mappages_maps [OF demo_ok _ _ _ _ fresh, where pa = "0x87FFB000" and perm = "0x16"] show ?thesis
    unfolding v1 m by (simp add: page_aligned_def) metis
qed

text \<open>
  C20. \<^verbatim>\<open>uvmunmap\<close> with \<^verbatim>\<open>do_free\<close> gives back exactly the frames of the range: if the \<open>n\<close> pages from \<open>va\<close> are
  mapped to proper, pairwise different pages that are neither free nor tables, it returns, the range is unmapped,
  every other address keeps its entry, and those frames, no others, join the free list.
\<close>

theorem uvmunmap_returns_frames:
  assumes "vm_ok e r S s" "page_aligned va" "vpn va + n \<le> 2 ^ 26"
    and "\<forall>k \<in> {vpn va..<vpn va + n}. leaf (mem s) r k \<and> page_ok e (frame (mem s) r k)"
    and "frame (mem s) r ` {vpn va..<vpn va + n} \<inter> (S \<union> tables (mem s) r) = {}"
    and "inj_on (frame (mem s) r) {vpn va..<vpn va + n}"
  shows "\<exists>t. uvmunmap r va (of_nat n) True s = Done () t \<and>
    vm_ok e r (S \<union> frame (mem s) r ` {vpn va..<vpn va + n}) t \<and> tables (mem t) r = tables (mem s) r \<and>
    (\<forall>va' < MAXVA. pt_lookup (mem t) r va' =
       (if vpn va \<le> vpn va' \<and> vpn va' < vpn va + n then 0 else pt_lookup (mem s) r va'))"
proof -
  have va: "unat va = 4096 * vpn va"
    using assms(2) by (simp add: page_aligned_iff_unat vpn_def)
  have n: "unat (of_nat n * PGSIZE :: u64) = 4096 * n"
    using unat_pages [of n] assms(3) by (simp add: mult.commute)
  have "unat (va + of_nat n * PGSIZE) = 4096 * (vpn va + n)"
    using assms(3) va n by (simp add: unat_word_ariths)
  then have "uvmunmap r va (of_nat n) True s = uvmunmap_loop r (4096 * vpn va) (4096 * (vpn va + n)) True s"
    using assms(2) va by (simp add: uvmunmap_def page_aligned_def)
  then show ?thesis
    using uvmunmap_frees [OF assms(1,3-6)] by fastforce
qed

theorem uvmunmap_returns_frames_witness:
  "\<exists>t. uvmunmap 0x87FFF000 0 1 True demo_vm = Done () t \<and> vm_ok 0x87FF0000 0x87FFF000 {0x87FFC000} t"
proof -
  have m: "mem demo_vm = demo_mem" by (simp add: demo_vm_def)
  have "pt_lookup demo_mem 0x87FFF000 0 = PA2PTE 0x87FFC000 OR 0x1F"
    using demo_lookup [of 0] by (simp add: vpn_def)
  then have f: "frame demo_mem 0x87FFF000 0 = 0x87FFC000" "leaf demo_mem 0x87FFF000 0"
    using demo_link(3) by (simp_all add: frame_def leaf_def PTE_FLAGS_def has_def PA2PTE_def page_aligned_def)
  have r: "{vpn 0..<vpn 0 + 1} = {0}" by (simp add: vpn_def)
  from uvmunmap_returns_frames [of "0x87FF0000" "0x87FFF000" "{}" demo_vm 0 1, OF demo_ok] show ?thesis
    unfolding r m using f by (simp add: demo_tables page_aligned_def vpn_def)
      (fastforce simp: demo_tables)
qed

lemma demo_user:
  assumes "n < 4096"
  shows "uaddr demo_mem 0x87FFF000 (of_nat n) = 0x87FFC000 + n" "uwritable demo_mem 0x87FFF000 (of_nat n)"
proof -
  have u: "unat (of_nat n :: u64) = n" using assms by (simp add: unat_of_nat take_bit_nat_eq_self)
  then have va: "of_nat n < (MAXVA :: u64)" "vpn (of_nat n) = 0" "unat (of_nat n :: u64) mod 4096 = n"
    using assms by (simp_all only: word_less_nat_alt vpn_def) simp_all
  show "uaddr demo_mem 0x87FFF000 (of_nat n) = 0x87FFC000 + n" "uwritable demo_mem 0x87FFF000 (of_nat n)"
    using va demo_lookup [OF va(1)] demo_link(3) by (simp_all add: uaddr_def uwritable_def upage_def has_def PA2PTE_def)
qed

text \<open>
  C7. What the kernel copies out to user memory is what it copies in again: if the user bytes from \<open>va\<close>
  on are mapped writable to pairwise different addresses outside the tables and the free pages,
  \<^verbatim>\<open>copyout\<close> returns 0 and changes only those bytes, and a later \<^verbatim>\<open>copyin\<close> of the range returns 0 with
  the copied data, however the range crosses page boundaries.
\<close>

theorem copyout_copyin:
  assumes "vm_ok e r S s" "\<forall>k < len. uwritable (mem s) r (va + of_nat k)"
    "\<forall>k < len. uaddr (mem s) r (va + of_nat k) \<notin> span (S \<union> tables (mem s) r)"
    "inj_on (\<lambda>k. uaddr (mem s) r (va + of_nat k)) {..<len}"
  shows "\<exists>t d. copyout r va src soff len s = Done 0 t \<and> copyin r dst doff va len t = Done (0, d) t \<and>
    (\<forall>k < len. d (doff + k) = src (soff + k)) \<and> (\<forall>i. i < doff \<or> doff + len \<le> i \<longrightarrow> d i = dst i) \<and>
    (\<forall>i. i \<notin> (\<lambda>k. uaddr (mem s) r (va + of_nat k)) ` {..<len} \<longrightarrow> mem t i = mem s i)"
proof -
  obtain m where m: "copyout r va src soff len s = Done 0 (s\<lparr>mem := m\<rparr>)"
    "\<forall>k < len. m (uaddr (mem s) r (va + of_nat k)) = src (soff + k)"
    "\<forall>i. i \<notin> (\<lambda>k. uaddr (mem s) r (va + of_nat k)) ` {..<len} \<longrightarrow> m i = mem s i"
    using copyout_writes [OF assms] by blast
  have "\<forall>i \<in> span (S \<union> tables (mem s) r). m i = mem s i"
  proof
    fix i assume i: "i \<in> span (S \<union> tables (mem s) r)"
    have "i \<notin> (\<lambda>k. uaddr (mem s) r (va + of_nat k)) ` {..<len}"
    proof
      assume "i \<in> (\<lambda>k. uaddr (mem s) r (va + of_nat k)) ` {..<len}"
      then obtain k where "k < len" "i = uaddr (mem s) r (va + of_nat k)" by blast
      then show False using assms(3) i by metis
    qed
    then show "m i = mem s i" using m(3) by simp
  qed
  note keep = vm_ok_outside [OF assms(1) this]
  have same: "uaddr m r a = uaddr (mem s) r a" "upage m r a = upage (mem s) r a" for a
    by (intro user_cong keep(2))+
  have "copyin r dst doff va len (s\<lparr>mem := m\<rparr>) = Done (0, \<lambda>i. if doff \<le> i \<and> i < doff + len
      then m (uaddr m r (va + of_nat (i - doff))) else dst i) (s\<lparr>mem := m\<rparr>)"
    using copyin_reads [OF keep(1), of len va dst doff] assms(2) by (simp add: same uwritable_def cong: if_cong)
  then show ?thesis
    using m by (intro exI [of _ "s\<lparr>mem := m\<rparr>"] exI conjI) (auto simp: same simp del: of_nat_diff)
qed

theorem copyout_copyin_witness:
  "\<exists>t d. copyout 0x87FFF000 8 (\<lambda>i. of_nat i) 1 100 demo_vm = Done 0 t \<and>
     copyin 0x87FFF000 (\<lambda>_. 0) 0 8 100 t = Done (0, d) t \<and> d 99 = 100"
proof -
  have m: "mem demo_vm = demo_mem" by (simp add: demo_vm_def)
  have a: "uaddr demo_mem 0x87FFF000 (8 + of_nat k) = 0x87FFC008 + k" "uwritable demo_mem 0x87FFF000 (8 + of_nat k)" if "k < 100" for k
    using demo_user [of "8 + k"] that by simp_all
  from copyout_copyin [OF demo_ok, of 100 8 "\<lambda>i. of_nat i" 1 "\<lambda>_. 0" 0] a show ?thesis
    unfolding m by (auto simp: demo_tables span_def inj_on_def)
qed

end
