(* ===== verification/Proc.thy ===== *)
theory Proc
  imports Vm
begin

unbundle bit_operations_syntax

text \<open>
  The process table of \<^verbatim>\<open>kernel/proc.c\<close> and \<^verbatim>\<open>proc.h\<close>: allocation and freeing of processes, sleeping and
  waking, killing, waiting for children, and the hand-over between a kernel thread and the scheduler. A
  pointer to a process is its index in the table. A function that ends in \<^verbatim>\<open>sched()\<close> has the outcome
  \<open>Swtch\<close>; what it does after the scheduler has switched back to it is the definition with the suffix
  \<open>_resume\<close>. The local variable \<^verbatim>\<open>intena\<close> of \<^verbatim>\<open>sched\<close>, which lives on the kernel stack of the process,
  is a component of the process. \<^verbatim>\<open>fork\<close>, \<^verbatim>\<open>exit\<close> and \<^verbatim>\<open>userinit\<close>, which need files and inodes, are in a
  later theory.
\<close>

subsection \<open>Processes\<close>

datatype procstate = UNUSED | USED | SLEEPING | RUNNABLE | RUNNING | ZOMBIE

datatype channel =
  Ch_proc nat | Ch_ticks | Ch_sleeplock sleeplock_id | Ch_log | Ch_nread u64 | Ch_nwrite u64
| Ch_cons | Ch_uart | Ch_disk_free | Ch_buf nat

record proc =
  pstate :: procstate
  chan :: "channel option"
  pkilled :: int
  xstate :: int
  pid :: int
  parent :: "nat option"
  kstack :: u64
  sz :: u64
  pagetable :: u64
  trapframe :: u64
  ctx_ra :: u64
  ctx_sp :: u64
  ofile :: "nat \<Rightarrow> nat option"
  cwd :: "nat option"
  pname :: bytes
  k_intena :: bool

record pkstate = vmstate +
  procs :: "nat \<Rightarrow> proc"
  nextpid :: int
  initproc :: "nat option"
  ticks :: u32
  link_trampoline :: u64
  link_forkret :: u64

definition get_proc :: "nat \<Rightarrow> ('x pkstate_scheme, proc) thread" where
  "get_proc p = gets (\<lambda>s. procs s p)"

definition set_proc :: "nat \<Rightarrow> (proc \<Rightarrow> proc) \<Rightarrow> ('x pkstate_scheme, unit) thread" where
  "set_proc p f = modify (\<lambda>s. s\<lparr>procs := (procs s)(p := f (procs s p))\<rparr>)"

lemma get_proc_exec [exec_simps]: "get_proc p s = Done (procs s p) s"
  by (simp add: get_proc_def gets_def)

lemma set_proc_exec [exec_simps]: "set_proc p f s = Done () (s\<lparr>procs := (procs s)(p := f (procs s p))\<rparr>)"
  by (simp add: set_proc_def modify_def)

definition procinit :: "('x pkstate_scheme, unit) thread" where
  "procinit =
     seq (initlock Lk_pid ''nextpid'') (
     seq (initlock Lk_wait ''wait_lock'') (
     for_each [0..<NPROC] (\<lambda>p.
       seq (initlock (Lk_proc p) ''proc'')
           (set_proc p (\<lambda>q. q\<lparr>pstate := UNUSED, kstack := KSTACK p\<rparr>)))))"

definition myproc :: "('x kstate_scheme, nat option) thread" where
  "myproc =
     seq push_off (
     bind mycpu (\<lambda>c.
     seq pop_off
         (ret (cpu_proc c))))"

text \<open>Using \<^verbatim>\<open>myproc()\<close> where there is no process is a load from address 0, which traps.\<close>

definition myproc_ref :: "('x kstate_scheme, nat) thread" where
  "myproc_ref = bind myproc (\<lambda>p. case p of None \<Rightarrow> panic ''kerneltrap'' | Some i \<Rightarrow> ret i)"

text \<open>The counter of process numbers is an \<^verbatim>\<open>int\<close>, whose overflow is undefined in C; here it has no bound.\<close>

definition allocpid :: "('x pkstate_scheme, int) thread" where
  "allocpid =
     seq (acquire Lk_pid) (
     bind (gets nextpid) (\<lambda>p.
     seq (modify (\<lambda>s. s\<lparr>nextpid := nextpid s + 1\<rparr>)) (
     seq (release Lk_pid)
         (ret p))))"

definition proc_pagetable :: "nat \<Rightarrow> ('x pkstate_scheme, u64) thread" where
  "proc_pagetable p =
     bind uvmcreate (\<lambda>pt.
     if pt = 0 then ret 0 else
     bind (gets link_trampoline) (\<lambda>trampoline.
     bind (mappages pt TRAMPOLINE PGSIZE trampoline (PTE_R OR PTE_X)) (\<lambda>r.
     if r < 0 then seq (uvmfree pt 0) (ret 0) else
     bind (get_proc p) (\<lambda>q.
     bind (mappages pt TRAPFRAME PGSIZE (trapframe q) (PTE_R OR PTE_W)) (\<lambda>r.
     if r < 0 then
       seq (uvmunmap pt TRAMPOLINE 1 False) (
       seq (uvmfree pt 0)
           (ret 0))
     else ret pt)))))"

definition proc_freepagetable :: "u64 \<Rightarrow> u64 \<Rightarrow> ('x kmstate_scheme, unit) thread" where
  "proc_freepagetable pt usz =
     seq (uvmunmap pt TRAMPOLINE 1 False) (
     seq (uvmunmap pt TRAPFRAME 1 False)
         (uvmfree pt usz))"

definition freeproc :: "nat \<Rightarrow> ('x pkstate_scheme, unit) thread" where
  "freeproc p =
     bind (get_proc p) (\<lambda>q.
     seq (whenM (trapframe q \<noteq> 0) (kfree (trapframe q))) (
     seq (set_proc p (\<lambda>q. q\<lparr>trapframe := 0\<rparr>)) (
     seq (whenM (pagetable q \<noteq> 0) (proc_freepagetable (pagetable q) (sz q)))
         (set_proc p (\<lambda>q. q\<lparr>pagetable := 0, sz := 0, pid := 0, parent := None, pname := (pname q)(0 := 0),
            chan := None, pkilled := 0, xstate := 0, pstate := UNUSED\<rparr>)))))"

text \<open>The search for an unused slot returns with the lock of the slot it found.\<close>

definition find_unused :: "('x pkstate_scheme, nat option) thread" where
  "find_unused = scan [0..<NPROC] (\<lambda>p.
     seq (acquire (Lk_proc p)) (
     bind (get_proc p) (\<lambda>q.
     if pstate q = UNUSED then ret (Some p)
     else seq (release (Lk_proc p)) (ret None))))"

definition allocproc :: "('x pkstate_scheme, nat option) thread" where
  "allocproc =
     bind find_unused (\<lambda>r. case r of
       None \<Rightarrow> ret None
     | Some p \<Rightarrow>
       bind allocpid (\<lambda>n.
       seq (set_proc p (\<lambda>q. q\<lparr>pid := n, pstate := USED\<rparr>)) (
       bind kalloc (\<lambda>tf.
       seq (set_proc p (\<lambda>q. q\<lparr>trapframe := tf\<rparr>)) (
       if tf = 0 then seq (freeproc p) (seq (release (Lk_proc p)) (ret None)) else
       bind (proc_pagetable p) (\<lambda>pt.
       seq (set_proc p (\<lambda>q. q\<lparr>pagetable := pt\<rparr>)) (
       if pt = 0 then seq (freeproc p) (seq (release (Lk_proc p)) (ret None)) else
       bind (gets link_forkret) (\<lambda>forkret.
       seq (set_proc p (\<lambda>q. q\<lparr>ctx_ra := forkret, ctx_sp := kstack q + PGSIZE\<rparr>))
           (ret (Some p))))))))))"

definition growproc :: "int \<Rightarrow> ('x pkstate_scheme, int) thread" where
  "growproc n =
     bind myproc_ref (\<lambda>p.
     bind (get_proc p) (\<lambda>q.
     if n > 0 then
       bind (uvmalloc (pagetable q) (sz q) (sz q + of_int n) PTE_W) (\<lambda>usz.
       if usz = 0 then ret (- 1)
       else seq (set_proc p (\<lambda>q. q\<lparr>sz := usz\<rparr>)) (ret 0))
     else if n < 0 then
       bind (uvmdealloc (pagetable q) (sz q) (sz q + of_int n)) (\<lambda>usz.
       seq (set_proc p (\<lambda>q. q\<lparr>sz := usz\<rparr>)) (ret 0))
     else seq (set_proc p (\<lambda>q. q\<lparr>sz := sz q\<rparr>)) (ret 0)))"

subsection \<open>Sleeping, waking, killing\<close>

definition sched :: "('x pkstate_scheme, unit) thread" where
  "sched =
     bind myproc_ref (\<lambda>p.
     bind (holding (Lk_proc p)) (\<lambda>h. if \<not> h then panic ''sched p->lock'' else
     bind mycpu (\<lambda>c. if noff c \<noteq> 1 then panic ''sched locks'' else
     bind (get_proc p) (\<lambda>q. if pstate q = RUNNING then panic ''sched running'' else
     bind intr_get (\<lambda>i. if i then panic ''sched interruptible'' else
     bind mycpu (\<lambda>c.
     seq (set_proc p (\<lambda>q. q\<lparr>k_intena := intena c\<rparr>))
         (\<lambda>s. Swtch s)))))))"

definition sched_resume :: "nat \<Rightarrow> ('x pkstate_scheme, unit) thread" where
  "sched_resume p = bind (get_proc p) (\<lambda>q. set_mycpu (\<lambda>c. c\<lparr>intena := k_intena q\<rparr>))"

definition yield :: "('x pkstate_scheme, unit) thread" where
  "yield =
     bind myproc_ref (\<lambda>p.
     seq (acquire (Lk_proc p)) (
     seq (set_proc p (\<lambda>q. q\<lparr>pstate := RUNNABLE\<rparr>))
         sched))"

definition yield_resume :: "nat \<Rightarrow> ('x pkstate_scheme, unit) thread" where
  "yield_resume p = seq (sched_resume p) (release (Lk_proc p))"

definition sleep :: "channel \<Rightarrow> lock_id \<Rightarrow> ('x pkstate_scheme, unit) thread" where
  "sleep ch lk =
     bind myproc_ref (\<lambda>p.
     seq (acquire (Lk_proc p)) (
     seq (release lk) (
     seq (set_proc p (\<lambda>q. q\<lparr>chan := Some ch\<rparr>)) (
     seq (set_proc p (\<lambda>q. q\<lparr>pstate := SLEEPING\<rparr>))
         sched))))"

definition sleep_resume :: "nat \<Rightarrow> lock_id \<Rightarrow> ('x pkstate_scheme, unit) thread" where
  "sleep_resume p lk =
     seq (sched_resume p) (
     seq (set_proc p (\<lambda>q. q\<lparr>chan := None\<rparr>)) (
     seq (release (Lk_proc p))
         (acquire lk)))"

definition wake_one :: "channel \<Rightarrow> nat \<Rightarrow> ('x pkstate_scheme, unit) thread" where
  "wake_one ch p =
     seq (acquire (Lk_proc p)) (
     bind (get_proc p) (\<lambda>q.
     seq (whenM (pstate q = SLEEPING \<and> chan q = Some ch) (set_proc p (\<lambda>q. q\<lparr>pstate := RUNNABLE\<rparr>)))
         (release (Lk_proc p))))"

definition wakeup :: "channel \<Rightarrow> ('x pkstate_scheme, unit) thread" where
  "wakeup ch =
     for_each [0..<NPROC] (\<lambda>p.
       bind myproc (\<lambda>me.
       whenM (me \<noteq> Some p) (wake_one ch p)))"

definition kill_one :: "int \<Rightarrow> nat \<Rightarrow> ('x pkstate_scheme, int option) thread" where
  "kill_one n p =
     seq (acquire (Lk_proc p)) (
     bind (get_proc p) (\<lambda>q.
     if pid q = n then
       seq (set_proc p (\<lambda>q. q\<lparr>pkilled := 1\<rparr>)) (
       seq (whenM (pstate q = SLEEPING) (set_proc p (\<lambda>q. q\<lparr>pstate := RUNNABLE\<rparr>))) (
       seq (release (Lk_proc p))
           (ret (Some 0))))
     else seq (release (Lk_proc p)) (ret None)))"

definition kill :: "int \<Rightarrow> ('x pkstate_scheme, int) thread" where
  "kill n = bind (scan [0..<NPROC] (kill_one n)) (\<lambda>r. ret (case r of None \<Rightarrow> - 1 | Some v \<Rightarrow> v))"

definition setkilled :: "nat \<Rightarrow> ('x pkstate_scheme, unit) thread" where
  "setkilled p =
     seq (acquire (Lk_proc p)) (
     seq (set_proc p (\<lambda>q. q\<lparr>pkilled := 1\<rparr>))
         (release (Lk_proc p)))"

definition killed :: "nat \<Rightarrow> ('x pkstate_scheme, int) thread" where
  "killed p =
     seq (acquire (Lk_proc p)) (
     bind (get_proc p) (\<lambda>q.
     seq (release (Lk_proc p))
         (ret (pkilled q))))"

subsection \<open>Children\<close>

text \<open>
  Before the first process is made there is no \<^verbatim>\<open>initproc\<close> and \<^verbatim>\<open>wakeup\<close> would be called with the null pointer, on which nobody sleeps; the same holds
  in \<^verbatim>\<open>exit\<close> for a process with no parent.
\<close>

definition reparent :: "nat \<Rightarrow> ('x pkstate_scheme, unit) thread" where
  "reparent p =
     for_each [0..<NPROC] (\<lambda>pp.
       bind (get_proc pp) (\<lambda>q.
       whenM (parent q = Some p) (
         bind (gets initproc) (\<lambda>ip.
         seq (set_proc pp (\<lambda>q. q\<lparr>parent := ip\<rparr>))
             (case ip of None \<Rightarrow> ret () | Some i \<Rightarrow> wakeup (Ch_proc i))))))"

text \<open>
  The table scan of \<^verbatim>\<open>wait\<close>: \<open>Inl\<close> the value \<^verbatim>\<open>wait\<close> returns, or \<open>Inr havekids\<close>. The exit status is
  copied out as the four bytes of an \<^verbatim>\<open>int\<close>.
\<close>

definition int_bytes :: "int \<Rightarrow> bytes" where
  "int_bytes i = (\<lambda>k. byte_of k (bits32 i))"

primrec wait_scan :: "nat \<Rightarrow> u64 \<Rightarrow> nat list \<Rightarrow> bool \<Rightarrow> ('x pkstate_scheme, int + bool) thread" where
  "wait_scan p addr [] havekids = ret (Inr havekids)"
| "wait_scan p addr (pp # rest) havekids =
     bind (get_proc pp) (\<lambda>q.
     if parent q = Some p then
       seq (acquire (Lk_proc pp)) (
       bind (get_proc pp) (\<lambda>q.
       if pstate q = ZOMBIE then
         bind (get_proc p) (\<lambda>me.
         bind (if addr \<noteq> 0 then copyout (pagetable me) addr (int_bytes (xstate q)) 0 4 else ret 0) (\<lambda>r.
         if r < 0 then
           seq (release (Lk_proc pp)) (
           seq (release Lk_wait)
               (ret (Inl (- 1))))
         else
           seq (freeproc pp) (
           seq (release (Lk_proc pp)) (
           seq (release Lk_wait)
               (ret (Inl (pid q)))))))
       else
         seq (release (Lk_proc pp))
             (wait_scan p addr rest True)))
     else wait_scan p addr rest havekids)"

definition wait_round :: "nat \<Rightarrow> u64 \<Rightarrow> ('x pkstate_scheme, int) thread" where
  "wait_round p addr =
     bind (wait_scan p addr [0..<NPROC] False) (\<lambda>r. case r of
       Inl v \<Rightarrow> ret v
     | Inr havekids \<Rightarrow>
         bind (if \<not> havekids then ret 1 else killed p) (\<lambda>k.
         if k \<noteq> 0 then seq (release Lk_wait) (ret (- 1))
         else seq (sleep (Ch_proc p) Lk_wait) (ret 0)))"

definition wait :: "u64 \<Rightarrow> ('x pkstate_scheme, int) thread" where
  "wait addr =
     bind myproc_ref (\<lambda>p.
     seq (acquire Lk_wait)
         (wait_round p addr))"

definition wait_resume :: "nat \<Rightarrow> u64 \<Rightarrow> ('x pkstate_scheme, int) thread" where
  "wait_resume p addr = seq (sleep_resume p Lk_wait) (wait_round p addr)"

subsection \<open>The scheduler\<close>

text \<open>
  One pass of the inner loop of \<^verbatim>\<open>scheduler\<close> up to the process it switches to, which it returns with the
  lock of the process held, and the part that runs when the process has switched back.
\<close>

definition scheduler_start :: "('x pkstate_scheme, unit) thread" where
  "scheduler_start = seq (set_mycpu (\<lambda>c. c\<lparr>cpu_proc := None\<rparr>)) intr_on"

definition scheduler_scan :: "nat \<Rightarrow> ('x pkstate_scheme, nat option) thread" where
  "scheduler_scan from =
     scan [from..<NPROC] (\<lambda>p.
       seq (acquire (Lk_proc p)) (
       bind (get_proc p) (\<lambda>q.
       if pstate q = RUNNABLE then
         seq (set_proc p (\<lambda>q. q\<lparr>pstate := RUNNING\<rparr>)) (
         seq (set_mycpu (\<lambda>c. c\<lparr>cpu_proc := Some p\<rparr>))
             (ret (Some p)))
       else seq (release (Lk_proc p)) (ret None))))"

definition scheduler_back :: "nat \<Rightarrow> ('x pkstate_scheme, unit) thread" where
  "scheduler_back p =
     seq (set_mycpu (\<lambda>c. c\<lparr>cpu_proc := None\<rparr>))
         (release (Lk_proc p))"

subsection \<open>Copying to and from user or kernel memory\<close>

text \<open>
  A kernel address that \<^verbatim>\<open>either_copyout\<close> writes to is either a physical address or lies in a local variable
  of the caller, which is then passed along as a byte array.
\<close>

datatype copy_dst = To_user u64 | To_kernel u64 | To_local nat

datatype copy_src = From_user u64 | From_kernel u64 | From_local bytes nat

definition either_copyout :: "copy_dst \<Rightarrow> bytes \<Rightarrow> nat \<Rightarrow> nat \<Rightarrow> bytes \<Rightarrow> ('x pkstate_scheme, int \<times> bytes) thread" where
  "either_copyout dst src soff len local =
     bind myproc (\<lambda>p. case dst of
       To_user va \<Rightarrow> (case p of
         None \<Rightarrow> panic ''kerneltrap''
       | Some i \<Rightarrow> bind (get_proc i) (\<lambda>q. bind (copyout (pagetable q) va src soff len) (\<lambda>r. ret (r, local))))
     | To_kernel pa \<Rightarrow> seq (set_mem (blit len src soff (unat pa))) (ret (0, local))
     | To_local off \<Rightarrow> ret (0, blit len src soff off local))"

definition either_copyin :: "bytes \<Rightarrow> nat \<Rightarrow> copy_src \<Rightarrow> nat \<Rightarrow> ('x pkstate_scheme, int \<times> bytes) thread" where
  "either_copyin dst doff src len =
     bind myproc (\<lambda>p. case src of
       From_user va \<Rightarrow> (case p of
         None \<Rightarrow> panic ''kerneltrap''
       | Some i \<Rightarrow> bind (get_proc i) (\<lambda>q. copyin (pagetable q) dst doff va len))
     | From_kernel pa \<Rightarrow> bind (gets mem) (\<lambda>m. ret (0, blit len m (unat pa) doff dst))
     | From_local b off \<Rightarrow> ret (0, blit len b off doff dst))"

subsection \<open>Closed forms\<close>

lemma myproc_exec [exec_simps]:
  assumes "mach_ok (mach s)"
  shows "myproc s = Done (cpu_proc (this_cpu (mach s))) (s\<lparr>mach := settle (mach s)\<rparr>)"
proof -
  let ?c = "this_cpu (mach s)"
  let ?m = "(mach s)\<lparr>cpus := (cpus (mach s))(hart (mach s) := ?c\<lparr>sie := False,
       intena := (if noff ?c = 0 then sie ?c else intena ?c), noff := noff ?c + 1\<rparr>)\<rparr>"
  have "intr_disabled ?m" using assms by (auto simp: intr_disabled_def mach_ok_def)
  then show ?thesis
    using assms by (cases "this_cpu (mach s)")
      (auto simp: myproc_def mycpu_def exec_simps settle_def mach_ok_def fun_upd_def cong: if_cong)
qed

lemma myproc_ref_exec [exec_simps]:
  "mach_ok (mach s) \<Longrightarrow> cpu_proc (this_cpu (mach s)) = Some p \<Longrightarrow> myproc_ref s = Done p (s\<lparr>mach := settle (mach s)\<rparr>)"
  by (simp add: myproc_ref_def exec_simps)

text \<open>The locks of the process table that a thread with process \<open>me\<close> is going to take are free.\<close>

definition table_free :: "nat option \<Rightarrow> machine \<Rightarrow> bool" where
  "table_free me m = (\<forall>p < NPROC. me \<noteq> Some p \<longrightarrow> lk_free (Lk_proc p) m)"

definition woken :: "channel \<Rightarrow> proc \<Rightarrow> proc" where
  "woken ch q = (if pstate q = SLEEPING \<and> chan q = Some ch then q\<lparr>pstate := RUNNABLE\<rparr> else q)"

lemma wake_one_exec [exec_simps]:
  assumes "mach_ok (mach s)" "lk_free (Lk_proc p) (mach s)"
  shows "wake_one ch p s = Done () (s\<lparr>mach := settle (mach s), procs := (procs s)(p := woken ch (procs s p))\<rparr>)"
  using assms by (auto simp: wake_one_def woken_def exec_simps lock_simps)

lemma wakeup_prefix:
  assumes "mach_ok (mach s)" "table_free (cpu_proc (this_cpu (mach s))) (mach s)" "n \<le> NPROC"
  shows "for_each [0..<n] (\<lambda>p. bind myproc (\<lambda>me. whenM (me \<noteq> Some p) (wake_one ch p))) s =
    Done () (if n = 0 then s else s\<lparr>mach := settle (mach s), procs := (\<lambda>p.
      if p < n \<and> cpu_proc (this_cpu (mach s)) \<noteq> Some p then woken ch (procs s p) else procs s p)\<rparr>)"
  using assms(3)
proof (induction n)
  case 0
  then show ?case by (simp add: ret_def)
next
  case (Suc n)
  let ?me = "cpu_proc (this_cpu (mach s))"
  let ?ps = "\<lambda>n p. if p < n \<and> ?me \<noteq> Some p then woken ch (procs s p) else procs s p"
  let ?t = "if n = 0 then s else s\<lparr>mach := settle (mach s), procs := ?ps n\<rparr>"
  have t: "mach_ok (mach ?t)" "cpu_proc (this_cpu (mach ?t)) = ?me" "settle (mach ?t) = settle (mach s)"
    "?me \<noteq> Some n \<Longrightarrow> lk_free (Lk_proc n) (mach ?t)" "procs ?t = ?ps n"
    using assms(1,2) Suc.prems by (auto simp: lock_simps table_free_def)
  have "bind myproc (\<lambda>me. whenM (me \<noteq> Some n) (wake_one ch n)) ?t = Done () (?t\<lparr>mach := settle (mach s), procs := ?ps (Suc n)\<rparr>)"
  proof (cases "?me = Some n")
    case True
    have "?ps (Suc n) = ?ps n" using True by (auto simp: less_Suc_eq)
    then show ?thesis using t True by (simp add: exec_simps)
  next
    case False
    have "?ps (Suc n) = (?ps n)(n := woken ch (?ps n n))" using False by (auto simp: less_Suc_eq)
    then show ?thesis using t False by (simp add: exec_simps lock_simps)
  qed
  then show ?case
    using Suc by (simp add: for_each_append seq_Done ret_def)
qed

lemma wakeup_exec [exec_simps]:
  assumes "mach_ok (mach s)" "table_free (cpu_proc (this_cpu (mach s))) (mach s)"
  shows "wakeup ch s = Done () (s\<lparr>mach := settle (mach s), procs := (\<lambda>p.
      if p < NPROC \<and> cpu_proc (this_cpu (mach s)) \<noteq> Some p then woken ch (procs s p) else procs s p)\<rparr>)"
  using wakeup_prefix [OF assms, of NPROC ch] by (simp add: wakeup_def)

lemma killed_exec [exec_simps]:
  "mach_ok (mach s) \<Longrightarrow> lk_free (Lk_proc p) (mach s) \<Longrightarrow>
   killed p s = Done (pkilled (procs s p)) (s\<lparr>mach := settle (mach s)\<rparr>)"
  by (simp add: killed_def exec_simps lock_simps)

lemma setkilled_exec [exec_simps]:
  "mach_ok (mach s) \<Longrightarrow> lk_free (Lk_proc p) (mach s) \<Longrightarrow>
   setkilled p s = Done () (s\<lparr>mach := settle (mach s), procs := (procs s)(p := (procs s p)\<lparr>pkilled := 1\<rparr>)\<rparr>)"
  by (simp add: setkilled_def exec_simps lock_simps)

definition killed_proc :: "proc \<Rightarrow> proc" where
  "killed_proc q = q\<lparr>pkilled := 1, pstate := (if pstate q = SLEEPING then RUNNABLE else pstate q)\<rparr>"

lemma kill_one_exec:
  assumes "mach_ok (mach s)" "lk_free (Lk_proc k) (mach s)"
  shows "kill_one n k s = (if pid (procs s k) = n
     then Done (Some 0) (s\<lparr>mach := settle (mach s), procs := (procs s)(k := killed_proc (procs s k))\<rparr>)
     else Done None (s\<lparr>mach := settle (mach s)\<rparr>))"
  using assms by (cases "procs s k") (simp add: kill_one_def exec_simps lock_simps killed_proc_def)

lemma kill_exec:
  assumes "mach_ok (mach s)" "table_free None (mach s)"
  shows "(\<And>p. p < NPROC \<Longrightarrow> pid (procs s p) \<noteq> n) \<Longrightarrow> kill n s = Done (- 1) (s\<lparr>mach := settle (mach s)\<rparr>)"
    and "k < NPROC \<Longrightarrow> pid (procs s k) = n \<Longrightarrow> (\<And>p. p < k \<Longrightarrow> pid (procs s p) \<noteq> n) \<Longrightarrow>
      kill n s = Done 0 (s\<lparr>mach := settle (mach s), procs := (procs s)(k := killed_proc (procs s k))\<rparr>)"
proof -
  let ?t = "s\<lparr>mach := settle (mach s)\<rparr>"
  have free: "lk_free (Lk_proc p) (mach s)" if "p < NPROC" for p
    using assms(2) that by (simp add: table_free_def)
  have miss: "kill_one n p s = Done None ?t" "kill_one n p ?t = Done None ?t" if "p < NPROC" "pid (procs s p) \<noteq> n" for p
    using that free [OF that(1)] assms(1) by (simp_all add: kill_one_exec lock_simps)
  show "kill n s = Done (- 1) ?t" if "\<And>p. p < NPROC \<Longrightarrow> pid (procs s p) \<noteq> n"
  proof -
    have "scan [0..<NPROC] (kill_one n) s = Done None ?t"
      by (subst scan_miss [where t = ?t]) (use miss that in simp_all)
    then show ?thesis by (simp add: kill_def bind_Done ret_def)
  qed
  show "kill n s = Done 0 (s\<lparr>mach := settle (mach s), procs := (procs s)(k := killed_proc (procs s k))\<rparr>)"
    if k: "k < NPROC" "pid (procs s k) = n" "\<And>p. p < k \<Longrightarrow> pid (procs s p) \<noteq> n"
  proof -
    have "kill_one n k (if [0..<k] = [] then s else ?t) =
        Done (Some 0) (s\<lparr>mach := settle (mach s), procs := (procs s)(k := killed_proc (procs s k))\<rparr>)"
      using k(2) free [OF k(1)] assms(1) by (auto simp: kill_one_exec lock_simps)
    then have "scan [0..<NPROC] (kill_one n) s = Done (Some 0) (s\<lparr>mach := settle (mach s), procs := (procs s)(k := killed_proc (procs s k))\<rparr>)"
      unfolding upt_split [OF k(1)] by (intro scan_hit [where t = ?t]) (use miss k in simp_all)
    then show ?thesis by (simp add: kill_def bind_Done ret_def)
  qed
qed

text \<open>Going to sleep: the lock is given up, the process is marked, the processor is left.\<close>

lemma sleep_exec:
  assumes "mach_ok (mach s)" "cpu_proc (this_cpu (mach s)) = Some p" "lk_free (Lk_proc p) (mach s)"
    and "lk_held lk (mach s)" "noff (this_cpu (mach s)) = 1" "lk \<noteq> Lk_proc p"
  shows "sleep ch lk s = Swtch (s\<lparr>mach := rel lk (acq (Lk_proc p) (settle (mach s))),
    procs := (procs s)(p := (procs s p)\<lparr>chan := Some ch, pstate := SLEEPING, k_intena := intena (this_cpu (mach s))\<rparr>)\<rparr>)"
proof -
  let ?m = "rel lk (acq (Lk_proc p) (settle (mach s)))"
  have m: "mach_ok ?m" "cpu_proc (this_cpu ?m) = Some p" "lk_held (Lk_proc p) ?m" "noff (this_cpu ?m) = 1"
    "\<not> sie (this_cpu ?m)" "intena (this_cpu ?m) = intena (this_cpu (mach s))" "settle ?m = ?m"
    using assms by (auto simp: rel_def acq_def settle_def mach_ok_def lk_held_def fun_eq_iff split: if_splits)
  have "sched (s\<lparr>mach := ?m, procs := (procs s)(p := (procs s p)\<lparr>chan := Some ch, pstate := SLEEPING\<rparr>)\<rparr>) =
    Swtch (s\<lparr>mach := ?m, procs := (procs s)(p := (procs s p)\<lparr>chan := Some ch, pstate := SLEEPING,
      k_intena := intena (this_cpu (mach s))\<rparr>)\<rparr>)"
    using m by (simp add: sched_def exec_simps holding_def mycpu_def intr_get_def lk_held_def)
  then show ?thesis
    using assms by (simp add: sleep_def exec_simps lock_simps)
qed

subsection \<open>The allocation of processes\<close>

lemma keeps_procs:
  "keeps kmstate.more m \<Longrightarrow> keeps procs m" "keeps kstate.more m \<Longrightarrow> keeps procs m"
proof -
  have "procs t = procs s" if "kmstate.more t = kmstate.more s" for s t :: "'x pkstate_scheme"
    using that by (metis kmstate.surjective pkstate.select_convs(1) vmstate.surjective pkstate.surjective vmstate.select_convs(3) kmstate.select_convs(4))
  then show km: "keeps kmstate.more m \<Longrightarrow> keeps procs m" for m :: "('x pkstate_scheme, 'b) thread"
    unfolding keeps_def by blast
  show "keeps kstate.more m \<Longrightarrow> keeps procs m"
    by (intro km keeps_of_kstate)
qed

lemma keeps_procs_ops [keeps_intros]:
  "keeps procs (acquire l)" "keeps procs (release l)" "keeps procs (get_proc p)" "keeps procs find_unused"
  "keeps procs allocpid" "keeps procs kalloc" "keeps procs (proc_pagetable p)"
proof -
  show l: "keeps procs (acquire l)" "keeps procs (release l)" for l
    by (intro keeps_procs(2) keeps_intros)+
  show g: "keeps procs (get_proc p)" for p
    by (simp add: get_proc_def keeps_gets)
  show "keeps procs find_unused" "keeps procs allocpid"
    unfolding find_unused_def allocpid_def by (intro keeps_intros l g keeps_modify; simp)+
  show "keeps procs kalloc"
    by (intro keeps_procs(1) keeps_intros)
  show "keeps procs (proc_pagetable p)"
    unfolding proc_pagetable_def by (intro keeps_bind keeps_if keeps_ret keeps_seq g keeps_gets keeps_procs(1) keeps_intros)
qed

lemma allocproc_pkilled:
  assumes "allocproc s = Done (Some p) t"
  shows "pkilled (procs t p) = pkilled (procs s p)"
proof -
  obtain s1 n s2 tf s3 pt s4 where
    "find_unused s = Done (Some p) s1" "allocpid s1 = Done n s2"
    "kalloc (s2\<lparr>procs := (procs s2)(p := (procs s2 p)\<lparr>pid := n, pstate := USED\<rparr>)\<rparr>) = Done tf s3"
    "proc_pagetable p (s3\<lparr>procs := (procs s3)(p := (procs s3 p)\<lparr>trapframe := tf\<rparr>)\<rparr>) = Done pt s4"
    "pkilled (procs t p) = pkilled (procs s4 p)"
    using assms
    by (auto simp: allocproc_def bind_eq_Done_iff seq_eq_Done_iff ret_def gets_def set_proc_def modify_def
        split: option.splits if_splits)
  then show ?thesis
    using keepsD [OF keeps_procs_ops(4)] keepsD [OF keeps_procs_ops(5)] keepsD [OF keeps_procs_ops(6)]
      keepsD [OF keeps_procs_ops(7)] by fastforce
qed

subsection \<open>Handing over the processor\<close>

lemma scheduler_back_exec:
  assumes "lk_held (Lk_proc p) (mach s)" "intr_disabled (mach s)"
  shows "scheduler_back p s = Done () (s\<lparr>mach := rel (Lk_proc p) ((mach s)\<lparr>cpus := (cpus (mach s))(hart (mach s) :=
    (this_cpu (mach s))\<lparr>cpu_proc := None\<rparr>)\<rparr>)\<rparr>)"
  using assms by (simp add: scheduler_back_def set_mycpu_def exec_simps lk_held_def intr_disabled_def)

lemma sleep_resume_exec:
  assumes "lk_held (Lk_proc p) (mach s)" "intr_disabled (mach s)" "noff (this_cpu (mach s)) = 1" "lk_free lk (mach s)"
  defines "m \<equiv> (mach s)\<lparr>cpus := (cpus (mach s))(hart (mach s) := (this_cpu (mach s))\<lparr>intena := k_intena (procs s p)\<rparr>)\<rparr>"
  shows "sleep_resume p lk s = Done () (s\<lparr>mach := acq lk (rel (Lk_proc p) m),
    procs := (procs s)(p := (procs s p)\<lparr>chan := None\<rparr>)\<rparr>)"
proof -
  have "lk \<noteq> Lk_proc p" using assms(1,4) by (auto simp: lk_held_def lk_free_def)
  then have "lk_free lk (rel (Lk_proc p) m)" "lk_held (Lk_proc p) m" "intr_disabled m"
    using assms by (simp_all add: lk_free_def rel_def lk_held_def intr_disabled_def)
  then show ?thesis
    unfolding m_def by (simp add: sleep_resume_def sched_resume_def set_mycpu_def exec_simps)
qed

subsection \<open>Properties\<close>

text \<open>
  C27. \<^verbatim>\<open>wakeup(chan)\<close> makes runnable exactly the processes asleep on that channel (other than the caller):
  it returns, no process stays asleep on the channel, nothing else about any process changes, and all
  locks are as before.
\<close>

theorem wakeup_exact:
  assumes "mach_ok (mach s)" "table_free (cpu_proc (this_cpu (mach s))) (mach s)"
  shows "\<exists>t. wakeup ch s = Done () t \<and> locks (mach t) = locks (mach s) \<and>
    (\<forall>p < NPROC. cpu_proc (this_cpu (mach s)) \<noteq> Some p \<longrightarrow>
      \<not> (pstate (procs t p) = SLEEPING \<and> chan (procs t p) = Some ch) \<and>
      procs t p = (procs s p)\<lparr>pstate := (if pstate (procs s p) = SLEEPING \<and> chan (procs s p) = Some ch
        then RUNNABLE else pstate (procs s p))\<rparr>) \<and>
    (\<forall>p. p \<ge> NPROC \<or> cpu_proc (this_cpu (mach s)) = Some p \<longrightarrow> procs t p = procs s p)"
  using wakeup_exec [OF assms, of ch] by (auto simp: woken_def lock_simps)

text \<open>An idle machine with a process table in which process 3 sleeps on the ticks.\<close>

definition demo_proc :: proc where
  "demo_proc = \<lparr>pstate = UNUSED, chan = None, pkilled = 0, xstate = 0, pid = 0, parent = None, kstack = 0, sz = 0,
     pagetable = 0, trapframe = 0, ctx_ra = 0, ctx_sp = 0, ofile = (\<lambda>_. None), cwd = None, pname = (\<lambda>_. 0),
     k_intena = False\<rparr>"

definition demo_procs :: "nat \<Rightarrow> proc" where
  "demo_procs = (\<lambda>_. demo_proc)(1 := demo_proc\<lparr>pstate := RUNNING, pid := 1\<rparr>,
     3 := demo_proc\<lparr>pstate := SLEEPING, chan := Some Ch_ticks, pid := 7\<rparr>)"

definition demo_pk :: "machine \<Rightarrow> pkstate" where
  "demo_pk m = \<lparr>mach = m, mem = (\<lambda>_. 0), kend = 0x87FF0000, freelist = 0, kernel_pagetable = 0, satp = (\<lambda>_. 0),
     procs = demo_procs, nextpid = 8, initproc = Some 1, ticks = 0, link_trampoline = 0, link_forkret = 0\<rparr>"

theorem wakeup_exact_witness:
  "\<exists>t. wakeup Ch_ticks (demo_pk idle_machine) = Done () t \<and> pstate (procs t 3) = RUNNABLE \<and> pstate (procs t 1) = RUNNING"
  using wakeup_exact [of "demo_pk idle_machine" Ch_ticks]
  by (auto simp: demo_pk_def table_free_def idle_machine_def demo_procs_def mach_ok_def lk_free_def demo_proc_def)

text \<open>
  C28. \<^verbatim>\<open>kill(pid)\<close> marks the first process with that number as killed, wakes it if it sleeps, leaves every
  other process alone and returns 0; if no process has the number it changes nothing and returns -1.
\<close>

theorem kill_exact:
  assumes "mach_ok (mach s)" "table_free None (mach s)"
  shows "((\<forall>p < NPROC. pid (procs s p) \<noteq> n) \<longrightarrow> kill n s = Done (- 1) (s\<lparr>mach := settle (mach s)\<rparr>)) \<and>
    (k < NPROC \<and> pid (procs s k) = n \<and> (\<forall>p < k. pid (procs s p) \<noteq> n) \<longrightarrow>
      kill n s = Done 0 (s\<lparr>mach := settle (mach s), procs := (procs s)(k := (procs s k)\<lparr>pkilled := 1,
        pstate := (if pstate (procs s k) = SLEEPING then RUNNABLE else pstate (procs s k))\<rparr>)\<rparr>))"
  using kill_exec [OF assms] by (auto simp: killed_proc_def)

theorem kill_exact_witness:
  "kill 9 (demo_pk idle_machine) = Done (- 1) (demo_pk (settle idle_machine)) \<and>
   (\<exists>t. kill 7 (demo_pk idle_machine) = Done 0 t \<and> pkilled (procs t 3) = 1 \<and> pstate (procs t 3) = RUNNABLE)"
proof -
  have ok: "mach_ok (mach (demo_pk idle_machine))" "table_free None (mach (demo_pk idle_machine))"
    by (simp_all add: demo_pk_def table_free_def)
  have "kill 9 (demo_pk idle_machine) = Done (- 1) (demo_pk (settle idle_machine))"
    using kill_exact [OF ok, of 9] by (auto simp: demo_pk_def demo_procs_def demo_proc_def)
  moreover have "\<forall>p < 3. pid (procs (demo_pk idle_machine) p) \<noteq> 7"
    by (auto simp: demo_pk_def demo_procs_def demo_proc_def)
  then have "\<exists>t. kill 7 (demo_pk idle_machine) = Done 0 t \<and> pkilled (procs t 3) = 1 \<and> pstate (procs t 3) = RUNNABLE"
    using kill_exact [OF ok, of 7 3] by (simp add: demo_pk_def demo_procs_def demo_proc_def)
  ultimately show ?thesis by blast
qed

lemma scheduler_scan_exec:
  assumes "mach_ok (mach s)" "lk_free (Lk_proc p) (mach s)" "pstate (procs s p) = RUNNABLE" "p < NPROC"
  shows "scheduler_scan p s = Done (Some p) (s\<lparr>mach := (acq (Lk_proc p) (mach s))\<lparr>cpus := (cpus (acq (Lk_proc p) (mach s)))(
      hart (mach s) := (this_cpu (acq (Lk_proc p) (mach s)))\<lparr>cpu_proc := Some p\<rparr>)\<rparr>,
    procs := (procs s)(p := (procs s p)\<lparr>pstate := RUNNING\<rparr>)\<rparr>)"
  using assms by (simp add: scheduler_scan_def upt_conv_Cons exec_simps lock_simps set_mycpu_def)

text \<open>
  C12. A full cycle of \<^verbatim>\<open>sleep\<close>: a process that holds only the lock \<open>lk\<close> and sleeps on a channel leaves the
  processor with \<open>lk\<close> free, and once the scheduler has it the process is asleep with its own lock free
  too; a \<^verbatim>\<open>wakeup\<close> of the channel then makes it runnable, the scheduler can choose it, and when it resumes it
  returns from \<^verbatim>\<open>sleep\<close> running, with \<open>lk\<close> held again, no channel, and the interrupt state it had. No step
  panics.
\<close>

theorem sleep_cycle:
  assumes "mach_ok (mach s)" "cpu_proc (this_cpu (mach s)) = Some p" "p < NPROC" "table_free None (mach s)"
    and "lk_held lk (mach s)" "noff (this_cpu (mach s)) = 1" "\<forall>q. lk \<noteq> Lk_proc q"
  shows "\<exists>t u w v x. sleep ch lk s = Swtch t \<and> lk_free lk (mach t) \<and>
    scheduler_back p t = Done () u \<and> lk_free lk (mach u) \<and> table_free None (mach u) \<and>
    pstate (procs u p) = SLEEPING \<and> chan (procs u p) = Some ch \<and>
    wakeup ch u = Done () w \<and> pstate (procs w p) = RUNNABLE \<and>
    scheduler_scan p w = Done (Some p) v \<and>
    sleep_resume p lk v = Done () x \<and> lk_held lk (mach x) \<and> lk_free (Lk_proc p) (mach x) \<and>
    pstate (procs x p) = RUNNING \<and> chan (procs x p) = None \<and> noff (this_cpu (mach x)) = 1 \<and>
    intena (this_cpu (mach x)) = intena (this_cpu (mach s))"
proof -
  have lp: "lk_free (Lk_proc p) (mach s)" using assms(3,4) by (simp add: table_free_def)
  obtain t where t: "sleep ch lk s = Swtch t" "mach t = rel lk (acq (Lk_proc p) (settle (mach s)))"
    "procs t = (procs s)(p := (procs s p)\<lparr>chan := Some ch, pstate := SLEEPING, k_intena := intena (this_cpu (mach s))\<rparr>)"
    using sleep_exec [OF assms(1,2) lp assms(5,6)] assms(7) by auto
  have mt: "lk_held (Lk_proc p) (mach t)" "intr_disabled (mach t)" "noff (this_cpu (mach t)) = 1" "lk_free lk (mach t)"
    "\<And>q. q \<noteq> p \<Longrightarrow> locks (mach t) (Lk_proc q) = locks (mach s) (Lk_proc q)"
    using assms lp by (auto simp: t(2) rel_def acq_def settle_def lk_held_def lk_free_def intr_disabled_def mach_ok_def)
  obtain u where u: "scheduler_back p t = Done () u" "procs u = procs t"
    "mach u = rel (Lk_proc p) ((mach t)\<lparr>cpus := (cpus (mach t))(hart (mach t) := (this_cpu (mach t))\<lparr>cpu_proc := None\<rparr>)\<rparr>)"
    using scheduler_back_exec [OF mt(1,2)] by simp
  have mu: "mach_ok (mach u)" "cpu_proc (this_cpu (mach u)) = None" "table_free None (mach u)" "lk_free lk (mach u)"
    "noff (this_cpu (mach u)) = 0"
    using mt assms(4,7) by (auto simp: u(3) rel_def mach_ok_def table_free_def lk_free_def lk_held_def intr_disabled_def)
  obtain w where w: "wakeup ch u = Done () w" "mach w = settle (mach u)" "procs w p = woken ch (procs u p)"
    using wakeup_exec [of u ch] mu assms(3) by auto
  have pw: "pstate (procs w p) = RUNNABLE" "k_intena (procs w p) = intena (this_cpu (mach s))"
    by (simp_all add: w(3) u(2) t(3) woken_def)
  have mw: "mach_ok (mach w)" "lk_free (Lk_proc p) (mach w)" "lk_free lk (mach w)" "noff (this_cpu (mach w)) = 0"
    using mu assms(3) by (simp_all add: w(2) lock_simps table_free_def)
  obtain v where v: "scheduler_scan p w = Done (Some p) v"
    "mach v = (acq (Lk_proc p) (mach w))\<lparr>cpus := (cpus (acq (Lk_proc p) (mach w)))(
       hart (mach w) := (this_cpu (acq (Lk_proc p) (mach w)))\<lparr>cpu_proc := Some p\<rparr>)\<rparr>"
    "procs v p = (procs w p)\<lparr>pstate := RUNNING\<rparr>"
    using scheduler_scan_exec [OF mw(1,2) pw(1) assms(3)] by simp
  have mv: "lk_held (Lk_proc p) (mach v)" "intr_disabled (mach v)" "noff (this_cpu (mach v)) = 1" "lk_free lk (mach v)"
    using mw assms(7) by (auto simp: v(2) acq_def lk_held_def lk_free_def intr_disabled_def)
  have "\<exists>x. sleep_resume p lk v = Done () x \<and> lk_held lk (mach x) \<and> lk_free (Lk_proc p) (mach x) \<and>
      pstate (procs x p) = RUNNING \<and> chan (procs x p) = None \<and> noff (this_cpu (mach x)) = 1 \<and>
      intena (this_cpu (mach x)) = intena (this_cpu (mach s))"
    using assms(7) mv pw(2) unfolding sleep_resume_exec [OF mv]
    by (auto simp: v(3) acq_def rel_def lk_held_def lk_free_def)
  then show ?thesis
    using t(1) mt(4) u mu w(1) pw(1) v(1) t(3) by (auto simp: t(3))
qed

text \<open>The machine with process 1 running on hart 0.\<close>

definition busy_machine :: machine where
  "busy_machine = idle_machine\<lparr>cpus := (cpus idle_machine)(0 := (cpus idle_machine 0)\<lparr>cpu_proc := Some 1\<rparr>)\<rparr>"

lemma busy_machine_simps [simp]:
  "hart busy_machine = 0" "mach_ok busy_machine" "cpu_proc (cpus busy_machine 0) = Some 1" "lk_free l busy_machine"
  "noff (cpus busy_machine h) = 0"
  by (simp_all add: busy_machine_def idle_machine_def mach_ok_def lk_free_def)

theorem sleep_cycle_witness:
  "\<exists>t v (x :: pkstate). sleep Ch_ticks Lk_ticks (demo_pk (acq Lk_ticks busy_machine)) = Swtch t \<and> lk_free Lk_ticks (mach t) \<and>
     sleep_resume 1 Lk_ticks v = Done () x \<and> lk_held Lk_ticks (mach x) \<and> pstate (procs x 1) = RUNNING"
proof -
  let ?s = "demo_pk (acq Lk_ticks busy_machine)"
  have m: "mach ?s = acq Lk_ticks busy_machine" by (simp add: demo_pk_def)
  have s: "mach_ok (mach ?s)" "cpu_proc (this_cpu (mach ?s)) = Some 1" "(1 :: nat) < NPROC" "table_free None (mach ?s)"
    "lk_held Lk_ticks (mach ?s)" "noff (this_cpu (mach ?s)) = 1" "\<forall>q. Lk_ticks \<noteq> Lk_proc q"
    using noff_acq [of Lk_ticks busy_machine] by (simp_all add: m lock_simps table_free_def)
  from sleep_cycle [OF s, of Ch_ticks] show ?thesis by blast
qed

text \<open>
  C39. A process can be born killed. An unused slot has process number 0, so \<^verbatim>\<open>kill(0)\<close> finds the first
  unused slot, marks it as killed and returns 0; \<^verbatim>\<open>allocproc\<close> does not reset the mark, so a process that is
  then created in the slot starts out killed.
\<close>

theorem kill_zero_marks_unused:
  assumes "mach_ok (mach s)" "table_free None (mach s)" "k < NPROC" "pstate (procs s k) = UNUSED"
    and "pid (procs s k) = 0" "\<forall>p < k. pid (procs s p) \<noteq> 0"
  shows "\<exists>t. kill 0 s = Done 0 t \<and> pstate (procs t k) = UNUSED \<and> pkilled (procs t k) = 1 \<and>
    (\<forall>u. allocproc t = Done (Some k) u \<longrightarrow> pkilled (procs u k) = 1)"
  using kill_exec(2) [OF assms(1-3,5)] assms(4,6) by (auto simp: killed_proc_def dest: allocproc_pkilled)

theorem kill_zero_marks_unused_witness:
  "\<exists>t. kill 0 (demo_pk idle_machine) = Done 0 t \<and> pstate (procs t 0) = UNUSED \<and> pkilled (procs t 0) = 1"
  using kill_zero_marks_unused [of "demo_pk idle_machine" 0]
  by (auto simp: demo_pk_def table_free_def demo_procs_def demo_proc_def)

end
