(* ===== verification/Sleeplock.thy ===== *)
theory Sleeplock
  imports Proc
begin

text \<open>
  \<^verbatim>\<open>kernel/sleeplock.c\<close>: locks whose waiters give up the processor. The closed forms are for a quiet
  kernel: the thread has a process and no spinlock is taken at the moment of the call. \<open>outside\<close> is the part
  of the state that the operations on sleep-locks leave alone; of the other processes only the
  scheduling state changes.
\<close>

record sleeplock =
  sl_locked :: bool
  sl_pid :: int

record slstate = pkstate +
  sleeplocks :: "sleeplock_id \<Rightarrow> sleeplock"

definition set_sl :: "sleeplock_id \<Rightarrow> sleeplock \<Rightarrow> ('x slstate_scheme, unit) thread" where
  "set_sl l k = modify (\<lambda>s. s\<lparr>sleeplocks := (sleeplocks s)(l := k)\<rparr>)"

lemma set_sl_exec [exec_simps]: "set_sl l k s = Done () (s\<lparr>sleeplocks := (sleeplocks s)(l := k)\<rparr>)"
  by (simp add: set_sl_def modify_def)

definition initsleeplock :: "sleeplock_id \<Rightarrow> ('x slstate_scheme, unit) thread" where
  "initsleeplock l =
     seq (initlock (Lk_sleep l) ''sleep lock'')
         (set_sl l \<lparr>sl_locked = False, sl_pid = 0\<rparr>)"

text \<open>The loop of \<^verbatim>\<open>acquiresleep\<close>, from its test on; a resumed waiter runs it again.\<close>

definition acquiresleep_loop :: "sleeplock_id \<Rightarrow> ('x slstate_scheme, unit) thread" where
  "acquiresleep_loop l =
     bind (gets (\<lambda>s. sl_locked (sleeplocks s l))) (\<lambda>k.
     if k then sleep (Ch_sleeplock l) (Lk_sleep l)
     else
       seq (modify (\<lambda>s. s\<lparr>sleeplocks := (sleeplocks s)(l := (sleeplocks s l)\<lparr>sl_locked := True\<rparr>)\<rparr>)) (
       bind myproc_ref (\<lambda>p.
       bind (get_proc p) (\<lambda>q.
       seq (modify (\<lambda>s. s\<lparr>sleeplocks := (sleeplocks s)(l := (sleeplocks s l)\<lparr>sl_pid := pid q\<rparr>)\<rparr>))
           (release (Lk_sleep l))))))"

definition acquiresleep :: "sleeplock_id \<Rightarrow> ('x slstate_scheme, unit) thread" where
  "acquiresleep l = seq (acquire (Lk_sleep l)) (acquiresleep_loop l)"

definition acquiresleep_resume :: "nat \<Rightarrow> sleeplock_id \<Rightarrow> ('x slstate_scheme, unit) thread" where
  "acquiresleep_resume p l = seq (sleep_resume p (Lk_sleep l)) (acquiresleep_loop l)"

definition releasesleep :: "sleeplock_id \<Rightarrow> ('x slstate_scheme, unit) thread" where
  "releasesleep l =
     seq (acquire (Lk_sleep l)) (
     seq (set_sl l \<lparr>sl_locked = False, sl_pid = 0\<rparr>) (
     seq (wakeup (Ch_sleeplock l))
         (release (Lk_sleep l))))"

definition holdingsleep :: "sleeplock_id \<Rightarrow> ('x slstate_scheme, bool) thread" where
  "holdingsleep l =
     seq (acquire (Lk_sleep l)) (
     bind (gets (\<lambda>s. sleeplocks s l)) (\<lambda>k.
     bind (if sl_locked k then bind myproc_ref (\<lambda>p. bind (get_proc p) (\<lambda>q. ret (sl_pid k = pid q))) else ret False) (\<lambda>r.
     seq (release (Lk_sleep l))
         (ret r))))"

subsection \<open>A quiet kernel\<close>

definition quiet :: "nat \<Rightarrow> 'x pkstate_scheme \<Rightarrow> bool" where
  "quiet p s = (mach_ok (mach s) \<and> (\<forall>l. lk_free l (mach s)) \<and> cpu_proc (this_cpu (mach s)) = Some p)"

text \<open>A process up to its scheduling state.\<close>

definition at_rest :: "proc \<Rightarrow> proc" where
  "at_rest q = q\<lparr>pstate := UNUSED\<rparr>"

definition outside :: "'x slstate_scheme \<Rightarrow> _" where
  "outside s = (mem s, kend s, freelist s, kernel_pagetable s, satp s, (\<lambda>p. at_rest (procs s p)), nextpid s, initproc s,
     ticks s, link_trampoline s, link_forkret s, slstate.more s)"

lemma quietD:
  "quiet p s \<Longrightarrow> mach_ok (mach s)" "quiet p s \<Longrightarrow> lk_free l (mach s)"
  "quiet p s \<Longrightarrow> cpu_proc (this_cpu (mach s)) = Some p"
  by (simp_all add: quiet_def)

lemma quiet_settle [simp]: "mach t = settle (mach s) \<Longrightarrow> quiet p t = quiet p s"
  by (simp add: quiet_def lock_simps)

lemma at_rest_woken [simp]: "at_rest (woken ch q) = at_rest q"
  by (simp add: at_rest_def woken_def)

lemma outside_pid: "outside t = outside s \<Longrightarrow> pid (procs t p) = pid (procs s p) \<and> procs t p = (procs s p)\<lparr>pstate := pstate (procs t p)\<rparr>"
proof -
  assume "outside t = outside s"
  then have "at_rest (procs t p) = at_rest (procs s p)" by (simp add: outside_def fun_eq_iff)
  then show ?thesis by (cases "procs t p"; cases "procs s p") (simp add: at_rest_def)
qed

lemma table_free_quiet: "quiet p s \<Longrightarrow> table_free me (mach s)"
  by (simp add: table_free_def quiet_def)

lemma acquiresleep_exec [exec_simps]:
  assumes "quiet p s" "\<not> sl_locked (sleeplocks s l)"
  shows "acquiresleep l s = Done () (s\<lparr>mach := settle (mach s),
    sleeplocks := (sleeplocks s)(l := \<lparr>sl_locked = True, sl_pid = pid (procs s p)\<rparr>)\<rparr>)"
  using assms(2) quietD [OF assms(1)]
  by (cases "sleeplocks s l") (simp add: acquiresleep_def acquiresleep_loop_def exec_simps lock_simps)

lemma holdingsleep_exec [exec_simps]:
  assumes "quiet p s"
  shows "holdingsleep l s = Done (sl_locked (sleeplocks s l) \<and> sl_pid (sleeplocks s l) = pid (procs s p))
    (s\<lparr>mach := settle (mach s)\<rparr>)"
  using quietD [OF assms] by (simp add: holdingsleep_def exec_simps lock_simps)

lemma releasesleep_exec [exec_simps]:
  assumes "quiet p s"
  shows "releasesleep l s = Done () (s\<lparr>
    sleeplocks := (sleeplocks s)(l := \<lparr>sl_locked = False, sl_pid = 0\<rparr>),
    procs := (\<lambda>q. if q < NPROC \<and> p \<noteq> q then woken (Ch_sleeplock l) (procs s q) else procs s q),
    mach := settle (mach s)\<rparr>)"
proof -
  have "table_free (Some p) (acq (Lk_sleep l) (mach s))"
    using assms by (simp add: table_free_def lock_simps quiet_def)
  then show ?thesis
    using quietD [OF assms] by (simp add: releasesleep_def exec_simps lock_simps cong: if_cong)
qed

text \<open>A waiter for a taken lock goes to sleep on the lock; it holds no spinlock then but its own.\<close>

lemma acquiresleep_waits:
  assumes "quiet p s" "sl_locked (sleeplocks s l)" "noff (this_cpu (mach s)) = 0"
  shows "\<exists>t. acquiresleep l s = Swtch t \<and> pstate (procs t p) = SLEEPING \<and> chan (procs t p) = Some (Ch_sleeplock l) \<and>
    lk_free (Lk_sleep l) (mach t) \<and> sleeplocks t = sleeplocks s"
proof -
  let ?s = "s\<lparr>mach := acq (Lk_sleep l) (mach s)\<rparr>"
  have "acquiresleep l s = sleep (Ch_sleeplock l) (Lk_sleep l) ?s"
    using assms quietD [OF assms(1)] by (simp add: acquiresleep_def acquiresleep_loop_def exec_simps)
  moreover have "sleep (Ch_sleeplock l) (Lk_sleep l) ?s = Swtch (?s\<lparr>mach := rel (Lk_sleep l) (acq (Lk_proc p) (settle (mach ?s))),
    procs := (procs ?s)(p := (procs ?s p)\<lparr>chan := Some (Ch_sleeplock l), pstate := SLEEPING, k_intena := intena (this_cpu (mach ?s))\<rparr>)\<rparr>)"
    by (rule sleep_exec) (use assms quietD [OF assms(1)] noff_acq [of "Lk_sleep l" "mach s"] in \<open>simp_all add: lock_simps\<close>)
  ultimately show ?thesis
    by (simp add: lk_free_def rel_def)
qed

end
