(* ===== verification/Bio.thy ===== *)
theory Bio
  imports Sleeplock
begin

text \<open>
  \<^verbatim>\<open>kernel/bio.c\<close>: the cache of disk blocks. Buffers are numbered; the list of recently used buffers is
  kept in the arrays \<open>bnext\<close> and \<open>bprev\<close>, with number \<open>NBUF\<close> for the list head. The disk is a function from
  block numbers to contents, together with the sequence of writes made to it. \<open>disk_rw\<close> is what a
  call of \<^verbatim>\<open>virtio_disk_rw\<close> amounts to for the cache once the device has answered: one transfer of a
  block. \<open>cur\<close> is the reference view: the current contents of a block, cached or not.
\<close>

abbreviation (input) BSIZE :: nat where "BSIZE \<equiv> 1024"
abbreviation (input) HEAD :: nat where "HEAD \<equiv> NBUF"

subsection \<open>Doubly linked rings\<close>

fun lpath :: "('a \<Rightarrow> 'a) \<Rightarrow> 'a \<Rightarrow> 'a list \<Rightarrow> 'a \<Rightarrow> bool" where
  "lpath f a [] b = (f a = b)"
| "lpath f a (x # xs) b = (f a = x \<and> lpath f x xs b)"

text \<open>Following links from \<open>b\<close> until the head or an element with \<open>P\<close>; \<open>None\<close> when the steps run out.\<close>

fun chase :: "nat \<Rightarrow> ('a \<Rightarrow> 'a) \<Rightarrow> 'a \<Rightarrow> ('a \<Rightarrow> bool) \<Rightarrow> 'a \<Rightarrow> 'a option option" where
  "chase 0 f h P b = None"
| "chase (Suc n) f h P b = (if b = h then Some None else if P b then Some (Some b) else chase n f h P (f b))"

definition linked_ring :: "('a \<Rightarrow> 'a) \<Rightarrow> ('a \<Rightarrow> 'a) \<Rightarrow> 'a \<Rightarrow> 'a list \<Rightarrow> bool" where
  "linked_ring nxt prv h xs = (lpath nxt h xs h \<and> lpath prv h (rev xs) h \<and> distinct (h # xs))"

lemma path_append: "lpath f a (xs @ y # ys) b \<longleftrightarrow> lpath f a xs y \<and> lpath f y ys b"
  by (induction xs arbitrary: a) auto

lemma path_upd: "u \<noteq> a \<Longrightarrow> u \<notin> set xs \<Longrightarrow> lpath (f(u := v)) a xs b \<longleftrightarrow> lpath f a xs b"
  by (induction xs arbitrary: a) auto

lemma path_redirect: "lpath f a xs b \<Longrightarrow> distinct (a # xs) \<Longrightarrow> lpath (f(last (a # xs) := c)) a xs c"
proof (induction xs arbitrary: a)
  case (Cons x xs)
  then have "a \<noteq> last (x # xs)" by (metis distinct.simps(2) last_in_set list.discI)
  then show ?case using Cons by simp
qed simp

lemma path_first: "lpath f a xs b \<Longrightarrow> f a = hd (xs @ [b])"
  by (cases xs) auto

lemma path_last: "lpath f a (rev xs) b \<Longrightarrow> f a = last (b # xs)"
  by (cases xs rule: rev_cases) auto

lemma chase_find: "lpath f a xs h \<Longrightarrow> h \<notin> set xs \<Longrightarrow> length xs < n \<Longrightarrow> chase n f h P (f a) = Some (find P xs)"
proof (induction xs arbitrary: a n)
  case Nil
  then show ?case by (cases n) auto
next
  case (Cons x xs)
  then show ?case by (cases n) auto
qed

lemma path_unlink:
  assumes "lpath f h (ys @ b # zs) h" "distinct (h # ys @ b # zs)"
  shows "lpath (f(last (h # ys) := f b)) h (ys @ zs) h"
proof -
  have y: "lpath f h ys b" and z: "lpath f b zs h" using assms(1) by (auto simp: path_append)
  have d: "distinct (h # ys)" using assms(2) by auto
  let ?f = "f(last (h # ys) := f b)"
  have y': "lpath ?f h ys (f b)" by (rule path_redirect [OF y d])
  show ?thesis
  proof (cases zs)
    case Nil
    then show ?thesis using y' z by simp
  next
    case (Cons x xs)
    have "last (h # ys) \<notin> set (x # xs)"
      using assms(2) Cons last_in_set [of "h # ys"] by auto
    then have "lpath ?f x xs h" using z Cons by (subst path_upd) auto
    then show ?thesis using y' z Cons by (simp add: path_append)
  qed
qed

lemma path_insert:
  assumes "lpath f h xs h" "distinct (h # xs)" "b \<noteq> h" "b \<notin> set xs"
  shows "lpath (f(b := f h, h := b)) h (b # xs) h"
proof (cases xs)
  case Nil
  then show ?thesis using assms by simp
next
  case (Cons x ys)
  then have "lpath (f(b := f h, h := b)) x ys h"
    using assms by (subst path_upd, simp, simp, subst path_upd) auto
  then show ?thesis using assms Cons by simp
qed

text \<open>The four pointer updates of \<^verbatim>\<open>brelse\<close> move an element to the front.\<close>

lemma ring_unlink:
  assumes "linked_ring nxt prv h (ys @ b # zs)"
  shows "linked_ring (nxt(prv b := nxt b)) (prv(nxt b := prv b)) h (ys @ zs)"
proof -
  have p: "lpath nxt h (ys @ b # zs) h" "lpath prv h (rev zs @ b # rev ys) h" "distinct (h # ys @ b # zs)"
    using assms by (auto simp: linked_ring_def)
  have "lpath prv b (rev ys) h" "lpath nxt b zs h" using p by (auto simp: path_append)
  then have l: "prv b = last (h # ys)" "nxt b = last (h # rev zs)"
    using path_last [of prv b ys h] path_last [of nxt b "rev zs" h] by auto
  have "lpath (nxt(prv b := nxt b)) h (ys @ zs) h"
    unfolding l(1) by (rule path_unlink [OF p(1,3)])
  moreover have "lpath (prv(nxt b := prv b)) h (rev zs @ rev ys) h"
    unfolding l(2) by (rule path_unlink [OF p(2)]) (use p(3) in auto)
  ultimately show ?thesis
    using p(3) by (auto simp: linked_ring_def)
qed

lemma ring_insert:
  assumes "linked_ring nxt prv h xs" "b \<noteq> h" "b \<notin> set xs"
  shows "linked_ring (nxt(b := nxt h, h := b)) (prv(b := h, nxt h := b)) h (b # xs)"
proof -
  have p: "lpath nxt h xs h" "lpath prv h (rev xs) h" "distinct (h # xs)"
    using assms by (auto simp: linked_ring_def)
  have f: "nxt h = last (h # rev xs)" using path_last [of nxt h "rev xs" h] p(1) by simp
  have "lpath (prv(last (h # rev xs) := b)) h (rev xs) b"
    by (rule path_redirect [OF p(2)]) (use p(3) in auto)
  then have "lpath (prv(nxt h := b)) h (rev xs) b" by (simp only: f)
  then have "lpath (prv(nxt h := b, b := h)) h (rev xs) b"
    using assms(2,3) by (subst path_upd) auto
  moreover have "nxt h \<noteq> b" using f assms(2,3) last_in_set [of "h # rev xs"] by auto
  ultimately have "lpath (prv(b := h, nxt h := b)) h (rev xs @ [b]) h"
    by (simp add: path_append fun_upd_twist)
  then show ?thesis
    using path_insert [OF p(1,3) assms(2,3)] p(3) assms(2,3) by (simp add: linked_ring_def)
qed

subsection \<open>Buffers\<close>

record buf =
  bvalid :: bool
  bdisk :: bool
  bdev :: nat
  bblockno :: nat
  brefcnt :: nat
  bdata :: bytes

record bstate = slstate +
  bufs :: "nat \<Rightarrow> buf"
  bnext :: "nat \<Rightarrow> nat"
  bprev :: "nat \<Rightarrow> nat"
  disk :: "nat \<Rightarrow> bytes"
  dtrace :: "(nat \<times> bytes) list"

text \<open>Increment and decrement of a C \<^verbatim>\<open>uint\<close>.\<close>

definition inc32 :: "nat \<Rightarrow> nat" where
  "inc32 n = (n + 1) mod 2 ^ 32"

definition dec32 :: "nat \<Rightarrow> nat" where
  "dec32 n = (if n = 0 then 2 ^ 32 - 1 else n - 1)"

text \<open>The bytes of a block.\<close>

definition trunc :: "bytes \<Rightarrow> bytes" where
  "trunc d = (\<lambda>i. if i < BSIZE then d i else 0)"

definition set_buf :: "nat \<Rightarrow> (buf \<Rightarrow> buf) \<Rightarrow> ('x bstate_scheme, unit) thread" where
  "set_buf b f = modify (\<lambda>s. s\<lparr>bufs := (bufs s)(b := f (bufs s b))\<rparr>)"

definition get_buf :: "nat \<Rightarrow> ('x bstate_scheme, buf) thread" where
  "get_buf b = gets (\<lambda>s. bufs s b)"

lemma set_buf_exec [exec_simps]: "set_buf b f s = Done () (s\<lparr>bufs := (bufs s)(b := f (bufs s b))\<rparr>)"
  by (simp add: set_buf_def modify_def)

lemma get_buf_exec [exec_simps]: "get_buf b s = Done (bufs s b) s"
  by (simp add: get_buf_def gets_def)

definition disk_rw :: "nat \<Rightarrow> bool \<Rightarrow> ('x bstate_scheme, unit) thread" where
  "disk_rw b wrt = modify (\<lambda>s.
     let n = bblockno (bufs s b) in
     if wrt then s\<lparr>disk := (disk s)(n := blit BSIZE (bdata (bufs s b)) 0 0 (disk s n)),
                   dtrace := dtrace s @ [(n, trunc (bdata (bufs s b)))]\<rparr>
     else s\<lparr>bufs := (bufs s)(b := (bufs s b)\<lparr>bdata := blit BSIZE (disk s n) 0 0 (bdata (bufs s b))\<rparr>)\<rparr>)"

subsection \<open>bio.c\<close>

definition set_next :: "nat \<Rightarrow> nat \<Rightarrow> ('x bstate_scheme, unit) thread" where
  "set_next a b = modify (\<lambda>s. s\<lparr>bnext := (bnext s)(a := b)\<rparr>)"

definition set_prev :: "nat \<Rightarrow> nat \<Rightarrow> ('x bstate_scheme, unit) thread" where
  "set_prev a b = modify (\<lambda>s. s\<lparr>bprev := (bprev s)(a := b)\<rparr>)"

definition insert_head :: "nat \<Rightarrow> ('x bstate_scheme, unit) thread" where
  "insert_head b =
     bind (gets (\<lambda>s. bnext s HEAD)) (\<lambda>first.
     seq (set_next b first) (
     seq (set_prev b HEAD) (
     bind (gets (\<lambda>s. bnext s HEAD)) (\<lambda>first.
     seq (set_prev first b)
         (set_next HEAD b)))))"

definition binit :: "('x bstate_scheme, unit) thread" where
  "binit =
     seq (initlock Lk_bcache ''bcache'') (
     seq (set_prev HEAD HEAD) (
     seq (set_next HEAD HEAD) (
     for_each [0..<NBUF] (\<lambda>b.
       seq (initsleeplock (SL_buf b)) (insert_head b)))))"

definition bget :: "nat \<Rightarrow> nat \<Rightarrow> ('x bstate_scheme, nat) thread" where
  "bget dev blockno =
     seq (acquire Lk_bcache) (
     bind (gets (\<lambda>s. chase (NBUF + 1) (bnext s) HEAD
         (\<lambda>b. bdev (bufs s b) = dev \<and> bblockno (bufs s b) = blockno) (bnext s HEAD))) (\<lambda>r. case r of
       None \<Rightarrow> spin
     | Some (Some b) \<Rightarrow>
         seq (set_buf b (\<lambda>x. x\<lparr>brefcnt := inc32 (brefcnt x)\<rparr>)) (
         seq (release Lk_bcache) (
         seq (acquiresleep (SL_buf b))
             (ret b)))
     | Some None \<Rightarrow>
         bind (gets (\<lambda>s. chase (NBUF + 1) (bprev s) HEAD (\<lambda>b. brefcnt (bufs s b) = 0) (bprev s HEAD))) (\<lambda>r. case r of
           None \<Rightarrow> spin
         | Some None \<Rightarrow> panic ''bget: no buffers''
         | Some (Some b) \<Rightarrow>
             seq (set_buf b (\<lambda>x. x\<lparr>bvalid := False, bdev := dev, bblockno := blockno, brefcnt := 1\<rparr>)) (
             seq (release Lk_bcache) (
             seq (acquiresleep (SL_buf b))
                 (ret b))))))"

definition bread :: "nat \<Rightarrow> nat \<Rightarrow> ('x bstate_scheme, nat) thread" where
  "bread dev blockno =
     bind (bget dev blockno) (\<lambda>b.
     bind (get_buf b) (\<lambda>x.
     seq (whenM (\<not> bvalid x)
            (seq (disk_rw b False) (set_buf b (\<lambda>x. x\<lparr>bvalid := True\<rparr>))))
         (ret b)))"

definition bwrite :: "nat \<Rightarrow> ('x bstate_scheme, unit) thread" where
  "bwrite b = bind (holdingsleep (SL_buf b)) (\<lambda>h. if \<not> h then panic ''bwrite'' else disk_rw b True)"

definition brelse :: "nat \<Rightarrow> ('x bstate_scheme, unit) thread" where
  "brelse b =
     bind (holdingsleep (SL_buf b)) (\<lambda>h. if \<not> h then panic ''brelse'' else
     seq (releasesleep (SL_buf b)) (
     seq (acquire Lk_bcache) (
     seq (set_buf b (\<lambda>x. x\<lparr>brefcnt := dec32 (brefcnt x)\<rparr>)) (
     bind (get_buf b) (\<lambda>x.
     seq (whenM (brefcnt x = 0) (
            bind (gets (\<lambda>s. (bnext s b, bprev s b))) (\<lambda>(n, p).
            seq (set_prev n p) (
            seq (set_next p n)
                (insert_head b)))))
         (release Lk_bcache))))))"

definition bpin :: "nat \<Rightarrow> ('x bstate_scheme, unit) thread" where
  "bpin b =
     seq (acquire Lk_bcache) (
     seq (set_buf b (\<lambda>x. x\<lparr>brefcnt := inc32 (brefcnt x)\<rparr>))
         (release Lk_bcache))"

definition bunpin :: "nat \<Rightarrow> ('x bstate_scheme, unit) thread" where
  "bunpin b =
     seq (acquire Lk_bcache) (
     seq (set_buf b (\<lambda>x. x\<lparr>brefcnt := dec32 (brefcnt x)\<rparr>))
         (release Lk_bcache))"

end
