(* ===== verification/Bio_Spec.thy ===== *)
theory Bio_Spec
  imports Bio
begin

text \<open>
  What the buffer cache promises a thread that runs while no other kernel thread is in the cache. \<open>bio p P s\<close> is
  its invariant, for the process \<open>p\<close> and the set \<open>P\<close> of blocks that the log has pinned: the buffers
  form one ring, no block of the disk is cached twice, a buffer that is neither locked nor pinned agrees
  with the disk, and the reference counts are exactly the lock and the pin. \<open>cur s n\<close> is the current
  contents of block \<open>n\<close> and \<open>holds s\<close> the blocks whose buffers are locked.
\<close>

subsection \<open>The invariant\<close>

definition cached :: "'x bstate_scheme \<Rightarrow> nat \<Rightarrow> nat option" where
  "cached s n = find (\<lambda>b. bdev (bufs s b) = ROOTDEV \<and> bblockno (bufs s b) = n) [0..<NBUF]"

definition cur :: "'x bstate_scheme \<Rightarrow> nat \<Rightarrow> bytes" where
  "cur s n = (case cached s n of None \<Rightarrow> trunc (disk s n) | Some b \<Rightarrow> trunc (bdata (bufs s b)))"

definition blocked :: "'x bstate_scheme \<Rightarrow> nat \<Rightarrow> bool" where
  "blocked s b = sl_locked (sleeplocks s (SL_buf b))"

definition holds :: "'x bstate_scheme \<Rightarrow> nat set" where
  "holds s = {n. \<exists>b < NBUF. blocked s b \<and> bblockno (bufs s b) = n}"

definition buf_ok :: "nat \<Rightarrow> nat set \<Rightarrow> 'x bstate_scheme \<Rightarrow> nat \<Rightarrow> bool" where
  "buf_ok p P s b = (let x = bufs s b in
     (bdev x = 0 \<or> bdev x = ROOTDEV) \<and> (bdev x = ROOTDEV \<longrightarrow> bvalid x) \<and>
     (blocked s b \<longrightarrow> bdev x = ROOTDEV \<and> sl_pid (sleeplocks s (SL_buf b)) = pid (procs s p)) \<and>
     brefcnt x = of_bool (blocked s b) + of_bool (bdev x = ROOTDEV \<and> bblockno x \<in> P) \<and>
     (bdev x = ROOTDEV \<and> \<not> blocked s b \<and> bblockno x \<notin> P \<longrightarrow> trunc (bdata x) = trunc (disk s (bblockno x))))"

definition bufs_unique :: "'x bstate_scheme \<Rightarrow> bool" where
  "bufs_unique s = (\<forall>b < NBUF. \<forall>c < NBUF. bdev (bufs s b) = ROOTDEV \<and> bdev (bufs s c) = ROOTDEV \<and>
     bblockno (bufs s b) = bblockno (bufs s c) \<longrightarrow> b = c)"

definition lru :: "'x bstate_scheme \<Rightarrow> nat list \<Rightarrow> bool" where
  "lru s xs = (linked_ring (bnext s) (bprev s) HEAD xs \<and> set xs = {..<NBUF})"

definition bio :: "nat \<Rightarrow> nat set \<Rightarrow> 'x bstate_scheme \<Rightarrow> bool" where
  "bio p P s = (quiet p s \<and> (\<exists>xs. lru s xs) \<and> bufs_unique s \<and> (\<forall>b < NBUF. buf_ok p P s b) \<and>
     (\<forall>n \<in> P. cached s n \<noteq> None))"

text \<open>The part of the state that the cache leaves alone.\<close>

definition beyond :: "'x bstate_scheme \<Rightarrow> _" where
  "beyond s = (mem s, kend s, freelist s, kernel_pagetable s, satp s, (\<lambda>p. at_rest (procs s p)), nextpid s, initproc s,
     ticks s, link_trampoline s, link_forkret s, (\<lambda>i. sleeplocks s (SL_inode i)), bstate.more s)"

lemma trunc_trunc [simp]: "trunc (trunc d) = trunc d"
  by (simp add: trunc_def fun_eq_iff)

lemma trunc_blit [simp]: "trunc (blit BSIZE a 0 0 b) = trunc a"
  by (simp add: trunc_def blit_def fun_eq_iff)

lemma find_upt_Some:
  "find P [0..<n] = Some b \<Longrightarrow> b < n \<and> P b"
  by (auto simp: find_Some_iff)

lemma find_upt_unique:
  assumes "\<And>b c. b < n \<Longrightarrow> c < n \<Longrightarrow> P b \<Longrightarrow> P c \<Longrightarrow> b = c" "b < n" "P b"
  shows "find P [0..<n] = Some b"
proof -
  have "\<not> P j" if "j < b" for j
    using assms(1) [of j b] assms(2,3) that by auto
  then show ?thesis
    using assms(2,3) by (auto simp: find_Some_iff intro!: exI [of _ b])
qed

lemma cached_Some: "cached s n = Some b \<Longrightarrow> b < NBUF \<and> bdev (bufs s b) = ROOTDEV \<and> bblockno (bufs s b) = n"
  unfolding cached_def by (drule find_upt_Some) simp

lemma cached_eq:
  "bufs_unique s \<Longrightarrow> b < NBUF \<Longrightarrow> bdev (bufs s b) = ROOTDEV \<Longrightarrow> cached s (bblockno (bufs s b)) = Some b"
  unfolding cached_def by (rule find_upt_unique) (auto simp: bufs_unique_def)

lemma cached_None: "cached s n = None \<longleftrightarrow> (\<forall>b < NBUF. bdev (bufs s b) = ROOTDEV \<longrightarrow> bblockno (bufs s b) \<noteq> n)"
  by (auto simp: cached_def find_None_iff)

lemma cur_eq: "bufs_unique s \<Longrightarrow> b < NBUF \<Longrightarrow> bdev (bufs s b) = ROOTDEV \<Longrightarrow> cur s (bblockno (bufs s b)) = trunc (bdata (bufs s b))"
  by (simp add: cur_def cached_eq)

lemma cur_cong:
  assumes "\<And>b. b < NBUF \<Longrightarrow> bdev (bufs t b) = bdev (bufs s b) \<and> bblockno (bufs t b) = bblockno (bufs s b)"
    "\<And>b. cached s n = Some b \<Longrightarrow> trunc (bdata (bufs t b)) = trunc (bdata (bufs s b))"
    "cached s n = None \<Longrightarrow> trunc (disk t n) = trunc (disk s n)"
  shows "cached t n = cached s n" "cur t n = cur s n"
proof -
  show c: "cached t n = cached s n"
    unfolding cached_def by (rule find_cong) (use assms(1) in auto)
  show "cur t n = cur s n"
    using assms(2,3) by (auto simp: cur_def c split: option.split)
qed

lemma bioD:
  assumes "bio p P s"
  shows "quiet p s" "bufs_unique s" "b < NBUF \<Longrightarrow> buf_ok p P s b" "\<exists>xs. lru s xs" "n \<in> P \<Longrightarrow> cached s n \<noteq> None"
  using assms by (auto simp: bio_def)

lemma buf_okD:
  assumes "buf_ok p P s b"
  shows "bdev (bufs s b) = 0 \<or> bdev (bufs s b) = ROOTDEV" "bdev (bufs s b) = ROOTDEV \<Longrightarrow> bvalid (bufs s b)"
    "blocked s b \<Longrightarrow> bdev (bufs s b) = ROOTDEV" "blocked s b \<Longrightarrow> sl_pid (sleeplocks s (SL_buf b)) = pid (procs s p)"
    "brefcnt (bufs s b) = of_bool (blocked s b) + of_bool (bdev (bufs s b) = ROOTDEV \<and> bblockno (bufs s b) \<in> P)"
    "bdev (bufs s b) = ROOTDEV \<Longrightarrow> \<not> blocked s b \<Longrightarrow> bblockno (bufs s b) \<notin> P \<Longrightarrow>
      trunc (bdata (bufs s b)) = trunc (disk s (bblockno (bufs s b)))"
  using assms by (auto simp: buf_ok_def Let_def)

lemma holds_locked: "b < NBUF \<Longrightarrow> blocked s b \<Longrightarrow> bblockno (bufs s b) \<in> holds s"
  by (auto simp: holds_def)

text \<open>A buffer that is free exists as long as fewer than \<open>NBUF\<close> blocks are locked or pinned.\<close>

lemma spare_buffer:
  assumes "bio p P s" "finite P" "card (P \<union> holds s) < NBUF"
  shows "\<exists>b < NBUF. brefcnt (bufs s b) = 0"
proof (rule ccontr)
  assume no: "\<not> (\<exists>b < NBUF. brefcnt (bufs s b) = 0)"
  have dev: "bdev (bufs s b) = ROOTDEV \<and> bblockno (bufs s b) \<in> P \<union> holds s" if "b < NBUF" for b
    using no that buf_okD(3,5) [OF bioD(3) [OF assms(1) that]] holds_locked [OF that] by (auto simp: of_bool_def split: if_splits)
  have "inj_on (\<lambda>b. bblockno (bufs s b)) {..<NBUF}"
    using bioD(2) [OF assms(1)] dev by (auto simp: inj_on_def bufs_unique_def)
  moreover have "finite (holds s)"
  proof -
    have "holds s \<subseteq> (\<lambda>b. bblockno (bufs s b)) ` {..<NBUF}" by (auto simp: holds_def)
    then show ?thesis by (rule finite_subset) simp
  qed
  ultimately have "card {..<NBUF} \<le> card (P \<union> holds s)"
    using dev assms(2) by (intro card_inj_on_le) auto
  then show False using assms(3) by simp
qed

subsection \<open>Reading a block\<close>

lemma chase_lru:
  assumes "lru s xs"
  shows "chase (NBUF + 1) (bnext s) HEAD P (bnext s HEAD) = Some (find P xs)"
    and "chase (NBUF + 1) (bprev s) HEAD P (bprev s HEAD) = Some (find P (rev xs))"
proof -
  have d: "distinct xs" "set xs = {..<NBUF}" "NBUF \<notin> set xs" using assms by (auto simp: lru_def linked_ring_def)
  then have len: "length xs = NBUF" by (metis card_lessThan distinct_card)
  have p: "lpath (bnext s) HEAD xs HEAD" "lpath (bprev s) HEAD (rev xs) HEAD"
    using assms by (simp_all only: lru_def linked_ring_def)
  show "chase (NBUF + 1) (bnext s) HEAD P (bnext s HEAD) = Some (find P xs)"
    by (rule chase_find [OF p(1) d(3)]) (simp add: len)
  show "chase (NBUF + 1) (bprev s) HEAD P (bprev s HEAD) = Some (find P (rev xs))"
    by (rule chase_find [OF p(2)]) (use d(3) len in simp_all)
qed

lemma find_SomeD: "find P xs = Some b \<Longrightarrow> b \<in> set xs \<and> P b"
  by (auto simp: find_Some_iff)

lemma find_in_set:
  assumes "\<And>b c. b \<in> set xs \<Longrightarrow> c \<in> set xs \<Longrightarrow> P b \<Longrightarrow> P c \<Longrightarrow> b = c" "b \<in> set xs" "P b"
  shows "find P xs = Some b"
proof (cases "find P xs")
  case None
  then show ?thesis using assms(2,3) by (simp add: find_None_iff)
next
  case (Some c)
  then have "c \<in> set xs" "P c" by (auto simp: find_Some_iff)
  then show ?thesis using Some assms by auto
qed

lemma bread_cached:
  assumes inv: "bio p P s" and b: "cached s n = Some b" and free: "n \<notin> holds s"
  shows "bread ROOTDEV n s = Done b (s\<lparr>bufs := (bufs s)(b := (bufs s b)\<lparr>brefcnt := inc32 (brefcnt (bufs s b))\<rparr>),
    mach := settle (mach s), sleeplocks := (sleeplocks s)(SL_buf b := \<lparr>sl_locked = True, sl_pid = pid (procs s p)\<rparr>)\<rparr>)"
proof -
  note q = quietD [OF bioD(1) [OF inv]]
  have b': "b < NBUF" "bdev (bufs s b) = ROOTDEV" "bblockno (bufs s b) = n" using cached_Some [OF b] by auto
  obtain xs where xs: "lru s xs" using bioD(4) [OF inv] by blast
  have f: "find (\<lambda>b. bdev (bufs s b) = ROOTDEV \<and> bblockno (bufs s b) = n) xs = Some b"
    using xs b' bioD(2) [OF inv] by (intro find_in_set) (auto simp: lru_def bufs_unique_def)
  let ?u = "s\<lparr>bufs := (bufs s)(b := (bufs s b)\<lparr>brefcnt := inc32 (brefcnt (bufs s b))\<rparr>), mach := settle (mach s)\<rparr>"
  have nl: "\<not> sl_locked (sleeplocks s (SL_buf b))"
    using free b' holds_locked [of b s] by (auto simp: blocked_def)
  have quiet_u: "quiet p ?u" using bioD(1) [OF inv] by simp
  have v: "bvalid (bufs s b)" using buf_okD(2) [OF bioD(3) [OF inv b'(1)]] b' by simp
  have "bget ROOTDEV n s = Done b (?u\<lparr>mach := settle (mach ?u),
      sleeplocks := (sleeplocks s)(SL_buf b := \<lparr>sl_locked = True, sl_pid = pid (procs s p)\<rparr>)\<rparr>)"
    using q nl acquiresleep_exec [OF quiet_u, of "SL_buf b"]
    by (simp add: bget_def exec_simps lock_simps chase_lru(1) [OF xs, simplified] f [unfolded One_nat_def])
  then show ?thesis
    using v by (simp add: bread_def exec_simps lock_simps)
qed

lemma bread_recycles:
  assumes inv: "bio p P s" and none: "cached s n = None" and xs: "lru s xs"
    and fb: "find (\<lambda>b. brefcnt (bufs s b) = 0) (rev xs) = Some b"
  shows "bread ROOTDEV n s = Done b (s\<lparr>
    bufs := (bufs s)(b := (bufs s b)\<lparr>bdev := ROOTDEV, bblockno := n, brefcnt := 1,
      bdata := blit BSIZE (disk s n) 0 0 (bdata (bufs s b)), bvalid := True\<rparr>),
    mach := settle (mach s), sleeplocks := (sleeplocks s)(SL_buf b := \<lparr>sl_locked = True, sl_pid = pid (procs s p)\<rparr>)\<rparr>)"
proof -
  note q = quietD [OF bioD(1) [OF inv]]
  have f: "find (\<lambda>b. bdev (bufs s b) = ROOTDEV \<and> bblockno (bufs s b) = n) xs = None"
    using none xs unfolding cached_None find_None_iff lru_def by auto
  have b: "brefcnt (bufs s b) = 0" "b < NBUF"
    using xs find_SomeD [OF fb] by (simp_all add: lru_def)
  let ?x = "(bufs s b)\<lparr>bvalid := False, bdev := ROOTDEV, bblockno := n, brefcnt := 1\<rparr>"
  let ?u = "s\<lparr>bufs := (bufs s)(b := ?x), mach := settle (mach s)\<rparr>"
  have nl: "\<not> sl_locked (sleeplocks s (SL_buf b))"
    using buf_okD(5) [OF bioD(3) [OF inv b(2)]] b(1) by (simp add: blocked_def)
  have quiet_u: "quiet p ?u" using bioD(1) [OF inv] by simp
  let ?v = "?u\<lparr>mach := settle (mach ?u),
      sleeplocks := (sleeplocks s)(SL_buf b := \<lparr>sl_locked = True, sl_pid = pid (procs s p)\<rparr>)\<rparr>"
  have "bget ROOTDEV n s = Done b ?v"
    using q nl acquiresleep_exec [OF quiet_u, of "SL_buf b"]
    by (simp add: bget_def exec_simps lock_simps chase_lru [OF xs, simplified] f [unfolded One_nat_def] fb)
  then show ?thesis
    by (cases "bufs s b") (simp add: bread_def disk_rw_def exec_simps lock_simps)
qed

lemma bread_uncached:
  assumes inv: "bio p P s" and none: "cached s n = None" and spare: "\<exists>b < NBUF. brefcnt (bufs s b) = 0"
  shows "\<exists>b < NBUF. brefcnt (bufs s b) = 0 \<and> bread ROOTDEV n s = Done b (s\<lparr>
    bufs := (bufs s)(b := (bufs s b)\<lparr>bdev := ROOTDEV, bblockno := n, brefcnt := 1,
      bdata := blit BSIZE (disk s n) 0 0 (bdata (bufs s b)), bvalid := True\<rparr>),
    mach := settle (mach s), sleeplocks := (sleeplocks s)(SL_buf b := \<lparr>sl_locked = True, sl_pid = pid (procs s p)\<rparr>)\<rparr>)"
proof -
  obtain xs where xs: "lru s xs" using bioD(4) [OF inv] by blast
  obtain b where fb: "find (\<lambda>b. brefcnt (bufs s b) = 0) (rev xs) = Some b"
    using spare xs find_None_iff [of "\<lambda>b. brefcnt (bufs s b) = 0" "rev xs"] by (auto simp: lru_def)
  then have "brefcnt (bufs s b) = 0" "b < NBUF"
    using xs find_SomeD [OF fb] by (simp_all add: lru_def)
  then show ?thesis using bread_recycles [OF inv none xs fb] by blast
qed

subsection \<open>The operations as specifications\<close>

text \<open>A step that changes one buffer keeps the invariant if it does so for that buffer.\<close>

lemma bio_update:
  assumes inv: "bio p P s" and t: "quiet p t" "\<exists>xs. lru t xs" "pid (procs t p) = pid (procs s p)"
    and others: "\<And>c. c < NBUF \<Longrightarrow> c \<noteq> b \<Longrightarrow> bufs t c = bufs s c \<and> sleeplocks t (SL_buf c) = sleeplocks s (SL_buf c)"
    and disk: "\<And>c. c < NBUF \<Longrightarrow> c \<noteq> b \<Longrightarrow> bdev (bufs s c) = ROOTDEV \<Longrightarrow>
      trunc (disk t (bblockno (bufs s c))) = trunc (disk s (bblockno (bufs s c))) \<and>
      (bblockno (bufs s c) \<in> P' \<longleftrightarrow> bblockno (bufs s c) \<in> P)"
    and b: "b < NBUF" "buf_ok p P' t b"
    and uniq: "\<And>c. c < NBUF \<Longrightarrow> c \<noteq> b \<Longrightarrow> bdev (bufs t b) = ROOTDEV \<Longrightarrow> bdev (bufs s c) = ROOTDEV \<Longrightarrow>
      bblockno (bufs s c) \<noteq> bblockno (bufs t b)"
    and pins: "\<And>n. n \<in> P' \<Longrightarrow> cached t n \<noteq> None"
  shows "bio p P' t"
proof -
  have "buf_ok p P' t c" if c: "c < NBUF" for c
  proof (cases "c = b")
    case False
    then show ?thesis
      using bioD(3) [OF inv c] others [OF c False] disk [OF c False] t(3)
      unfolding buf_ok_def blocked_def Let_def by auto
  qed (use b in simp)
  moreover have "bufs_unique t"
    unfolding bufs_unique_def
  proof (intro allI impI)
    fix c d assume cd: "c < NBUF" "d < NBUF" "bdev (bufs t c) = ROOTDEV \<and> bdev (bufs t d) = ROOTDEV \<and> bblockno (bufs t c) = bblockno (bufs t d)"
    show "c = d"
    proof (cases "c = b \<or> d = b")
      case True
      then show ?thesis using cd others [OF cd(1)] others [OF cd(2)] uniq [OF cd(1)] uniq [OF cd(2)] by metis
    next
      case False
      then show ?thesis using cd others [OF cd(1)] others [OF cd(2)] bioD(2) [OF inv] unfolding bufs_unique_def by auto
    qed
  qed
  ultimately show ?thesis using t(1,2) pins by (simp add: bio_def)
qed

definition keeps_held :: "nat \<Rightarrow> 'x bstate_scheme \<Rightarrow> 'x bstate_scheme \<Rightarrow> bool" where
  "keeps_held b s t = (\<forall>c < NBUF. blocked s c \<and> c \<noteq> b \<longrightarrow> blocked t c \<and> bufs t c = bufs s c)"

text \<open>After \<^verbatim>\<open>bread\<close> of block \<open>n\<close> returned buffer \<open>b\<close>, and after \<^verbatim>\<open>brelse\<close> of \<open>b\<close>.\<close>

definition got :: "nat \<Rightarrow> nat set \<Rightarrow> 'x bstate_scheme \<Rightarrow> nat \<Rightarrow> nat \<Rightarrow> 'x bstate_scheme \<Rightarrow> bool" where
  "got p P s n b t = (bio p P t \<and> beyond t = beyond s \<and> disk t = disk s \<and> dtrace t = dtrace s \<and>
     (\<forall>m. cur t m = cur s m) \<and> b < NBUF \<and> \<not> blocked s b \<and> blocked t b \<and> bblockno (bufs t b) = n \<and>
     trunc (bdata (bufs t b)) = cur s n \<and> holds t = insert n (holds s) \<and> keeps_held b s t)"

definition gone :: "nat \<Rightarrow> nat set \<Rightarrow> 'x bstate_scheme \<Rightarrow> nat \<Rightarrow> 'x bstate_scheme \<Rightarrow> bool" where
  "gone p P s b t = (bio p P t \<and> beyond t = beyond s \<and> disk t = disk s \<and> dtrace t = dtrace s \<and>
     (\<forall>m. cur t m = cur s m) \<and> holds t = holds s - {bblockno (bufs s b)} \<and> keeps_held b s t)"

lemma lru_cong: "bnext t = bnext s \<Longrightarrow> bprev t = bprev s \<Longrightarrow> lru t xs = lru s xs"
  by (simp add: lru_def)

lemma holds_insert:
  assumes "\<And>c. c < NBUF \<Longrightarrow> c \<noteq> b \<Longrightarrow> blocked t c = blocked s c \<and> (blocked s c \<longrightarrow> bblockno (bufs t c) = bblockno (bufs s c))"
    and "b < NBUF" "blocked t b" "\<not> blocked s b"
  shows "holds t = insert (bblockno (bufs t b)) (holds s)"
  unfolding holds_def using assms by (auto; metis)

lemma holds_cong:
  "(\<And>c. blocked t c = blocked s c) \<Longrightarrow> (\<And>c. bblockno (bufs t c) = bblockno (bufs s c)) \<Longrightarrow> holds t = holds s"
  by (simp add: holds_def)

lemma bread_ok:
  assumes inv: "bio p P s" and n: "n \<notin> holds s"
    and room: "cached s n \<noteq> None \<or> finite P \<and> card (P \<union> holds s) < NBUF"
  shows "\<exists>b t. bread ROOTDEV n s = Done b t \<and> got p P s n b t"
proof (cases "cached s n")
  case (Some b)
  let ?t = "s\<lparr>bufs := (bufs s)(b := (bufs s b)\<lparr>brefcnt := inc32 (brefcnt (bufs s b))\<rparr>),
    mach := settle (mach s), sleeplocks := (sleeplocks s)(SL_buf b := \<lparr>sl_locked = True, sl_pid = pid (procs s p)\<rparr>)\<rparr>"
  have b: "b < NBUF" "bdev (bufs s b) = ROOTDEV" "bblockno (bufs s b) = n" using cached_Some [OF Some] by auto
  note ok = buf_okD [OF bioD(3) [OF inv b(1)]]
  have nb: "\<not> blocked s b" using n holds_locked [OF b(1)] b(3) by auto
  have c: "cached ?t m = cached s m" for m
    unfolding cached_def by (rule find_cong) auto
  have "bio p P ?t"
  proof (rule bio_update [OF inv, where b = b])
    show "buf_ok p P ?t b"
      using ok b nb by (auto simp: buf_ok_def blocked_def Let_def inc32_def)
    show "\<exists>xs. lru ?t xs" using bioD(4) [OF inv] by (simp add: lru_def)
    show "bblockno (bufs s x) \<noteq> bblockno (bufs ?t b)" if "x < NBUF" "x \<noteq> b" "bdev (bufs s x) = ROOTDEV" for x
      using bioD(2) [OF inv] that b by (auto simp: bufs_unique_def)
  qed (use bioD(1,5) [OF inv] b c in auto)
  moreover have "cur ?t m = cur s m" for m
    using c [of m] by (auto simp: cur_def split: option.split)
  moreover have "trunc (bdata (bufs ?t b)) = cur s n" using Some by (simp add: cur_def)
  moreover have "holds ?t = insert n (holds s)"
    using holds_insert [of b ?t s] nb b by (simp add: blocked_def)
  ultimately have "got p P s n b ?t"
    using b nb by (simp add: got_def beyond_def blocked_def keeps_held_def)
  then show ?thesis using bread_cached [OF inv Some n] by blast
next
  case None
  then have fin: "finite P" "card (P \<union> holds s) < NBUF" using room by auto
  obtain b where b: "b < NBUF" "brefcnt (bufs s b) = 0" and run: "bread ROOTDEV n s = Done b (s\<lparr>
    bufs := (bufs s)(b := (bufs s b)\<lparr>bdev := ROOTDEV, bblockno := n, brefcnt := 1,
      bdata := blit BSIZE (disk s n) 0 0 (bdata (bufs s b)), bvalid := True\<rparr>),
    mach := settle (mach s), sleeplocks := (sleeplocks s)(SL_buf b := \<lparr>sl_locked = True, sl_pid = pid (procs s p)\<rparr>)\<rparr>)"
    (is "_ = Done b ?t")
    using bread_uncached [OF inv None spare_buffer [OF inv fin]] by blast
  note ok = buf_okD [OF bioD(3) [OF inv b(1)]]
  have nb: "\<not> blocked s b" and np: "bdev (bufs s b) = ROOTDEV \<Longrightarrow> bblockno (bufs s b) \<notin> P"
    using ok(5) b(2) by auto
  have nP: "n \<notin> P" using None bioD(5) [OF inv, of n] by auto
  have un: "bblockno (bufs s x) \<noteq> n" if "x < NBUF" "bdev (bufs s x) = ROOTDEV" for x
    using None that by (simp add: cached_None)
  have uniq: "bufs_unique ?t" using bioD(2) [OF inv] un by (auto simp: bufs_unique_def)
  have cn: "cached ?t n = Some b" using cached_eq [OF uniq b(1)] by simp
  have cm: "cached ?t m = (if cached s m = Some b then None else cached s m)" if "m \<noteq> n" for m
  proof (cases "cached s m")
    case None
    then have "cached ?t m = None" using that unfolding cached_None by auto
    then show ?thesis using None by simp
  next
    case (Some c)
    then have c: "c < NBUF" "bdev (bufs s c) = ROOTDEV" "bblockno (bufs s c) = m" using cached_Some by auto
    show ?thesis
    proof (cases "c = b")
      case True
      then have "cached ?t m = None"
        using that c bioD(2) [OF inv] b unfolding cached_None bufs_unique_def by auto
      then show ?thesis using Some True by simp
    next
      case False
      then show ?thesis using cached_eq [OF uniq c(1)] c Some by simp
    qed
  qed
  have cur: "cur ?t m = cur s m" for m
  proof (cases "m = n")
    case True
    then show ?thesis using cn None by (simp add: cur_def)
  next
    case False
    have "trunc (bdata (bufs s b)) = trunc (disk s m)" if "cached s m = Some b"
      using ok(6) cached_Some [OF that] nb np by auto
    then show ?thesis using cm [OF False] by (auto simp: cur_def split: option.split)
  qed
  have "bio p P ?t"
  proof (rule bio_update [OF inv, where b = b])
    show "buf_ok p P ?t b" using nP by (simp add: buf_ok_def blocked_def Let_def)
    show "\<exists>xs. lru ?t xs" using bioD(4) [OF inv] by (simp add: lru_def)
    show "cached ?t m \<noteq> None" if "m \<in> P" for m
    proof -
      have "m \<noteq> n" "cached s m \<noteq> Some b" using that nP np cached_Some [of s m b] by auto
      then show ?thesis using cm bioD(5) [OF inv that] by simp
    qed
  qed (use bioD(1) [OF inv] b un in auto)
  moreover have "trunc (bdata (bufs ?t b)) = cur s n" using None by (simp add: cur_def)
  moreover have "holds ?t = insert n (holds s)"
    using holds_insert [of b ?t s] nb b by (simp add: blocked_def)
  ultimately have "got p P s n b ?t"
    using b nb cur by (simp add: got_def beyond_def blocked_def keeps_held_def)
  then show ?thesis using run by blast
qed

definition moved :: "nat \<Rightarrow> 'x bstate_scheme \<Rightarrow> (nat \<Rightarrow> nat) \<times> (nat \<Rightarrow> nat)" where
  "moved b s = (let nx = (bnext s)(bprev s b := bnext s b); pv = (bprev s)(bnext s b := bprev s b) in
     (nx(b := nx HEAD, HEAD := b), pv(b := HEAD, nx HEAD := b)))"

lemma moved_ring:
  assumes "linked_ring (bnext s) (bprev s) HEAD (ys @ b # zs)"
  shows "linked_ring (fst (moved b s)) (snd (moved b s)) HEAD (b # ys @ zs)"
  unfolding moved_def Let_def fst_conv snd_conv
  by (rule ring_insert [OF ring_unlink [OF assms]]) (use assms in \<open>auto simp: linked_ring_def\<close>)

lemma brelse_exec:
  assumes "quiet p s" "sl_locked (sleeplocks s (SL_buf b))" "sl_pid (sleeplocks s (SL_buf b)) = pid (procs s p)"
    "linked_ring (bnext s) (bprev s) HEAD (ys @ b # zs)"
  shows "brelse b s = Done () (s\<lparr>
    sleeplocks := (sleeplocks s)(SL_buf b := \<lparr>sl_locked = False, sl_pid = 0\<rparr>),
    procs := (\<lambda>q. if q < NPROC \<and> p \<noteq> q then woken (Ch_sleeplock (SL_buf b)) (procs s q) else procs s q),
    bufs := (bufs s)(b := (bufs s b)\<lparr>brefcnt := dec32 (brefcnt (bufs s b))\<rparr>),
    bnext := (if dec32 (brefcnt (bufs s b)) = 0 then fst (moved b s) else bnext s),
    bprev := (if dec32 (brefcnt (bufs s b)) = 0 then snd (moved b s) else bprev s),
    mach := settle (mach s)\<rparr>)"
proof -
  let ?t = "s\<lparr>mach := settle (mach s)\<rparr>"
  note q = quietD [OF assms(1)]
  have qt: "quiet p ?t" using assms(1) by simp
  have nb: "b \<noteq> HEAD" using assms(4) by (auto simp: linked_ring_def)
  show ?thesis
    using q nb assms(2,3) releasesleep_exec [OF qt, of "SL_buf b"] holdingsleep_exec [OF assms(1), of "SL_buf b"]
    by (simp add: brelse_def insert_head_def set_prev_def set_next_def exec_simps lock_simps moved_def Let_def
        cong: if_cong)
qed

lemma brelse_ok:
  assumes inv: "bio p P s" and b: "b < NBUF" "blocked s b"
    and clean: "bblockno (bufs s b) \<in> P \<or> trunc (bdata (bufs s b)) = trunc (disk s (bblockno (bufs s b)))"
  shows "\<exists>t. brelse b s = Done () t \<and> gone p P s b t"
proof -
  note ok = buf_okD [OF bioD(3) [OF inv b(1)]]
  obtain ys zs where ring: "linked_ring (bnext s) (bprev s) HEAD (ys @ b # zs)" "set (ys @ b # zs) = {..<NBUF}"
  proof -
    obtain xs where "lru s xs" using bioD(4) [OF inv] by blast
    moreover from this have "b \<in> set xs" using b(1) by (auto simp: lru_def)
    then obtain ys zs where "xs = ys @ b # zs" by (meson split_list)
    ultimately show ?thesis using that [of ys zs] by (simp add: lru_def)
  qed
  let ?t = "s\<lparr>
    sleeplocks := (sleeplocks s)(SL_buf b := \<lparr>sl_locked = False, sl_pid = 0\<rparr>),
    procs := (\<lambda>q. if q < NPROC \<and> p \<noteq> q then woken (Ch_sleeplock (SL_buf b)) (procs s q) else procs s q),
    bufs := (bufs s)(b := (bufs s b)\<lparr>brefcnt := dec32 (brefcnt (bufs s b))\<rparr>),
    bnext := (if dec32 (brefcnt (bufs s b)) = 0 then fst (moved b s) else bnext s),
    bprev := (if dec32 (brefcnt (bufs s b)) = 0 then snd (moved b s) else bprev s),
    mach := settle (mach s)\<rparr>"
  have run: "brelse b s = Done () ?t"
    by (rule brelse_exec [OF bioD(1) [OF inv] _ ok(4) [OF b(2)] ring(1)]) (use b(2) in \<open>simp add: blocked_def\<close>)
  have c: "cached ?t m = cached s m" for m
    unfolding cached_def by (rule find_cong) auto
  have "lru ?t (if dec32 (brefcnt (bufs s b)) = 0 then b # ys @ zs else ys @ b # zs)"
    using moved_ring [OF ring(1)] ring by (auto simp: lru_def)
  then have l: "\<exists>xs. lru ?t xs" by (rule exI)
  have "bio p P ?t"
  proof (rule bio_update [OF inv, where b = b])
    show "buf_ok p P ?t b"
      using ok b clean by (auto simp: buf_ok_def blocked_def Let_def dec32_def)
    show "bblockno (bufs s x) \<noteq> bblockno (bufs ?t b)" if "x < NBUF" "x \<noteq> b" "bdev (bufs s x) = ROOTDEV" for x
      using bioD(2) [OF inv] that b ok(3) by (auto simp: bufs_unique_def)
  qed (use l bioD(1,5) [OF inv] b c in auto)
  moreover have "cur ?t m = cur s m" for m
    using c [of m] by (auto simp: cur_def split: option.split)
  moreover have "holds s = insert (bblockno (bufs s b)) (holds ?t)"
    using holds_insert [of b s ?t] b by (auto simp: blocked_def)
  moreover have "bblockno (bufs s b) \<notin> holds ?t"
  proof
    assume "bblockno (bufs s b) \<in> holds ?t"
    then obtain c where "c < NBUF" "c \<noteq> b" "blocked s c" "bblockno (bufs s c) = bblockno (bufs s b)"
      by (auto simp: holds_def blocked_def split: if_splits)
    then show False
      using bioD(2) [OF inv] buf_okD(3) [OF bioD(3) [OF inv, of c]] b ok(3) unfolding bufs_unique_def by blast
  qed
  moreover have "beyond ?t = beyond s" by (simp add: beyond_def fun_eq_iff)
  moreover have "keeps_held b s ?t" by (simp add: keeps_held_def blocked_def)
  ultimately have "gone p P s b ?t"
    by (simp add: gone_def)
  then show ?thesis using run by blast
qed

text \<open>Changing the contents of a locked buffer changes the current contents of its block alone.\<close>

lemma set_data_ok:
  fixes d :: bytes
  assumes inv: "bio p P s" and b: "b < NBUF" "blocked s b"
  defines "t \<equiv> s\<lparr>bufs := (bufs s)(b := (bufs s b)\<lparr>bdata := d\<rparr>)\<rparr>"
  shows "bio p P t" "cur t m = (if m = bblockno (bufs s b) then trunc d else cur s m)" "holds t = holds s"
    "keeps_held b s t" "blocked t c = blocked s c"
proof -
  note ok = buf_okD [OF bioD(3) [OF inv b(1)]]
  have c: "cached t m = cached s m" for m
    unfolding cached_def t_def by (rule find_cong) auto
  show bl: "blocked t c = blocked s c" for c by (simp add: t_def blocked_def)
  show "bio p P t"
  proof (rule bio_update [OF inv, where b = b])
    show "buf_ok p P t b" using ok b by (auto simp: t_def buf_ok_def blocked_def Let_def)
    show "bblockno (bufs s x) \<noteq> bblockno (bufs t b)" if "x < NBUF" "x \<noteq> b" "bdev (bufs s x) = ROOTDEV" for x
      using bioD(2) [OF inv] that b ok(3) by (auto simp: bufs_unique_def t_def)
    show "\<exists>xs. lru t xs" using bioD(4) [OF inv] by (simp add: lru_def t_def)
    show "quiet p t" using bioD(1) [OF inv] by (simp add: t_def quiet_def)
  qed (use bioD(5) [OF inv] b c in \<open>auto simp: t_def\<close>)
  show "cur t m = (if m = bblockno (bufs s b) then trunc d else cur s m)"
  proof (cases "m = bblockno (bufs s b)")
    case True
    then show ?thesis using cached_eq [OF bioD(2) [OF inv] b(1) ok(3) [OF b(2)]] c by (simp add: cur_def t_def)
  next
    case False
    then show ?thesis using c [of m] cached_Some [of s m b] by (auto simp: cur_def t_def split: option.split)
  qed
  show "holds t = holds s" by (rule holds_cong) (use bl in \<open>auto simp: t_def\<close>)
  show "keeps_held b s t" using bl by (auto simp: keeps_held_def t_def)
qed

text \<open>\<^verbatim>\<open>bwrite\<close> makes the disk agree with the buffer.\<close>

lemma bwrite_ok:
  assumes inv: "bio p P s" and b: "b < NBUF" "blocked s b"
  defines "n \<equiv> bblockno (bufs s b)"
  shows "\<exists>t. bwrite b s = Done () t \<and> bio p P t \<and> beyond t = beyond s \<and> (\<forall>m. cur t m = cur s m) \<and> holds t = holds s \<and>
    bufs t = bufs s \<and> (\<forall>c. blocked t c = blocked s c) \<and> (\<forall>m. trunc (disk t m) = (if m = n then trunc (bdata (bufs s b)) else trunc (disk s m))) \<and>
    dtrace t = dtrace s @ [(n, trunc (bdata (bufs s b)))]"
proof -
  note ok = buf_okD [OF bioD(3) [OF inv b(1)]]
  let ?t = "s\<lparr>mach := settle (mach s), disk := (disk s)(n := blit BSIZE (bdata (bufs s b)) 0 0 (disk s n)),
    dtrace := dtrace s @ [(n, trunc (bdata (bufs s b)))]\<rparr>"
  have run: "bwrite b s = Done () ?t"
    using holdingsleep_exec [OF bioD(1) [OF inv], of "SL_buf b"] b(2) ok(4) [OF b(2)]
    by (simp add: bwrite_def disk_rw_def exec_simps blocked_def n_def Let_def)
  have c: "cached ?t m = cached s m" for m
    unfolding cached_def by (rule find_cong) auto
  have nm: "bblockno (bufs s x) \<noteq> n" if "x < NBUF" "x \<noteq> b" "bdev (bufs s x) = ROOTDEV" for x
    using bioD(2) [OF inv] that b ok(3) by (auto simp: bufs_unique_def n_def)
  have "bio p P ?t"
  proof (rule bio_update [OF inv, where b = b])
    show "buf_ok p P ?t b" using ok b by (auto simp: buf_ok_def blocked_def Let_def)
    show "\<exists>xs. lru ?t xs" using bioD(4) [OF inv] by (simp add: lru_def)
  qed (use bioD(1,5) [OF inv] b c nm in \<open>auto simp: n_def\<close>)
  moreover have "cur ?t m = cur s m" for m
  proof (cases "m = n")
    case True
    then show ?thesis using c [of m] cached_eq [OF bioD(2) [OF inv] b(1) ok(3) [OF b(2)]] by (simp add: cur_def n_def)
  next
    case False
    then show ?thesis using c [of m] by (auto simp: cur_def split: option.split)
  qed
  ultimately show ?thesis
    by (intro exI [of _ ?t] conjI run) (simp_all add: beyond_def blocked_def holds_def)
qed

text \<open>Pinning a locked buffer, and unpinning it.\<close>

lemma bpin_ok:
  assumes inv: "bio p P s" and b: "b < NBUF" "blocked s b" and new: "bblockno (bufs s b) \<notin> P"
  shows "\<exists>t. bpin b s = Done () t \<and> bio p (insert (bblockno (bufs s b)) P) t \<and> beyond t = beyond s \<and>
    disk t = disk s \<and> dtrace t = dtrace s \<and> (\<forall>m. cur t m = cur s m) \<and> holds t = holds s \<and> keeps_held b s t \<and>
    blocked t b \<and> bufs t b = (bufs s b)\<lparr>brefcnt := brefcnt (bufs t b)\<rparr>"
proof -
  note ok = buf_okD [OF bioD(3) [OF inv b(1)]]
  let ?P = "insert (bblockno (bufs s b)) P"
  let ?t = "s\<lparr>bufs := (bufs s)(b := (bufs s b)\<lparr>brefcnt := inc32 (brefcnt (bufs s b))\<rparr>), mach := settle (mach s)\<rparr>"
  have run: "bpin b s = Done () ?t"
    using quietD [OF bioD(1) [OF inv]] by (simp add: bpin_def exec_simps lock_simps)
  have c: "cached ?t m = cached s m" for m
    unfolding cached_def by (rule find_cong) auto
  have nm: "bblockno (bufs s x) \<noteq> bblockno (bufs s b)" if "x < NBUF" "x \<noteq> b" "bdev (bufs s x) = ROOTDEV" for x
    using bioD(2) [OF inv] that b ok(3) by (auto simp: bufs_unique_def)
  have cb: "cached s (bblockno (bufs s b)) = Some b"
    using cached_eq [OF bioD(2) [OF inv] b(1) ok(3) [OF b(2)]] .
  have "bio p ?P ?t"
  proof (rule bio_update [OF inv, where b = b])
    show "buf_ok p ?P ?t b" using ok b new by (auto simp: buf_ok_def blocked_def Let_def inc32_def)
    show "\<exists>xs. lru ?t xs" using bioD(4) [OF inv] by (simp add: lru_def)
  qed (use bioD(1,5) [OF inv] b c cb nm in auto)
  moreover have "cur ?t m = cur s m" for m
    using c [of m] by (auto simp: cur_def split: option.split)
  moreover have "holds ?t = holds s" by (rule holds_cong) (auto simp: blocked_def)
  ultimately show ?thesis
    using b by (intro exI [of _ ?t] conjI run) (auto simp: beyond_def keeps_held_def blocked_def)
qed

lemma bunpin_ok:
  assumes inv: "bio p P s" and b: "b < NBUF" "blocked s b" and old: "bblockno (bufs s b) \<in> P"
  shows "\<exists>t. bunpin b s = Done () t \<and> bio p (P - {bblockno (bufs s b)}) t \<and> beyond t = beyond s \<and>
    disk t = disk s \<and> dtrace t = dtrace s \<and> (\<forall>m. cur t m = cur s m) \<and> holds t = holds s \<and> keeps_held b s t \<and>
    blocked t b \<and> bufs t b = (bufs s b)\<lparr>brefcnt := brefcnt (bufs t b)\<rparr>"
proof -
  note ok = buf_okD [OF bioD(3) [OF inv b(1)]]
  let ?P = "P - {bblockno (bufs s b)}"
  let ?t = "s\<lparr>bufs := (bufs s)(b := (bufs s b)\<lparr>brefcnt := dec32 (brefcnt (bufs s b))\<rparr>), mach := settle (mach s)\<rparr>"
  have run: "bunpin b s = Done () ?t"
    using quietD [OF bioD(1) [OF inv]] by (simp add: bunpin_def exec_simps lock_simps)
  have c: "cached ?t m = cached s m" for m
    unfolding cached_def by (rule find_cong) auto
  have nm: "bblockno (bufs s x) \<noteq> bblockno (bufs s b)" if "x < NBUF" "x \<noteq> b" "bdev (bufs s x) = ROOTDEV" for x
    using bioD(2) [OF inv] that b ok(3) by (auto simp: bufs_unique_def)
  have "bio p ?P ?t"
  proof (rule bio_update [OF inv, where b = b])
    show "buf_ok p ?P ?t b" using ok b old by (auto simp: buf_ok_def blocked_def Let_def dec32_def)
    show "\<exists>xs. lru ?t xs" using bioD(4) [OF inv] by (simp add: lru_def)
  qed (use bioD(1,5) [OF inv] b c nm in auto)
  moreover have "cur ?t m = cur s m" for m
    using c [of m] by (auto simp: cur_def split: option.split)
  moreover have "holds ?t = holds s" by (rule holds_cong) (auto simp: blocked_def)
  ultimately show ?thesis
    using b by (intro exI [of _ ?t] conjI run) (auto simp: beyond_def keeps_held_def blocked_def)
qed

subsection \<open>Properties\<close>

lemma binit_loop:
  assumes "k \<le> NBUF" "quiet p s" "linked_ring (bnext s) (bprev s) HEAD []"
  shows "\<exists>t. for_each [0..<k] (\<lambda>b. seq (initsleeplock (SL_buf b)) (insert_head b)) s = Done () t \<and> quiet p t \<and>
    linked_ring (bnext t) (bprev t) HEAD (rev [0..<k]) \<and> (\<forall>b < k. \<not> blocked t b) \<and> bufs t = bufs s \<and> disk t = disk s \<and> beyond t = beyond s"
  using assms(1)
proof (induction k)
  case 0
  then show ?case using assms by (simp add: exec_simps)
next
  case (Suc k)
  then obtain t where t: "for_each [0..<k] (\<lambda>b. seq (initsleeplock (SL_buf b)) (insert_head b)) s = Done () t" "quiet p t"
    "linked_ring (bnext t) (bprev t) HEAD (rev [0..<k])" "\<forall>b < k. \<not> blocked t b" "bufs t = bufs s" "disk t = disk s"
    "beyond t = beyond s" by auto
  let ?m = "(mach t)\<lparr>locks := (locks (mach t))(Lk_sleep (SL_buf k) :=
    (locks (mach t) (Lk_sleep (SL_buf k)))\<lparr>lk_name := ''sleep lock'', lk_locked := False, lk_cpu := None\<rparr>)\<rparr>"
  let ?u = "t\<lparr>mach := ?m, sleeplocks := (sleeplocks t)(SL_buf k := \<lparr>sl_locked = False, sl_pid = 0\<rparr>),
    bnext := (bnext t)(k := bnext t HEAD, HEAD := k), bprev := (bprev t)(k := HEAD, bnext t HEAD := k)\<rparr>"
  have "k \<noteq> HEAD" using Suc.prems by simp
  then have "for_each [0..<Suc k] (\<lambda>b. seq (initsleeplock (SL_buf b)) (insert_head b)) s = Done () ?u"
    using t(1) by (simp add: for_each_append initsleeplock_def initlock_def set_lock_def insert_head_def set_prev_def
        set_next_def exec_simps)
  moreover have "quiet p ?u" using t(2) by (auto simp: quiet_def mach_ok_def lk_free_def)
  moreover have "linked_ring (bnext ?u) (bprev ?u) HEAD (rev [0..<Suc k])"
    using ring_insert [OF t(3), of k] Suc.prems by simp
  moreover have "\<forall>b < Suc k. \<not> blocked ?u b" using t(4) by (simp add: blocked_def less_Suc_eq)
  moreover have "bufs ?u = bufs s" "disk ?u = disk s" using t(5,6) by simp_all
  moreover have "beyond ?u = beyond s" using t(7) by (simp add: beyond_def)
  ultimately show ?case by blast
qed

lemma binit_spec:
  assumes "quiet p s" "\<forall>b < NBUF. bdev (bufs s b) = 0 \<and> brefcnt (bufs s b) = 0"
  shows "\<exists>t. binit s = Done () t \<and> bio p {} t \<and> holds t = {} \<and> (\<forall>n. cur t n = trunc (disk s n)) \<and>
    lru t (rev [0..<NBUF]) \<and> bufs t = bufs s \<and> disk t = disk s \<and> beyond t = beyond s"
proof -
  let ?m = "(mach s)\<lparr>locks := (locks (mach s))(Lk_bcache := (locks (mach s) Lk_bcache)\<lparr>lk_name := ''bcache'', lk_locked := False, lk_cpu := None\<rparr>)\<rparr>"
  let ?s = "s\<lparr>mach := ?m, bprev := (bprev s)(HEAD := HEAD), bnext := (bnext s)(HEAD := HEAD)\<rparr>"
  have q: "quiet p ?s" using assms(1) by (auto simp: quiet_def mach_ok_def lk_free_def)
  have l: "linked_ring (bnext ?s) (bprev ?s) HEAD []" by (simp add: linked_ring_def)
  obtain t where t: "for_each [0..<NBUF] (\<lambda>b. seq (initsleeplock (SL_buf b)) (insert_head b)) ?s = Done () t" "quiet p t"
    "linked_ring (bnext t) (bprev t) HEAD (rev [0..<NBUF])" "\<forall>b < NBUF. \<not> blocked t b" "bufs t = bufs s" "disk t = disk s"
    "beyond t = beyond ?s" using binit_loop [OF order_refl q l] by auto
  have s: "beyond ?s = beyond s" by (simp add: beyond_def)
  have run: "binit s = Done () t"
    using t(1) by (simp add: binit_def initlock_def set_lock_def set_prev_def set_next_def exec_simps)
  have c: "cached t n = None" for n using t(5) assms(2) by (auto simp: cached_None)
  have l: "lru t (rev [0..<NBUF])" using t(3) by (auto simp: lru_def)
  then have "bio p {} t"
    using t assms(2) c by (auto simp: bio_def bufs_unique_def buf_ok_def Let_def)
  moreover have "cur t n = trunc (disk s n)" for n using c t(6) by (simp add: cur_def)
  moreover have "holds t = {}" using t(4) by (auto simp: holds_def)
  ultimately show ?thesis using run l t(5,6) t(7) [unfolded s] by blast
qed

text \<open>
  C35. \<^verbatim>\<open>binit\<close> turns the zeroed buffers of the kernel image into an empty cache that satisfies the invariant, in which
  every block reads as the disk has it.
\<close>

theorem binit_establishes:
  assumes "quiet p s" "\<forall>b < NBUF. bdev (bufs s b) = 0 \<and> brefcnt (bufs s b) = 0"
  shows "\<exists>t. binit s = Done () t \<and> bio p {} t \<and> holds t = {} \<and> (\<forall>n. cur t n = trunc (disk s n))"
  using binit_spec [OF assms] by blast

definition demo_b :: bstate where
  "demo_b = \<lparr>mach = busy_machine, mem = (\<lambda>_. 0), kend = 0x87FF0000, freelist = 0, kernel_pagetable = 0, satp = (\<lambda>_. 0),
     procs = demo_procs, nextpid = 8, initproc = Some 1, ticks = 0, link_trampoline = 0, link_forkret = 0,
     sleeplocks = (\<lambda>_. \<lparr>sl_locked = False, sl_pid = 0\<rparr>),
     bufs = (\<lambda>_. \<lparr>bvalid = False, bdisk = False, bdev = 0, bblockno = 0, brefcnt = 0, bdata = (\<lambda>_. 0)\<rparr>),
     bnext = (\<lambda>_. 0), bprev = (\<lambda>_. 0), disk = (\<lambda>n i. if n = 2 then 0 else of_nat n), dtrace = []\<rparr>"

lemma quiet_demo_b: "quiet 1 demo_b"
  by (simp add: quiet_def demo_b_def)

theorem binit_establishes_witness:
  "\<exists>t. binit demo_b = Done () t \<and> bio 1 {} t \<and> cur t 5 0 = 5"
proof -
  have "\<exists>t. binit demo_b = Done () t \<and> bio 1 {} t \<and> holds t = {} \<and> (\<forall>n. cur t n = trunc (disk demo_b n))"
    by (rule binit_establishes [OF quiet_demo_b]) (simp add: demo_b_def)
  then show ?thesis by (auto simp: demo_b_def trunc_def)
qed

text \<open>
  C21. Reading, changing, writing and releasing a block goes through on every cache with a spare buffer: afterwards the
  block has the new contents, on the disk and for every later reader, no other block has changed, the
  disk has seen this one write, and the cache is as ready as before.
\<close>

theorem block_update:
  assumes inv: "bio p P s" and n: "n \<notin> holds s" and fin: "finite P" "card (P \<union> holds s) < NBUF"
  shows "\<exists>t. bind (bread ROOTDEV n) (\<lambda>b.
      seq (set_buf b (\<lambda>x. x\<lparr>bdata := d\<rparr>)) (seq (bwrite b) (brelse b))) s = Done () t \<and>
    bio p P t \<and> holds t = holds s \<and> (\<forall>m. cur t m = (if m = n then trunc d else cur s m)) \<and>
    trunc (disk t n) = trunc d \<and> dtrace t = dtrace s @ [(n, trunc d)] \<and>
    (\<exists>b u. bread ROOTDEV n t = Done b u \<and> trunc (bdata (bufs u b)) = trunc d)"
proof -
  obtain b t1 where t1: "bread ROOTDEV n s = Done b t1" "got p P s n b t1"
    using bread_ok [OF inv n] fin by blast
  let ?t2 = "t1\<lparr>bufs := (bufs t1)(b := (bufs t1 b)\<lparr>bdata := d\<rparr>)\<rparr>"
  have g: "bio p P t1" "b < NBUF" "blocked t1 b" "bblockno (bufs t1 b) = n" "holds t1 = insert n (holds s)"
    "\<And>m. cur t1 m = cur s m" "dtrace t1 = dtrace s" using t1(2) by (auto simp: got_def)
  note t2 = set_data_ok [OF g(1-3), of d]
  obtain t3 where t3: "bwrite b ?t2 = Done () t3" "bio p P t3" "\<forall>m. cur t3 m = cur ?t2 m" "holds t3 = holds ?t2" "bufs t3 = bufs ?t2"
    "\<forall>c. blocked t3 c = blocked ?t2 c"
    "\<forall>m. trunc (disk t3 m) = (if m = bblockno (bufs ?t2 b) then trunc (bdata (bufs ?t2 b)) else trunc (disk ?t2 m))"
    "dtrace t3 = dtrace ?t2 @ [(bblockno (bufs ?t2 b), trunc (bdata (bufs ?t2 b)))]"
    using bwrite_ok [OF t2(1) g(2)] t2(5) g(3) by blast
  have "blocked t3 b" "trunc (bdata (bufs t3 b)) = trunc (disk t3 (bblockno (bufs t3 b)))"
    using t3(5,6,7) g(3) t2(5) by simp_all
  then obtain t where t: "brelse b t3 = Done () t" "gone p P t3 b t" using brelse_ok [OF t3(2) g(2)] by blast
  have t': "bio p P t" "holds t = holds s" "\<And>m. cur t m = (if m = n then trunc d else cur s m)"
    "trunc (disk t n) = trunc d" "dtrace t = dtrace s @ [(n, trunc d)]"
    using t(2) t3 t2 g n by (auto simp: gone_def)
  moreover obtain b' u where "bread ROOTDEV n t = Done b' u" "got p P t n b' u"
    using bread_ok [OF t'(1), of n] n fin t'(2) by auto
  moreover from this have "trunc (bdata (bufs u b')) = trunc d" using t'(3) by (simp add: got_def)
  ultimately show ?thesis
    using t1(1) t3(1) t(1) by (intro exI [of _ t]) (auto simp: exec_simps)
qed

theorem block_update_witness:
  "\<exists>s t (u :: bstate) b. binit demo_b = Done () s \<and> bind (bread ROOTDEV 5) (\<lambda>b.
      seq (set_buf b (\<lambda>x. x\<lparr>bdata := \<lambda>_. 7\<rparr>)) (seq (bwrite b) (brelse b))) s = Done () t \<and>
     bread ROOTDEV 5 t = Done b u \<and> bdata (bufs u b) 0 = 7"
proof -
  have "\<forall>b < NBUF. bdev (bufs demo_b b) = 0 \<and> brefcnt (bufs demo_b b) = 0" by (simp add: demo_b_def)
  then obtain s where s: "binit demo_b = Done () s" "bio 1 {} s" "holds s = {}"
    using binit_spec [OF quiet_demo_b] by blast
  have tr: "bdata (bufs u b) 0 = 7" if "trunc (bdata (bufs u b)) = trunc (\<lambda>_. 7)" for u :: bstate and b
    using fun_cong [OF that, of 0] by (simp add: trunc_def)
  show ?thesis
    using block_update [OF s(2), of 5 "\<lambda>_. 7"] s(1,3) tr by fastforce
qed

text \<open>
  C17. The cache replaces the least recently used buffer: with \<open>xs\<close> the buffers from the most to the least recently
  released one, reading a block that is not cached takes the last unused buffer of \<open>xs\<close>, and releasing the
  last reference to a buffer moves it to the front of \<open>xs\<close>.
\<close>

theorem lru_policy:
  assumes inv: "bio p P s" and xs: "lru s xs"
  shows "(cached s n = None \<and> find (\<lambda>b. brefcnt (bufs s b) = 0) (rev xs) = Some b \<longrightarrow>
      (\<exists>t. bread ROOTDEV n s = Done b t \<and> lru t xs)) \<and>
    (b < NBUF \<and> blocked s b \<longrightarrow>
      (\<exists>t. brelse b s = Done () t \<and> lru t (if bblockno (bufs s b) \<in> P then xs else b # remove1 b xs)))"
proof (intro conjI impI; elim conjE)
  show "\<exists>t. bread ROOTDEV n s = Done b t \<and> lru t xs"
    if "cached s n = None" "find (\<lambda>b. brefcnt (bufs s b) = 0) (rev xs) = Some b"
    using bread_recycles [OF inv that(1) xs that(2)] xs by (simp add: lru_def)
next
  assume b: "b < NBUF" "blocked s b"
  note ok = buf_okD [OF bioD(3) [OF inv b(1)]]
  have "b \<in> set xs" "distinct xs" using xs b by (auto simp: lru_def linked_ring_def)
  then obtain ys zs where yz: "xs = ys @ b # zs" "b \<notin> set ys" by (meson split_list_first)
  then have ring: "linked_ring (bnext s) (bprev s) HEAD (ys @ b # zs)" "set (ys @ b # zs) = {..<NBUF}"
    using xs by (auto simp: lru_def)
  have d: "dec32 (brefcnt (bufs s b)) = 0 \<longleftrightarrow> bblockno (bufs s b) \<notin> P"
    using ok b by (auto simp: dec32_def)
  have "sl_locked (sleeplocks s (SL_buf b))" using b(2) by (simp add: blocked_def)
  from brelse_exec [OF bioD(1) [OF inv] this ok(4) [OF b(2)] ring(1)]
  show "\<exists>t. brelse b s = Done () t \<and> lru t (if bblockno (bufs s b) \<in> P then xs else b # remove1 b xs)"
    using moved_ring [OF ring(1)] ring yz d by (auto simp: lru_def remove1_append)
qed

theorem lru_policy_witness:
  "\<exists>s t (u :: bstate). binit demo_b = Done () s \<and> lru s (rev [0..<NBUF]) \<and> bread ROOTDEV 5 s = Done 0 t \<and> lru t (rev [0..<NBUF]) \<and>
     brelse 0 t = Done () u \<and> lru u (0 # remove1 0 (rev [0..<NBUF]))"
proof -
  have z: "\<forall>b < NBUF. bdev (bufs demo_b b) = 0 \<and> brefcnt (bufs demo_b b) = 0" by (simp add: demo_b_def)
  obtain s where s: "binit demo_b = Done () s" "bio 1 {} s" "holds s = {}" "lru s (rev [0..<NBUF])" "bufs s = bufs demo_b"
    using binit_spec [OF quiet_demo_b z] by blast
  have "cached s 5 = None" using s(5) z by (simp add: cached_None)
  moreover have "find (\<lambda>b. brefcnt (bufs s b) = 0) (rev (rev [0..<NBUF])) = Some 0"
    using s(5) z by (simp add: upt_rec)
  ultimately obtain t where t: "bread ROOTDEV 5 s = Done 0 t" "lru t (rev [0..<NBUF])"
    using lru_policy [OF s(2,4)] by blast
  have "got 1 {} s 5 0 t" using bread_ok [OF s(2), of 5] s(3) t(1) by auto
  then have "bio 1 {} t" "blocked t 0" by (auto simp: got_def)
  then obtain u where "brelse 0 t = Done () u" "lru u (0 # remove1 0 (rev [0..<NBUF]))"
    using lru_policy [OF _ t(2), of 1 "{}" _ 0] by auto
  then show ?thesis using s t by blast
qed

end
