(* ===== verification/Log.thy ===== *)
theory Log
  imports Bio_Spec
begin

text \<open>
  \<^verbatim>\<open>kernel/log.c\<close>: the redo log. The in-memory log is a record; the entries of \<^verbatim>\<open>int block[]\<close> are kept as their
  32-bit patterns, since the code only compares them with, and passes them as, unsigned block numbers.
  A header that announces more than \<open>LOGSIZE\<close> blocks overruns the arrays of the C code; the theorems are for
  headers within the bound. A thread that waits for log space is resumed in \<open>begin_op_resume\<close>.
\<close>

record log =
  log_start :: int
  log_size :: int
  outstanding :: int
  committing :: bool
  log_dev :: nat
  lh_n :: int
  lh_block :: "nat \<Rightarrow> nat"

record lgstate = bstate +
  the_log :: log

definition set_log :: "(log \<Rightarrow> log) \<Rightarrow> ('x lgstate_scheme, unit) thread" where
  "set_log f = modify (\<lambda>s. s\<lparr>the_log := f (the_log s)\<rparr>)"

definition get_log :: "('x lgstate_scheme, log) thread" where
  "get_log = gets the_log"

lemma set_log_exec [exec_simps]: "set_log f s = Done () (s\<lparr>the_log := f (the_log s)\<rparr>)"
  by (simp add: set_log_def modify_def)

lemma get_log_exec [exec_simps]: "get_log s = Done (the_log s) s"
  by (simp add: get_log_def gets_def)

text \<open>The block that follows the header at distance \<open>tail\<close> in the log.\<close>

definition log_slot :: "log \<Rightarrow> nat \<Rightarrow> nat" where
  "log_slot l tail = bits32 (log_start l + int tail + 1)"

definition install_one :: "bool \<Rightarrow> log \<Rightarrow> nat \<Rightarrow> ('x lgstate_scheme, unit) thread" where
  "install_one recovering l tail =
     bind (bread (log_dev l) (log_slot l tail)) (\<lambda>lbuf.
     bind (bread (log_dev l) (lh_block l tail)) (\<lambda>dbuf.
     bind (get_buf lbuf) (\<lambda>x.
     seq (set_buf dbuf (\<lambda>y. y\<lparr>bdata := blit BSIZE (bdata x) 0 0 (bdata y)\<rparr>)) (
     seq (bwrite dbuf) (
     seq (whenM (\<not> recovering) (bunpin dbuf)) (
     seq (brelse lbuf)
         (brelse dbuf)))))))"

definition install_trans :: "bool \<Rightarrow> ('x lgstate_scheme, unit) thread" where
  "install_trans recovering = bind get_log (\<lambda>l. for_each [0..<nat (lh_n l)] (install_one recovering l))"

definition read_head :: "('x lgstate_scheme, unit) thread" where
  "read_head =
     bind get_log (\<lambda>l.
     bind (bread (log_dev l) (bits32 (log_start l))) (\<lambda>b.
     bind (get_buf b) (\<lambda>x.
     seq (set_log (\<lambda>l. l\<lparr>lh_n := s32 (rd 4 (bdata x) 0)\<rparr>)) (
     seq (for_each [0..<nat (s32 (rd 4 (bdata x) 0))] (\<lambda>i.
            set_log (\<lambda>l. l\<lparr>lh_block := (lh_block l)(i := rd 4 (bdata x) (4 + 4 * i))\<rparr>)))
         (brelse b)))))"

definition write_head :: "('x lgstate_scheme, unit) thread" where
  "write_head =
     bind get_log (\<lambda>l.
     bind (bread (log_dev l) (bits32 (log_start l))) (\<lambda>b.
     seq (set_buf b (\<lambda>x. x\<lparr>bdata := wr 4 (bits32 (lh_n l)) 0 (bdata x)\<rparr>)) (
     seq (for_each [0..<nat (lh_n l)] (\<lambda>i.
            set_buf b (\<lambda>x. x\<lparr>bdata := wr 4 (lh_block l i) (4 + 4 * i) (bdata x)\<rparr>))) (
     seq (bwrite b)
         (brelse b)))))"

definition recover_from_log :: "('x lgstate_scheme, unit) thread" where
  "recover_from_log =
     seq read_head (
     seq (install_trans True) (
     seq (set_log (\<lambda>l. l\<lparr>lh_n := 0\<rparr>))
         write_head))"

definition initlog :: "nat \<Rightarrow> nat \<Rightarrow> nat \<Rightarrow> ('x lgstate_scheme, unit) thread" where
  "initlog dev logstart nlog =
     seq (whenM (4 + 4 * LOGSIZE \<ge> BSIZE) (panic ''initlog: too big logheader'')) (
     seq (initlock Lk_log ''log'') (
     seq (set_log (\<lambda>l. l\<lparr>log_start := s32 logstart, log_size := s32 nlog, log_dev := dev\<rparr>))
         recover_from_log))"

text \<open>The loop of \<^verbatim>\<open>begin_op\<close>, with \<^verbatim>\<open>log.lock\<close> held.\<close>

definition begin_op_loop :: "('x lgstate_scheme, unit) thread" where
  "begin_op_loop =
     bind get_log (\<lambda>l.
     if committing l then sleep Ch_log Lk_log
     else if lh_n l + (outstanding l + 1) * int MAXOPBLOCKS > int LOGSIZE then sleep Ch_log Lk_log
     else seq (set_log (\<lambda>l. l\<lparr>outstanding := outstanding l + 1\<rparr>))
              (release Lk_log))"

definition begin_op :: "('x lgstate_scheme, unit) thread" where
  "begin_op = seq (acquire Lk_log) begin_op_loop"

definition begin_op_resume :: "nat \<Rightarrow> ('x lgstate_scheme, unit) thread" where
  "begin_op_resume p = seq (sleep_resume p Lk_log) begin_op_loop"

definition write_log_one :: "log \<Rightarrow> nat \<Rightarrow> ('x lgstate_scheme, unit) thread" where
  "write_log_one l tail =
     bind (bread (log_dev l) (log_slot l tail)) (\<lambda>to.
     bind (bread (log_dev l) (lh_block l tail)) (\<lambda>from.
     bind (get_buf from) (\<lambda>x.
     seq (set_buf to (\<lambda>y. y\<lparr>bdata := blit BSIZE (bdata x) 0 0 (bdata y)\<rparr>)) (
     seq (bwrite to) (
     seq (brelse from)
         (brelse to))))))"

definition write_log :: "('x lgstate_scheme, unit) thread" where
  "write_log = bind get_log (\<lambda>l. for_each [0..<nat (lh_n l)] (write_log_one l))"

definition commit :: "('x lgstate_scheme, unit) thread" where
  "commit =
     bind get_log (\<lambda>l.
     whenM (lh_n l > 0) (
       seq write_log (
       seq write_head (
       seq (install_trans False) (
       seq (set_log (\<lambda>l. l\<lparr>lh_n := 0\<rparr>))
           write_head)))))"

definition end_op :: "('x lgstate_scheme, unit) thread" where
  "end_op =
     seq (acquire Lk_log) (
     seq (set_log (\<lambda>l. l\<lparr>outstanding := outstanding l - 1\<rparr>)) (
     bind get_log (\<lambda>l.
     if committing l then panic ''log.committing''
     else if outstanding l = 0 then
       seq (set_log (\<lambda>l. l\<lparr>committing := True\<rparr>)) (
       seq (release Lk_log) (
       seq commit (
       seq (acquire Lk_log) (
       seq (set_log (\<lambda>l. l\<lparr>committing := False\<rparr>)) (
       seq (wakeup Ch_log)
           (release Lk_log))))))
     else
       seq (wakeup Ch_log)
           (release Lk_log))))"

definition log_write :: "nat \<Rightarrow> ('x lgstate_scheme, unit) thread" where
  "log_write b =
     seq (acquire Lk_log) (
     bind get_log (\<lambda>l.
     if lh_n l \<ge> int LOGSIZE \<or> lh_n l \<ge> log_size l - 1 then panic ''too big a transaction''
     else if outstanding l < 1 then panic ''log_write outside of trans''
     else
       bind (get_buf b) (\<lambda>x.
       let i = (case find (\<lambda>i. lh_block l i = bblockno x) [0..<nat (lh_n l)] of Some i \<Rightarrow> i | None \<Rightarrow> nat (lh_n l)) in
       seq (set_log (\<lambda>l. l\<lparr>lh_block := (lh_block l)(i := bblockno x)\<rparr>)) (
       seq (whenM (int i = lh_n l)
              (seq (bpin b) (set_log (\<lambda>l. l\<lparr>lh_n := lh_n l + 1\<rparr>))))
           (release Lk_log)))))"

end
