(* ===== verification/Log_Spec.thy ===== *)
theory Log_Spec
  imports Log
begin

text \<open>
  Crash safety of the redo log. The disk is the sequence of blocks it has been told to write; a crash keeps
  a prefix of the writes. \<open>recovered L d\<close> is the disk that the committed part of the log at block \<open>L\<close> describes.
  The theorems: \<^verbatim>\<open>commit\<close> takes the file system from the old to the new contents in one step, at the write of the
  header, whatever prefix of its writes reaches the disk; \<^verbatim>\<open>recover_from_log\<close> computes \<open>recovered\<close>, and may itself
  be interrupted and repeated.
\<close>

subsection \<open>Sequences of disk writes\<close>

definition apply_writes :: "(nat \<times> bytes) list \<Rightarrow> (nat \<Rightarrow> bytes) \<Rightarrow> nat \<Rightarrow> bytes" where
  "apply_writes ws d = fold (\<lambda>(n, b) d. d(n := b)) ws d"

lemma apply_writes_simps [simp]:
  "apply_writes [] d = d"
  "apply_writes (w # ws) d = apply_writes ws (d(fst w := snd w))"
  "apply_writes (ws @ vs) d = apply_writes vs (apply_writes ws d)"
  by (simp_all add: apply_writes_def split_beta)

lemma apply_writes_other: "m \<notin> fst ` set ws \<Longrightarrow> apply_writes ws d m = d m"
  by (induction ws arbitrary: d) auto

lemma apply_writes_cong: "(m \<notin> fst ` set ws \<Longrightarrow> d m = e m) \<Longrightarrow> apply_writes ws d m = apply_writes ws e m"
proof (induction ws arbitrary: d e)
  case (Cons w ws)
  have "apply_writes ws (d(fst w := snd w)) m = apply_writes ws (e(fst w := snd w)) m"
    by (rule Cons.IH) (use Cons.prems in auto)
  then show ?case by simp
qed simp

lemma apply_writes_const:
  "(\<And>w. w \<in> set ws \<Longrightarrow> fst w = m \<Longrightarrow> snd w = c) \<Longrightarrow> apply_writes ws d m = (if m \<in> fst ` set ws then c else d m)"
proof (induction ws arbitrary: d)
  case (Cons w ws)
  have "apply_writes ws (d(fst w := snd w)) m = (if m \<in> fst ` set ws then c else (d(fst w := snd w)) m)"
    by (rule Cons.IH) (use Cons.prems in auto)
  then show ?case using Cons.prems [of w] by auto
qed simp

definition wrote :: "nat \<Rightarrow> nat set \<Rightarrow> 'x bstate_scheme \<Rightarrow> (nat \<times> bytes) list \<Rightarrow> 'x bstate_scheme \<Rightarrow> bool" where
  "wrote p P s ws t = (bio p P t \<and> holds t = {} \<and> beyond t = beyond s \<and> dtrace t = dtrace s @ ws \<and>
     (\<forall>m. trunc (disk t m) = apply_writes ws (\<lambda>m. trunc (disk s m)) m) \<and> (\<forall>m. cur t m = apply_writes ws (cur s) m))"

lemma wroteD:
  assumes "wrote p P s ws t"
  shows "bio p P t" "holds t = {}" "beyond t = beyond s" "dtrace t = dtrace s @ ws"
    "trunc (disk t m) = apply_writes ws (\<lambda>m. trunc (disk s m)) m" "cur t m = apply_writes ws (cur s) m"
  using assms by (auto simp: wrote_def)

lemma wrote_trans: "wrote p P s ws t \<Longrightarrow> wrote p Q t vs u \<Longrightarrow> wrote p Q s (ws @ vs) u"
proof -
  assume a: "wrote p P s ws t" "wrote p Q t vs u"
  have "cur t = apply_writes ws (cur s)" "(\<lambda>m. trunc (disk t m)) = apply_writes ws (\<lambda>m. trunc (disk s m))"
    using a(1) by (auto simp: wrote_def)
  then show ?thesis using a by (simp add: wrote_def)
qed

lemma wrote_refl: "bio p P s \<Longrightarrow> holds s = {} \<Longrightarrow> wrote p P s [] s"
  by (simp add: wrote_def)

lemma cur_clean: "bio p P s \<Longrightarrow> n \<notin> P \<Longrightarrow> n \<notin> holds s \<Longrightarrow> cur s n = trunc (disk s n)"
proof -
  assume a: "bio p P s" "n \<notin> P" "n \<notin> holds s"
  show ?thesis
  proof (cases "cached s n")
    case (Some b)
    then have b: "b < NBUF" "bdev (bufs s b) = ROOTDEV" "bblockno (bufs s b) = n" by (auto dest: cached_Some)
    then show ?thesis
      using buf_okD(6) [OF bioD(3) [OF a(1) b(1)] b(2)] holds_locked [OF b(1)] a Some by (auto simp: cur_def)
  qed (simp add: cur_def)
qed

subsection \<open>Blocks copied through the cache\<close>

lemma gotD:
  assumes "got p P s n b t"
  shows "bio p P t" "beyond t = beyond s" "disk t = disk s" "dtrace t = dtrace s" "cur t m = cur s m" "b < NBUF"
    "\<not> blocked s b" "blocked t b" "bblockno (bufs t b) = n" "trunc (bdata (bufs t b)) = cur s n"
    "holds t = insert n (holds s)" "c < NBUF \<Longrightarrow> blocked s c \<Longrightarrow> blocked t c \<and> bufs t c = bufs s c"
  using assms by (auto simp: got_def keeps_held_def)

lemma goneD:
  assumes "gone p P s b t"
  shows "bio p P t" "beyond t = beyond s" "disk t = disk s" "dtrace t = dtrace s" "cur t m = cur s m"
    "holds t = holds s - {bblockno (bufs s b)}" "c < NBUF \<Longrightarrow> blocked s c \<Longrightarrow> c \<noteq> b \<Longrightarrow> blocked t c \<and> bufs t c = bufs s c"
  using assms by (auto simp: gone_def keeps_held_def)

text \<open>Two blocks read, the second copied over the first, and the first written.\<close>

lemma two_reads:
  assumes inv: "bio p P s" and h: "holds s = {}" and P: "finite P" "card P < NBUF" and mn: "m \<noteq> n"
    and room: "n \<in> P \<or> card P + 1 < NBUF"
  obtains a b t u where "bread ROOTDEV m s = Done a t" "got p P s m a t" "bread ROOTDEV n t = Done b u" "got p P t n b u" "a \<noteq> b"
proof -
  obtain a t where a: "bread ROOTDEV m s = Done a t" "got p P s m a t"
    using bread_ok [OF inv, of m] h P by auto
  note t = gotD [OF a(2)]
  have "card (P \<union> holds t) \<le> card P + 1"
    using P(1) h t(11) by (simp add: card_insert_if)
  then have "cached t n \<noteq> None \<or> finite P \<and> card (P \<union> holds t) < NBUF"
    using room bioD(5) [OF t(1)] P(1) by auto
  then obtain b u where b: "bread ROOTDEV n t = Done b u" "got p P t n b u"
    using bread_ok [OF t(1), of n] t(11) h mn by auto
  have "a \<noteq> b" using t(8) gotD(7) [OF b(2)] by auto
  then show thesis using that a b by blast
qed

lemma trunc_blit_trunc: "trunc (blit BSIZE d 0 0 e) = trunc d"
  by (rule trunc_blit)

lemma write_log_step:
  assumes l: "log_dev l = ROOTDEV" "log_slot l tail = m" "lh_block l tail = n"
    and inv: "bio p P s" and h: "holds s = {}" and P: "finite P" "card P < NBUF" and m: "m \<notin> P" and n: "n \<in> P"
  shows "\<exists>t. write_log_one l tail s = Done () t \<and> wrote p P s [(m, cur s n)] t"
proof -
  have mn: "m \<noteq> n" using m n by blast
  obtain a b t u where a: "bread ROOTDEV m s = Done a t" "got p P s m a t" and b: "bread ROOTDEV n t = Done b u" "got p P t n b u"
    and ab: "a \<noteq> b" by (rule two_reads [OF inv h P mn disjI1 [OF n]])
  note t = gotD [OF a(2)] and u = gotD [OF b(2)]
  let ?d = "blit BSIZE (bdata (bufs u b)) 0 0 (bdata (bufs u a))"
  let ?v = "u\<lparr>bufs := (bufs u)(a := (bufs u a)\<lparr>bdata := ?d\<rparr>)\<rparr>"
  have ua: "blocked u a" "bufs u a = bufs t a" using u(12) [OF t(6,8)] by auto
  note v = set_data_ok [OF u(1) t(6) ua(1), of ?d]
  have d: "trunc ?d = cur s n" using u(10) t(5) by simp
  obtain w where w: "bwrite a ?v = Done () w" "bio p P w" "beyond w = beyond ?v" "\<forall>m. cur w m = cur ?v m" "holds w = holds ?v"
    "bufs w = bufs ?v" "\<forall>c. blocked w c = blocked ?v c"
    "\<forall>k. trunc (disk w k) = (if k = bblockno (bufs ?v a) then trunc (bdata (bufs ?v a)) else trunc (disk ?v k))"
    "dtrace w = dtrace ?v @ [(bblockno (bufs ?v a), trunc (bdata (bufs ?v a)))]"
    using bwrite_ok [OF v(1) t(6)] v(5) ua(1) by blast
  have wb: "blocked w b" "bblockno (bufs w b) = n" "blocked w a" "bblockno (bufs w a) = m" "bdata (bufs w a) = ?d"
    using w(6,7) v(5) u(8,9) ua t(9) ab by simp_all
  obtain x where x: "brelse b w = Done () x" "gone p P w b x"
    using brelse_ok [OF w(2) u(6) wb(1)] wb(2) n by blast
  have xa: "blocked x a" "bufs x a = bufs w a" using goneD(7) [OF x(2) t(6) wb(3)] ab by auto
  have "trunc (bdata (bufs x a)) = trunc (disk x (bblockno (bufs x a)))"
    using xa(2) w(8) wb(4,5) goneD(3) [OF x(2)] ua t(9) by simp
  then obtain y where y: "brelse a x = Done () y" "gone p P x a y"
    using brelse_ok [OF goneD(1) [OF x(2)] t(6) xa(1)] by blast
  have bey: "beyond ?v = beyond u" by (simp add: beyond_def)
  have "wrote p P s [(m, cur s n)] y"
    unfolding wrote_def
  proof (intro conjI allI)
    show "holds y = {}"
      using goneD(6) [OF y(2)] goneD(6) [OF x(2)] w(5) v(3) u(11) t(11) h wb xa by auto
    show "beyond y = beyond s"
      using goneD(2) [OF y(2)] goneD(2) [OF x(2)] w(3) bey u(2) t(2) by simp
    show "dtrace y = dtrace s @ [(m, cur s n)]"
      using goneD(4) [OF y(2)] goneD(4) [OF x(2)] w(9) u(4) t(4) ua t(9) d by simp
    show "trunc (disk y k) = apply_writes [(m, cur s n)] (\<lambda>m. trunc (disk s m)) k" for k
      using goneD(3) [OF y(2)] goneD(3) [OF x(2)] w(8) u(3) t(3) ua t(9) d by simp
    show "cur y k = apply_writes [(m, cur s n)] (cur s) k" for k
      using goneD(5) [OF y(2)] goneD(5) [OF x(2)] w(4) v(2) u(5) t(5) ua t(9) d by simp
  qed (rule goneD(1) [OF y(2)])
  then show ?thesis
    using a(1) b(1) w(1) x(1) y(1) l by (auto simp: write_log_one_def exec_simps)
qed

lemma install_step:
  assumes l: "log_dev l = ROOTDEV" "log_slot l tail = m" "lh_block l tail = n"
    and inv: "bio p P s" and h: "holds s = {}" and P: "finite P" "card P < NBUF" and m: "m \<notin> P" "m \<noteq> n"
    and n: "if recovering then P = {} else n \<in> P"
  shows "\<exists>t. install_one recovering l tail s = Done () t \<and> wrote p (P - {n}) s [(n, cur s m)] t"
proof -
  have room: "n \<in> P \<or> card P + 1 < NBUF" using n by (auto split: if_splits)
  obtain a b t u where a: "bread ROOTDEV m s = Done a t" "got p P s m a t" and b: "bread ROOTDEV n t = Done b u" "got p P t n b u"
    and ab: "a \<noteq> b" by (rule two_reads [OF inv h P m(2) room])
  note t = gotD [OF a(2)] and u = gotD [OF b(2)]
  have ua: "blocked u a" "bufs u a = bufs t a" using u(12) [OF t(6,8)] by auto
  let ?d = "blit BSIZE (bdata (bufs u a)) 0 0 (bdata (bufs u b))"
  let ?v = "u\<lparr>bufs := (bufs u)(b := (bufs u b)\<lparr>bdata := ?d\<rparr>)\<rparr>"
  note v = set_data_ok [OF u(1,6,8), of ?d]
  have d: "trunc ?d = cur s m" using ua t(10) by simp
  obtain w where w: "bwrite b ?v = Done () w" "bio p P w" "beyond w = beyond ?v" "\<forall>m. cur w m = cur ?v m" "holds w = holds ?v"
    "bufs w = bufs ?v" "\<forall>c. blocked w c = blocked ?v c"
    "\<forall>k. trunc (disk w k) = (if k = bblockno (bufs ?v b) then trunc (bdata (bufs ?v b)) else trunc (disk ?v k))"
    "dtrace w = dtrace ?v @ [(bblockno (bufs ?v b), trunc (bdata (bufs ?v b)))]"
    using bwrite_ok [OF v(1) u(6)] v(5) u(8) by blast
  have wb: "blocked w b" "bblockno (bufs w b) = n" "blocked w a" "bufs w a = bufs t a" "bdata (bufs w b) = ?d"
    using w(6,7) v(5) u(8,9) ua t(9) ab by simp_all
  obtain z where z: "whenM (\<not> recovering) (bunpin b) w = Done () z" "bio p (P - {n}) z" "beyond z = beyond w" "disk z = disk w"
    "dtrace z = dtrace w" "\<forall>m. cur z m = cur w m" "holds z = holds w" "blocked z a" "bufs z a = bufs w a" "blocked z b"
    "bdata (bufs z b) = ?d" "bblockno (bufs z b) = n"
  proof (cases recovering)
    case True
    then show thesis using that [of w] w(2) wb n by (simp add: whenM_def exec_simps)
  next
    case False
    obtain z where z: "bunpin b w = Done () z" "bio p (P - {bblockno (bufs w b)}) z" "beyond z = beyond w" "disk z = disk w"
     "dtrace z = dtrace w" "\<forall>m. cur z m = cur w m" "holds z = holds w" "keeps_held b w z" "blocked z b"
     "bufs z b = (bufs w b)\<lparr>brefcnt := brefcnt (bufs z b)\<rparr>"
      using bunpin_ok [OF w(2) u(6) wb(1)] wb(2) n False by auto
    moreover have "bdata (bufs z b) = ?d" "bblockno (bufs z b) = n"
      using arg_cong [OF z(10), of bdata] arg_cong [OF z(10), of bblockno] wb by simp_all
    ultimately show thesis
      using that [of z] wb False t(6) ab by (simp add: whenM_def keeps_held_def)
  qed
  have "trunc (bdata (bufs z a)) = trunc (disk z (bblockno (bufs z a)))"
    using z(4,9) wb(4) w(8) u(3,9) t(3,9,10) cur_clean [OF inv m(1)] h m(2) by simp
  then obtain x where x: "brelse a z = Done () x" "gone p (P - {n}) z a x"
    using brelse_ok [OF z(2) t(6) z(8)] by blast
  have xb: "blocked x b" "bufs x b = bufs z b" using goneD(7) [OF x(2) u(6) z(10)] ab by auto
  have "trunc (bdata (bufs x b)) = trunc (disk x (bblockno (bufs x b)))"
    using xb(2) z(4,11,12) w(8) wb(2,5) goneD(3) [OF x(2)] u(9) by simp
  then obtain y where y: "brelse b x = Done () y" "gone p (P - {n}) x b y"
    using brelse_ok [OF goneD(1) [OF x(2)] u(6) xb(1)] by blast
  have bey: "beyond ?v = beyond u" by (simp add: beyond_def)
  have "wrote p (P - {n}) s [(n, cur s m)] y"
    unfolding wrote_def
  proof (intro conjI allI)
    show "holds y = {}"
      using goneD(6) [OF y(2)] goneD(6) [OF x(2)] z(7,9,12) w(5) v(3) u(11) t(9,11) h wb xb by auto
    show "beyond y = beyond s"
      using goneD(2) [OF y(2)] goneD(2) [OF x(2)] z(3) w(3) bey u(2) t(2) by simp
    show "dtrace y = dtrace s @ [(n, cur s m)]"
      using goneD(4) [OF y(2)] goneD(4) [OF x(2)] z(5) w(9) u(4,9) t(4) d by simp
    show "trunc (disk y k) = apply_writes [(n, cur s m)] (\<lambda>m. trunc (disk s m)) k" for k
      using goneD(3) [OF y(2)] goneD(3) [OF x(2)] z(4) w(8) u(3,9) t(3) d by simp
    show "cur y k = apply_writes [(n, cur s m)] (cur s) k" for k
      using goneD(5) [OF y(2)] goneD(5) [OF x(2)] z(6) w(4) v(2) u(5,9) t(5) d by simp
  qed (rule goneD(1) [OF y(2)])
  then show ?thesis
    using a(1) b(1) w(1) x(1) y(1) z(1) l by (auto simp: install_one_def exec_simps)
qed

lemma write_loop:
  assumes l: "log_dev l = ROOTDEV" and inv: "bio p P s" "holds s = {}" and P: "finite P" "card P < NBUF"
    and n: "\<forall>i < n. log_slot l i \<notin> P \<and> lh_block l i \<in> P"
  shows "\<exists>t. for_each [0..<n] (write_log_one l) s = Done () t \<and>
    wrote p P s (map (\<lambda>i. (log_slot l i, cur s (lh_block l i))) [0..<n]) t"
  using n
proof (induction n)
  case 0
  then show ?case using inv by (simp add: exec_simps wrote_refl)
next
  case (Suc n)
  let ?ws = "\<lambda>n. map (\<lambda>i. (log_slot l i, cur s (lh_block l i))) [0..<n]"
  obtain t where t: "for_each [0..<n] (write_log_one l) s = Done () t" "wrote p P s (?ws n) t"
    using Suc by auto
  have n: "log_slot l n \<notin> P" "lh_block l n \<in> P" using Suc.prems by auto
  obtain u where u: "write_log_one l n t = Done () u" "wrote p P t [(log_slot l n, cur t (lh_block l n))] u"
    using write_log_step [OF l refl refl wroteD(1,2) [OF t(2)] P n] by blast
  have "lh_block l n \<notin> fst ` set (?ws n)" using Suc.prems n by force
  then have "cur t (lh_block l n) = cur s (lh_block l n)" using wroteD(6) [OF t(2)] by (simp add: apply_writes_other)
  then have "wrote p P s (?ws (Suc n)) u" using wrote_trans [OF t(2) u(2)] by simp
  moreover have "for_each [0..<Suc n] (write_log_one l) s = Done () u"
    using t(1) u(1) by (simp add: for_each_append exec_simps)
  ultimately show ?case by blast
qed

lemma install_loop:
  assumes l: "log_dev l = ROOTDEV" and inv: "bio p P s" "holds s = {}" and P: "finite P" "card P < NBUF"
    and n: "\<forall>i < n. log_slot l i \<notin> P \<and> (\<forall>j < n. log_slot l i \<noteq> lh_block l j)"
      "if recovering then P = {} else inj_on (lh_block l) {..<n} \<and> lh_block l ` {..<n} \<subseteq> P"
  shows "\<exists>t. for_each [0..<n] (install_one recovering l) s = Done () t \<and>
    wrote p (P - lh_block l ` {..<n}) s (map (\<lambda>i. (lh_block l i, cur s (log_slot l i))) [0..<n]) t"
  using n
proof (induction n)
  case 0
  then show ?case using inv by (simp add: exec_simps wrote_refl)
next
  case (Suc n)
  let ?ws = "\<lambda>n. map (\<lambda>i. (lh_block l i, cur s (log_slot l i))) [0..<n]"
  let ?Q = "P - lh_block l ` {..<n}"
  have "\<forall>i < n. log_slot l i \<notin> P \<and> (\<forall>j < n. log_slot l i \<noteq> lh_block l j)" using Suc.prems(1) by auto
  moreover have "if recovering then P = {} else inj_on (lh_block l) {..<n} \<and> lh_block l ` {..<n} \<subseteq> P"
    using Suc.prems(2) by (auto simp: inj_on_def split: if_splits)
  ultimately obtain t where t: "for_each [0..<n] (install_one recovering l) s = Done () t" "wrote p ?Q s (?ws n) t"
    using Suc.IH by blast
  have Q: "finite ?Q" "card ?Q < NBUF"
    using P card_mono [of P ?Q] by auto
  have n: "log_slot l n \<notin> ?Q" "log_slot l n \<noteq> lh_block l n" using Suc.prems(1) by auto
  have r: "if recovering then ?Q = {} else lh_block l n \<in> ?Q"
  proof (cases recovering)
    case False
    then have "inj_on (lh_block l) {..<Suc n}" "lh_block l n \<in> P" using Suc.prems(2) by auto
    then show ?thesis using False by (auto dest: inj_onD)
  qed (use Suc.prems(2) in simp)
  obtain u where u: "install_one recovering l n t = Done () u" "wrote p (?Q - {lh_block l n}) t [(lh_block l n, cur t (log_slot l n))] u"
    using install_step [OF l refl refl wroteD(1,2) [OF t(2)] Q n r] by blast
  have "log_slot l n \<noteq> lh_block l j" if "j < n" for j using Suc.prems(1) that by auto
  then have "log_slot l n \<notin> fst ` set (?ws n)" by (force simp: image_iff)
  then have "cur t (log_slot l n) = cur s (log_slot l n)" using wroteD(6) [OF t(2)] by (simp add: apply_writes_other)
  moreover have "?Q - {lh_block l n} = P - lh_block l ` {..<Suc n}" by (auto simp: less_Suc_eq)
  ultimately have "wrote p (P - lh_block l ` {..<Suc n}) s (?ws (Suc n)) u" using wrote_trans [OF t(2) u(2)] by simp
  moreover have "for_each [0..<Suc n] (install_one recovering l) s = Done () u"
    using t(1) u(1) by (simp add: for_each_append exec_simps)
  ultimately show ?case by blast
qed

subsection \<open>The header\<close>

definition hd_n :: "bytes \<Rightarrow> nat" where
  "hd_n h = nat (s32 (rd 4 h 0))"

definition hd_block :: "bytes \<Rightarrow> nat \<Rightarrow> nat" where
  "hd_block h i = rd 4 h (4 + 4 * i)"

definition head_bytes :: "int \<Rightarrow> (nat \<Rightarrow> nat) \<Rightarrow> bytes \<Rightarrow> bytes" where
  "head_bytes n blk h = fold (\<lambda>i. wr 4 (blk i) (4 + 4 * i)) [0..<nat n] (wr 4 (bits32 n) 0 h)"

lemma head_fold:
  "rd 4 (fold (\<lambda>i. wr 4 (blk i) (4 + 4 * i)) [0..<n] h) 0 = rd 4 h 0"
  "\<forall>i < n. blk i < 2 ^ 32 \<Longrightarrow> j < n \<Longrightarrow> rd 4 (fold (\<lambda>i. wr 4 (blk i) (4 + 4 * i)) [0..<n] h) (4 + 4 * j) = blk j"
proof -
  show "rd 4 (fold (\<lambda>i. wr 4 (blk i) (4 + 4 * i)) [0..<n] h) 0 = rd 4 h 0"
    by (induction n) (simp_all add: le_simps)
  show "rd 4 (fold (\<lambda>i. wr 4 (blk i) (4 + 4 * i)) [0..<n] h) (4 + 4 * j) = blk j" if "\<forall>i < n. blk i < 2 ^ 32" "j < n"
    using that
  proof (induction n)
    case (Suc n)
    then show ?case by (cases "j = n") (simp_all add: le_simps)
  qed simp
qed

lemma rd_trunc: "off + k \<le> BSIZE \<Longrightarrow> rd k (trunc d) off = rd k d off"
  by (rule rd_cong) (simp add: trunc_def)

lemma hd_head_bytes:
  assumes "0 \<le> n" "n \<le> int LOGSIZE" "\<forall>i < nat n. blk i < 2 ^ 32"
  shows "hd_n (trunc (head_bytes n blk h)) = nat n" "i < nat n \<Longrightarrow> hd_block (trunc (head_bytes n blk h)) i = blk i"
proof -
  have "bits32 n < 2 ^ 32" by (rule bits32_less)
  then show "hd_n (trunc (head_bytes n blk h)) = nat n"
    using assms by (simp add: hd_n_def head_bytes_def rd_trunc head_fold(1) le_simps s32_bits32)
  show "hd_block (trunc (head_bytes n blk h)) i = blk i" if "i < nat n"
    using assms that by (simp add: hd_block_def head_bytes_def rd_trunc head_fold(2))
qed

lemma trunc_wr: "trunc (wr n v off d) = trunc (wr n v off (trunc d))"
  by (auto simp: trunc_def wr_def fun_eq_iff)

lemma trunc_head_bytes: "trunc (head_bytes n blk h) = trunc (head_bytes n blk (trunc h))"
proof -
  have "trunc (wr k v off d) = trunc (wr k v off e)" if "trunc d = trunc e" for k v off d e
    by (subst trunc_wr, subst that, subst trunc_wr [symmetric], rule refl)
  note one = this
  have "trunc (fold (\<lambda>i. wr 4 (blk i) (4 + 4 * i)) ks d) = trunc (fold (\<lambda>i. wr 4 (blk i) (4 + 4 * i)) ks e)"
    if "trunc d = trunc e" for ks d e
    using that
  proof (induction ks arbitrary: d e)
    case (Cons k ks)
    show ?case by (simp add: Cons.IH [OF one [OF Cons.prems]])
  qed simp
  moreover have "trunc (wr 4 (bits32 n) 0 h) = trunc (wr 4 (bits32 n) 0 (trunc h))" by (rule one) simp
  ultimately show ?thesis unfolding head_bytes_def by blast
qed

text \<open>The log record itself does not matter to the cache.\<close>

lemma the_log_cache [simp]:
  "bio p P (s\<lparr>the_log := l\<rparr>) = bio p P s" "cur (s\<lparr>the_log := l\<rparr>) = cur s" "holds (s\<lparr>the_log := l\<rparr>) = holds s"
  "blocked (s\<lparr>the_log := l\<rparr>) b = blocked s b" "cached (s\<lparr>the_log := l\<rparr>) = cached s"
proof -
  show c: "cached (s\<lparr>the_log := l\<rparr>) = cached s" by (simp add: cached_def fun_eq_iff)
  show bl: "blocked (s\<lparr>the_log := l\<rparr>) b = blocked s b" for b by (simp add: blocked_def)
  show "cur (s\<lparr>the_log := l\<rparr>) = cur s" by (intro ext) (simp add: cur_def c split: option.split)
  show "holds (s\<lparr>the_log := l\<rparr>) = holds s" by (simp add: holds_def bl)
  show "bio p P (s\<lparr>the_log := l\<rparr>) = bio p P s"
    by (simp add: bio_def quiet_def lru_def bufs_unique_def buf_ok_def bl c)
qed

lemma beyond_log:
  assumes "beyond t = beyond s"
  shows "the_log t = the_log s" "beyond (t\<lparr>the_log := l\<rparr>) = beyond (s\<lparr>the_log := l\<rparr>)"
proof -
  have "bstate.more t = bstate.more s" using assms by (simp add: beyond_def)
  then show "the_log t = the_log s" by (cases t, cases s) simp
  show "beyond (t\<lparr>the_log := l\<rparr>) = beyond (s\<lparr>the_log := l\<rparr>)"
    using assms by (cases t, cases s) (simp add: beyond_def)
qed

lemma wrote_log: "wrote p P s ws t \<Longrightarrow> wrote p P (s\<lparr>the_log := l\<rparr>) ws (t\<lparr>the_log := l\<rparr>)"
  unfolding wrote_def using beyond_log(2) [of t s l] by simp

lemma set_buf_loop:
  "for_each ks (\<lambda>i. set_buf b (\<lambda>x. x\<lparr>bdata := f i (bdata x)\<rparr>)) s =
     Done () (s\<lparr>bufs := (bufs s)(b := (bufs s b)\<lparr>bdata := fold f ks (bdata (bufs s b))\<rparr>)\<rparr>)"
  by (induction ks arbitrary: s) (simp_all add: exec_simps)

lemma write_head_ok:
  assumes l: "log_dev (the_log s) = ROOTDEV" "log_start (the_log s) = int L" "L < 2 ^ 32"
    and inv: "bio p P s" "holds s = {}" and P: "finite P" "card P < NBUF"
  shows "\<exists>t. write_head s = Done () t \<and>
    wrote p P s [(L, trunc (head_bytes (lh_n (the_log s)) (lh_block (the_log s)) (cur s L)))] t"
proof -
  let ?l = "the_log s"
  obtain b t where b: "bread ROOTDEV L s = Done b t" "got p P s L b t"
    using bread_ok [OF inv(1), of L] inv(2) P by auto
  note t = gotD [OF b(2)]
  let ?d = "head_bytes (lh_n ?l) (lh_block ?l) (bdata (bufs t b))"
  let ?u = "t\<lparr>bufs := (bufs t)(b := (bufs t b)\<lparr>bdata := ?d\<rparr>)\<rparr>"
  note u = set_data_ok [OF t(1,6,8), of ?d]
  obtain w where w: "bwrite b ?u = Done () w" "bio p P w" "beyond w = beyond ?u" "\<forall>m. cur w m = cur ?u m" "holds w = holds ?u"
    "bufs w = bufs ?u" "\<forall>c. blocked w c = blocked ?u c"
    "\<forall>k. trunc (disk w k) = (if k = bblockno (bufs ?u b) then trunc (bdata (bufs ?u b)) else trunc (disk ?u k))"
    "dtrace w = dtrace ?u @ [(bblockno (bufs ?u b), trunc (bdata (bufs ?u b)))]"
    using bwrite_ok [OF u(1) t(6)] u(5) t(8) by blast
  have wb: "blocked w b" "bblockno (bufs w b) = L" "bdata (bufs w b) = ?d" using w(6,7) u(5) t(8,9) by simp_all
  have "trunc (bdata (bufs w b)) = trunc (disk w (bblockno (bufs w b)))"
    using wb w(8) t(9) by simp
  then obtain y where y: "brelse b w = Done () y" "gone p P w b y"
    using brelse_ok [OF w(2) t(6) wb(1)] by blast
  have d: "trunc ?d = trunc (head_bytes (lh_n ?l) (lh_block ?l) (cur s L))"
    using trunc_head_bytes [of "lh_n ?l" "lh_block ?l" "bdata (bufs t b)"] t(10) by simp
  have bey: "beyond ?u = beyond t" by (simp add: beyond_def)
  have "wrote p P s [(L, trunc (head_bytes (lh_n ?l) (lh_block ?l) (cur s L)))] y"
    unfolding wrote_def
  proof (intro conjI allI)
    show "holds y = {}" using goneD(6) [OF y(2)] w(5) u(3) t(11) inv(2) wb by auto
    show "beyond y = beyond s" using goneD(2) [OF y(2)] w(3) bey t(2) by simp
    show "dtrace y = dtrace s @ [(L, trunc (head_bytes (lh_n ?l) (lh_block ?l) (cur s L)))]"
      using goneD(4) [OF y(2)] w(9) t(4,9) d by simp
    show "trunc (disk y k) = apply_writes [(L, trunc (head_bytes (lh_n ?l) (lh_block ?l) (cur s L)))] (\<lambda>m. trunc (disk s m)) k" for k
      using goneD(3) [OF y(2)] w(8) t(3,9) d by simp
    show "cur y k = apply_writes [(L, trunc (head_bytes (lh_n ?l) (lh_block ?l) (cur s L)))] (cur s) k" for k
      using goneD(5) [OF y(2)] w(4) u(2) t(5,9) d by simp
  qed (rule goneD(1) [OF y(2)])
  moreover have "bits32 (int L) = L" using l(3) by (simp add: bits32_def nat_mod_distrib)
  then have "write_head s = Done () y"
    using b(1) w(1) y(1) l by (simp add: write_head_def exec_simps head_bytes_def
        set_buf_loop [where f = "\<lambda>i. wr 4 (lh_block ?l i) (4 + 4 * i)"])
  ultimately show ?thesis by blast
qed

lemma set_log_loop:
  "for_each [0..<n] (\<lambda>i. set_log (\<lambda>l. l\<lparr>lh_block := (lh_block l)(i := f i)\<rparr>)) s =
     Done () (s\<lparr>the_log := (the_log s)\<lparr>lh_block := (\<lambda>i. if i < n then f i else lh_block (the_log s) i)\<rparr>\<rparr>)"
proof (induction n)
  case (Suc n)
  let ?b = "\<lambda>n i. if i < n then f i else lh_block (the_log s) i"
  have b: "(?b n)(n := f n) = ?b (Suc n)" by auto
  have "for_each [0..<Suc n] (\<lambda>i. set_log (\<lambda>l. l\<lparr>lh_block := (lh_block l)(i := f i)\<rparr>)) s =
     Done () (s\<lparr>the_log := (the_log s)\<lparr>lh_block := (?b n)(n := f n)\<rparr>\<rparr>)"
    unfolding upt_Suc_append [OF le0] for_each_append by (simp add: Suc exec_simps cong: if_cong)
  then show ?case unfolding b .
qed (simp add: exec_simps)

lemma read_head_ok:
  assumes l: "log_dev (the_log s) = ROOTDEV" "log_start (the_log s) = int L" "L < 2 ^ 32"
    and inv: "bio p {} s" "holds s = {}" and n: "hd_n (cur s L) \<le> LOGSIZE"
  shows "\<exists>t l'. read_head s = Done () (t\<lparr>the_log := l'\<rparr>) \<and> wrote p {} s [] t \<and> nat (lh_n l') = hd_n (cur s L) \<and>
    (\<forall>i < hd_n (cur s L). lh_block l' i = hd_block (cur s L) i) \<and> log_start l' = int L \<and> log_dev l' = ROOTDEV \<and>
    log_size l' = log_size (the_log s) \<and> outstanding l' = outstanding (the_log s) \<and> committing l' = committing (the_log s)"
proof -
  obtain b t where b: "bread ROOTDEV L s = Done b t" "got p {} s L b t"
    using bread_ok [OF inv(1), of L] inv(2) by auto
  note t = gotD [OF b(2)]
  let ?h = "bdata (bufs t b)"
  have n': "hd_n ?h = hd_n (cur s L)" "\<forall>i < hd_n (cur s L). hd_block ?h i = hd_block (cur s L) i"
    using n t(10) [symmetric] by (simp_all add: hd_n_def hd_block_def rd_trunc)
  let ?l = "(the_log t)\<lparr>lh_n := s32 (rd 4 ?h 0), lh_block := (\<lambda>i. if i < hd_n ?h then hd_block ?h i else lh_block (the_log t) i)\<rparr>"
  let ?u = "t\<lparr>the_log := ?l\<rparr>"
  have u: "bio p {} ?u" "blocked ?u b" using t(1,8) by simp_all
  have "trunc ?h = trunc (disk t L)" using t(3,10) cur_clean [OF inv(1)] inv(2) by simp
  then obtain y where y: "brelse b ?u = Done () y" "gone p {} ?u b y"
    using brelse_ok [OF u(1) t(6) u(2)] t(9) by auto
  have "bits32 (int L) = L" using l(3) by (simp add: bits32_def nat_mod_distrib)
  then have run: "read_head s = Done () y"
    using b(1) y(1) l by (simp add: read_head_def exec_simps set_log_loop hd_n_def hd_block_def cong: if_cong)
  have ly: "the_log y = ?l" using beyond_log(1) [OF goneD(2) [OF y(2)]] by simp
  let ?z = "y\<lparr>the_log := the_log s\<rparr>"
  have lt: "the_log t = the_log s" using beyond_log(1) [OF t(2)] .
  have bz: "beyond ?z = beyond s"
  proof -
    have "beyond ?z = beyond (?u\<lparr>the_log := the_log s\<rparr>)" by (rule beyond_log(2) [OF goneD(2) [OF y(2)]])
    also have "?u\<lparr>the_log := the_log s\<rparr> = t" using lt by (cases t) simp
    finally show ?thesis using t(2) by simp
  qed
  have "wrote p {} s [] ?z"
    unfolding wrote_def using goneD [OF y(2)] t(3,4,5,9,11) inv(2) bz by simp
  moreover have "?z\<lparr>the_log := ?l\<rparr> = y" using ly by (cases y) simp
  ultimately show ?thesis
    using run n' l lt by (intro exI [of _ ?z] exI [of _ ?l]) (simp add: hd_n_def)
qed

subsection \<open>Recovery\<close>

definition installs :: "nat \<Rightarrow> (nat \<Rightarrow> bytes) \<Rightarrow> (nat \<times> bytes) list" where
  "installs L d = map (\<lambda>i. (hd_block (d L) i, d (L + 1 + i))) [0..<hd_n (d L)]"

definition recovered :: "nat \<Rightarrow> (nat \<Rightarrow> bytes) \<Rightarrow> nat \<Rightarrow> bytes" where
  "recovered L d = apply_writes (installs L d) d"

definition in_log :: "nat \<Rightarrow> nat \<Rightarrow> bool" where
  "in_log L m = (L \<le> m \<and> m < L + LOGSIZE)"

text \<open>A header block that the code can follow.\<close>

definition head_ok :: "nat \<Rightarrow> bytes \<Rightarrow> bool" where
  "head_ok L h = (hd_n h < LOGSIZE \<and> (\<forall>i < hd_n h. \<not> in_log L (hd_block h i)))"

definition log_at :: "nat \<Rightarrow> log \<Rightarrow> bool" where
  "log_at L l = (log_dev l = ROOTDEV \<and> log_start l = int L \<and> L + LOGSIZE + 1 < 2 ^ 31)"

lemma log_slot_eq: "log_at L l \<Longrightarrow> i < LOGSIZE \<Longrightarrow> log_slot l i = L + 1 + i"
  by (simp add: log_at_def log_slot_def bits32_def nat_mod_distrib nat_add_distrib)

lemma log_atD: "log_at L l \<Longrightarrow> log_dev l = ROOTDEV" "log_at L l \<Longrightarrow> log_start l = int L" "log_at L l \<Longrightarrow> L < 2 ^ 32"
  by (simp_all add: log_at_def)

lemma recover_ok:
  assumes l: "log_at L (the_log s)" and inv: "bio p {} s" "holds s = {}" and h: "head_ok L (cur s L)"
  shows "\<exists>t l'. recover_from_log s = Done () (t\<lparr>the_log := l'\<rparr>) \<and> log_at L l' \<and> lh_n l' = 0 \<and>
    log_size l' = log_size (the_log s) \<and> outstanding l' = outstanding (the_log s) \<and> committing l' = committing (the_log s) \<and>
    wrote p {} s (installs L (cur s) @ [(L, trunc (wr 4 0 0 (cur s L)))]) t"
proof -
  let ?h = "cur s L" and ?n = "hd_n (cur s L)"
  have n: "?n \<le> LOGSIZE" using h by (simp add: head_ok_def)
  obtain t l' where r: "read_head s = Done () (t\<lparr>the_log := l'\<rparr>)" "wrote p {} s [] t" "nat (lh_n l') = ?n"
    "\<forall>i < ?n. lh_block l' i = hd_block ?h i" "log_start l' = int L" "log_dev l' = ROOTDEV"
    "log_size l' = log_size (the_log s)" "outstanding l' = outstanding (the_log s)" "committing l' = committing (the_log s)"
    using read_head_ok [OF log_atD [OF l] inv n] by blast
  let ?t = "t\<lparr>the_log := l'\<rparr>"
  have l': "log_at L l'" using r(5,6) l by (simp add: log_at_def)
  have cur_t: "cur t = cur s" using wroteD(6) [OF r(2)] by auto
  have sl: "\<forall>i < ?n. log_slot l' i \<notin> {} \<and> (\<forall>j < ?n. log_slot l' i \<noteq> lh_block l' j)"
  proof (intro allI impI conjI)
    fix i j assume "i < ?n" "j < ?n"
    then show "log_slot l' i \<noteq> lh_block l' j"
      using h n r(4) log_slot_eq [OF l', of i] by (auto simp: head_ok_def in_log_def)
  qed simp
  obtain u where u: "for_each [0..<?n] (install_one True l') ?t = Done () u"
    "wrote p {} ?t (map (\<lambda>i. (lh_block l' i, cur ?t (log_slot l' i))) [0..<?n]) u"
    using install_loop [OF r(6), of p "{}" ?t ?n True] wroteD(1,2) [OF r(2)] sl by auto
  have ws: "map (\<lambda>i. (lh_block l' i, cur ?t (log_slot l' i))) [0..<?n] = installs L (cur s)"
    unfolding installs_def using n by (intro map_cong) (auto simp: r(4) cur_t log_slot_eq [OF l'])
  have lu: "the_log u = l'" using beyond_log(1) [OF wroteD(3) [OF u(2)]] by simp
  let ?l = "l'\<lparr>lh_n := 0\<rparr>"
  let ?v = "u\<lparr>the_log := ?l\<rparr>"
  have la: "log_at L (the_log ?v)" using l' by (simp add: log_at_def)
  obtain w where w: "write_head ?v = Done () w" "wrote p {} ?v [(L, trunc (head_bytes (lh_n (the_log ?v)) (lh_block (the_log ?v)) (cur ?v L)))] w"
    using write_head_ok [OF log_atD [OF la], of p "{}"] wroteD(1,2) [OF u(2)] by auto
  have lw: "the_log w = ?l" using beyond_log(1) [OF wroteD(3) [OF w(2)]] by simp
  have curL: "cur ?v L = ?h"
  proof -
    have "L \<notin> fst ` set (installs L (cur s))"
      using h by (auto simp: installs_def head_ok_def in_log_def)
    then show ?thesis using wroteD(6) [OF u(2) [unfolded ws], of L] cur_t by (simp add: apply_writes_other)
  qed
  have hb: "head_bytes (lh_n (the_log ?v)) (lh_block (the_log ?v)) (cur ?v L) = wr 4 0 0 ?h"
    using curL by (simp add: head_bytes_def bits32_def)
  let ?w = "w\<lparr>the_log := the_log s\<rparr>"
  have s': "s\<lparr>the_log := the_log s\<rparr> = s" by simp
  have "wrote p {} (s\<lparr>the_log := l'\<rparr>) (installs L (cur s)) u"
    using wrote_trans [OF wrote_log [OF r(2), of l'] u(2) [unfolded ws]] by simp
  then have "wrote p {} (s\<lparr>the_log := l', the_log := ?l\<rparr>) (installs L (cur s)) ?v" by (rule wrote_log)
  then have "wrote p {} (s\<lparr>the_log := ?l\<rparr>) (installs L (cur s) @ [(L, trunc (wr 4 0 0 ?h))]) w"
    using wrote_trans w(2) [unfolded hb] by fastforce
  then have "wrote p {} (s\<lparr>the_log := ?l, the_log := the_log s\<rparr>) (installs L (cur s) @ [(L, trunc (wr 4 0 0 ?h))]) ?w"
    by (rule wrote_log)
  then have "wrote p {} s (installs L (cur s) @ [(L, trunc (wr 4 0 0 ?h))]) ?w" by simp
  moreover have "recover_from_log s = Done () (?w\<lparr>the_log := ?l\<rparr>)"
  proof -
    have "install_trans True ?t = Done () u" using u(1) r(3) by (simp add: install_trans_def exec_simps)
    moreover have "?w\<lparr>the_log := ?l\<rparr> = w" using lw by (cases w) simp
    ultimately show ?thesis using r(1) w(1) lu by (simp add: recover_from_log_def exec_simps)
  qed
  ultimately show ?thesis using la r(7-9)
    by (intro exI [of _ ?w] exI [of _ ?l]) simp
qed

subsection \<open>Commit\<close>

definition log_inv :: "nat \<Rightarrow> nat \<Rightarrow> 'x lgstate_scheme \<Rightarrow> bool" where
  "log_inv p L s = (let l = the_log s; n = nat (lh_n l) in
     log_at L l \<and> 0 \<le> lh_n l \<and> lh_n l < log_size l \<and> log_size l \<le> int LOGSIZE \<and> inj_on (lh_block l) {..<n} \<and>
     (\<forall>i < n. \<not> in_log L (lh_block l i) \<and> lh_block l i < 2 ^ 32) \<and> bio p (lh_block l ` {..<n}) s \<and> hd_n (cur s L) = 0)"

definition home_writes :: "'x lgstate_scheme \<Rightarrow> (nat \<times> bytes) list" where
  "home_writes s = map (\<lambda>i. (lh_block (the_log s) i, cur s (lh_block (the_log s) i))) [0..<nat (lh_n (the_log s))]"

definition log_writes :: "nat \<Rightarrow> 'x lgstate_scheme \<Rightarrow> (nat \<times> bytes) list" where
  "log_writes L s = map (\<lambda>i. (L + 1 + i, cur s (lh_block (the_log s) i))) [0..<nat (lh_n (the_log s))]"

definition commit_head :: "nat \<Rightarrow> 'x lgstate_scheme \<Rightarrow> bytes" where
  "commit_head L s = trunc (head_bytes (lh_n (the_log s)) (lh_block (the_log s)) (cur s L))"

definition commit_writes :: "nat \<Rightarrow> 'x lgstate_scheme \<Rightarrow> (nat \<times> bytes) list" where
  "commit_writes L s = (if lh_n (the_log s) > 0 then
     log_writes L s @ (L, commit_head L s) # home_writes s @ [(L, trunc (wr 4 0 0 (commit_head L s)))] else [])"

lemma log_invD:
  assumes "log_inv p L s"
  shows "log_at L (the_log s)" "0 \<le> lh_n (the_log s)" "lh_n (the_log s) < int LOGSIZE"
    "inj_on (lh_block (the_log s)) {..<nat (lh_n (the_log s))}"
    "i < nat (lh_n (the_log s)) \<Longrightarrow> \<not> in_log L (lh_block (the_log s) i)"
    "i < nat (lh_n (the_log s)) \<Longrightarrow> lh_block (the_log s) i < 2 ^ 32"
    "bio p (lh_block (the_log s) ` {..<nat (lh_n (the_log s))}) s" "hd_n (cur s L) = 0"
  using assms by (auto simp: log_inv_def Let_def)

lemma commit_ok:
  assumes inv: "log_inv p L s" and h: "holds s = {}"
  shows "\<exists>t. commit s = Done () (t\<lparr>the_log := (the_log s)\<lparr>lh_n := 0\<rparr>\<rparr>) \<and> wrote p {} s (commit_writes L s) t"
proof (cases "lh_n (the_log s) > 0")
  case False
  have z: "lh_n (the_log s) = 0" using log_invD(2) [OF inv] False by linarith
  then have "s\<lparr>the_log := (the_log s)\<lparr>lh_n := 0\<rparr>\<rparr> = s" by simp
  then have "commit s = Done () (s\<lparr>the_log := (the_log s)\<lparr>lh_n := 0\<rparr>\<rparr>)"
    using z by (simp add: commit_def exec_simps)
  moreover have "wrote p {} s [] s" using wrote_refl [of p "{}" s] log_invD(7) [OF inv] z h by simp
  ultimately show ?thesis using z by (auto simp: commit_writes_def)
next
  case True
  let ?l = "the_log s" let ?n = "nat (lh_n ?l)" let ?P = "lh_block ?l ` {..<?n}"
  note l = log_invD(1) [OF inv]
  have n: "?n < LOGSIZE" using log_invD(2,3) [OF inv] by linarith
  have P: "finite ?P" "card ?P < NBUF" using n card_image_le [of "{..<?n}" "lh_block ?l"] by auto
  have slot: "log_slot ?l i = L + 1 + i" if "i < ?n" for i using log_slot_eq [OF l, of i] n that by simp
  have notP: "log_slot ?l i \<notin> ?P" if "i < ?n" for i
    using slot [OF that] log_invD(5) [OF inv] that n by (force simp: in_log_def)
  obtain t where t: "for_each [0..<?n] (write_log_one ?l) s = Done () t"
    "wrote p ?P s (map (\<lambda>i. (log_slot ?l i, cur s (lh_block ?l i))) [0..<?n]) t"
    using write_loop [OF log_atD(1) [OF l] log_invD(7) [OF inv] h P, of ?n] notP by auto
  have "map (\<lambda>i. (log_slot ?l i, cur s (lh_block ?l i))) [0..<?n] = log_writes L s"
    unfolding log_writes_def by (rule map_cong) (auto simp: slot)
  note t = t(1) t(2) [unfolded this]
  have lt: "the_log t = ?l" using beyond_log(1) [OF wroteD(3) [OF t(2)]] .
  have Lt: "cur t L = cur s L"
    using wroteD(6) [OF t(2), of L] by (subst (asm) apply_writes_other) (auto simp: log_writes_def)
  obtain u where u: "write_head t = Done () u" "wrote p ?P t [(L, commit_head L s)] u"
    using write_head_ok [OF log_atD [OF l [folded lt]] wroteD(1,2) [OF t(2)] P] by (auto simp: commit_head_def lt Lt)
  have lu: "the_log u = ?l" using beyond_log(1) [OF wroteD(3) [OF u(2)]] lt by simp
  have su: "wrote p ?P s (log_writes L s @ [(L, commit_head L s)]) u" by (rule wrote_trans [OF t(2) u(2)])
  have cslot: "cur u (log_slot ?l i) = cur s (lh_block ?l i)" if "i < ?n" for i
  proof -
    have "cur u (L + 1 + i) = cur t (L + 1 + i)" using wroteD(6) [OF u(2), of "L + 1 + i"] by simp
    also have "\<dots> = apply_writes (log_writes L s) (cur s) (L + 1 + i)" by (rule wroteD(6) [OF t(2)])
    also have "\<dots> = cur s (lh_block ?l i)"
      by (subst apply_writes_const [where c = "cur s (lh_block ?l i)"]) (use that in \<open>auto simp: log_writes_def image_iff\<close>)
    finally show ?thesis using slot [OF that] by simp
  qed
  obtain v where v: "for_each [0..<?n] (install_one False ?l) u = Done () v"
    "wrote p (?P - ?P) u (map (\<lambda>i. (lh_block ?l i, cur u (log_slot ?l i))) [0..<?n]) v"
    using install_loop [OF log_atD(1) [OF l] wroteD(1,2) [OF u(2)] P, of ?n False] notP log_invD(4) [OF inv] by auto
  have "map (\<lambda>i. (lh_block ?l i, cur u (log_slot ?l i))) [0..<?n] = home_writes s"
    unfolding home_writes_def by (rule map_cong) (auto simp: cslot)
  note v = v(1) v(2) [unfolded this Diff_cancel]
  have lv: "the_log v = ?l" using beyond_log(1) [OF wroteD(3) [OF v(2)]] lu by simp
  have Lv: "cur v L = commit_head L s"
  proof -
    have "L \<noteq> lh_block ?l i" if "i < ?n" for i using log_invD(5) [OF inv that] by (auto simp: in_log_def)
    then have "L \<notin> fst ` set (home_writes s)" by (force simp: home_writes_def)
    then have "cur v L = cur u L" using wroteD(6) [OF v(2), of L] by (simp add: apply_writes_other)
    then show ?thesis using wroteD(6) [OF u(2), of L] by simp
  qed
  let ?lz = "?l\<lparr>lh_n := 0\<rparr>"
  let ?v = "v\<lparr>the_log := ?lz\<rparr>"
  have la: "log_at L (the_log ?v)" using l by (simp add: log_at_def)
  obtain w where w: "write_head ?v = Done () w" "wrote p {} ?v [(L, trunc (wr 4 0 0 (commit_head L s)))] w"
    using write_head_ok [OF log_atD [OF la], of p "{}"] wroteD(1,2) [OF v(2)] Lv by (auto simp: head_bytes_def bits32_def)
  have lw: "the_log w = ?lz" using beyond_log(1) [OF wroteD(3) [OF w(2)]] by simp
  let ?w = "w\<lparr>the_log := ?l\<rparr>"
  have ws: "commit_writes L s = (log_writes L s @ [(L, commit_head L s)]) @ home_writes s @ [(L, trunc (wr 4 0 0 (commit_head L s)))]"
    using True by (simp add: commit_writes_def)
  have "wrote p {} v [(L, trunc (wr 4 0 0 (commit_head L s)))] ?w"
  proof -
    have "?v\<lparr>the_log := ?l\<rparr> = v" using lv by (cases v) simp
    then show ?thesis using wrote_log [OF w(2), where l = ?l] by simp
  qed
  then have "wrote p {} s (commit_writes L s) ?w"
    unfolding ws by (intro wrote_trans [OF su] wrote_trans [OF v(2)])
  moreover have "commit s = Done () (?w\<lparr>the_log := ?lz\<rparr>)"
  proof -
    have "write_log s = Done () t" "install_trans False u = Done () v"
      using t(1) v(1) lu by (simp_all add: write_log_def install_trans_def exec_simps)
    moreover have "?w\<lparr>the_log := ?lz\<rparr> = w" using lw by (cases w) simp
    ultimately show ?thesis using True u(1) w(1) lv by (simp add: commit_def exec_simps)
  qed
  ultimately show ?thesis by blast
qed

lemma recovered_empty: "hd_n (d L) = 0 \<Longrightarrow> recovered L d = d"
  by (simp add: recovered_def installs_def)

lemma hd_n_cleared: "hd_n (trunc (wr 4 0 0 h)) = 0"
  by (simp add: hd_n_def rd_trunc le_simps s32_def)

lemma home_applied:
  "apply_writes (home_writes s) d m = (if m \<in> lh_block (the_log s) ` {..<nat (lh_n (the_log s))} then cur s m else d m)"
proof -
  have "apply_writes (home_writes s) d m = (if m \<in> fst ` set (home_writes s) then cur s m else d m)"
    by (rule apply_writes_const) (auto simp: home_writes_def)
  moreover have "fst ` set (home_writes s) = lh_block (the_log s) ` {..<nat (lh_n (the_log s))}"
    by (simp add: home_writes_def image_image lessThan_atLeast0)
  ultimately show ?thesis by simp
qed

text \<open>The disk at the moment the header of the transaction has been written, and any time after it.\<close>

lemma crash_committed:
  fixes j :: nat
  assumes inv: "log_inv p L s" and h: "holds s = {}" and n: "lh_n (the_log s) > 0"
  defines "e \<equiv> apply_writes (log_writes L s @ [(L, commit_head L s)]) (\<lambda>m. trunc (disk s m))"
  defines "d \<equiv> apply_writes (take j (home_writes s)) e"
  shows "head_ok L (d L)" "\<not> in_log L m \<Longrightarrow> recovered L d m = cur s m"
proof -
  let ?l = "the_log s" let ?n = "nat (lh_n ?l)"
  have n': "?n < LOGSIZE" using log_invD(2,3) [OF inv] by linarith
  have tk: "m \<notin> fst ` set (take j (home_writes s))" if "\<And>i. i < ?n \<Longrightarrow> lh_block ?l i \<noteq> m" for m
    using that set_take_subset [of j "home_writes s"] by (force simp: home_writes_def)
  have inl: "d m = e m" if "in_log L m" for m
    unfolding d_def by (intro apply_writes_other tk) (use log_invD(5) [OF inv] that in blast)
  have dL: "d L = commit_head L s" using inl [of L] by (simp add: in_log_def e_def)
  have "\<forall>i < ?n. lh_block ?l i < 2 ^ 32" using log_invD(6) [OF inv] by blast
  then have hd: "hd_n (d L) = ?n" "i < ?n \<Longrightarrow> hd_block (d L) i = lh_block ?l i" for i
    unfolding dL commit_head_def using hd_head_bytes [of "lh_n ?l" "lh_block ?l"] log_invD(2) [OF inv] n' by auto
  show "head_ok L (d L)" using hd n' log_invD(5) [OF inv] by (simp add: head_ok_def)
  have slot: "d (L + 1 + i) = cur s (lh_block ?l i)" if "i < ?n" for i
  proof -
    have "d (L + 1 + i) = e (L + 1 + i)" using that n' by (intro inl) (simp add: in_log_def)
    also have "\<dots> = apply_writes (log_writes L s) (\<lambda>m. trunc (disk s m)) (L + 1 + i)" by (simp add: e_def)
    also have "\<dots> = cur s (lh_block ?l i)"
      by (subst apply_writes_const [where c = "cur s (lh_block ?l i)"]) (use that in \<open>auto simp: log_writes_def image_iff\<close>)
    finally show ?thesis .
  qed
  have "installs L d = home_writes s"
    unfolding installs_def home_writes_def hd(1) by (rule map_cong) (auto simp: hd(2) slot [simplified])
  then have r: "recovered L d m = (if m \<in> lh_block ?l ` {..<?n} then cur s m else d m)"
    by (simp add: recovered_def home_applied)
  show "recovered L d m = cur s m" if m: "\<not> in_log L m"
  proof (cases "m \<in> lh_block ?l ` {..<?n}")
    case False
    then have "d m = e m" unfolding d_def by (intro apply_writes_other tk) auto
    also have "e m = trunc (disk s m)"
      unfolding e_def using m n' by (subst apply_writes_other) (auto simp: log_writes_def in_log_def)
    also have "\<dots> = cur s m" using cur_clean [OF log_invD(7) [OF inv], of m] False h by simp
    finally show ?thesis using r False by simp
  qed (simp add: r)
qed

lemma commit_crash:
  fixes k :: nat
  assumes inv: "log_inv p L s" and h: "holds s = {}"
  defines "d \<equiv> apply_writes (take k (commit_writes L s)) (\<lambda>m. trunc (disk s m))"
  shows "head_ok L (d L) \<and> (\<forall>m. \<not> in_log L m \<longrightarrow>
    recovered L d m = (if k \<le> nat (lh_n (the_log s)) then trunc (disk s m) else cur s m))"
proof (cases "lh_n (the_log s) > 0")
  case False
  have z: "lh_n (the_log s) = 0" using log_invD(2) [OF inv] False by linarith
  have c: "cur s m = trunc (disk s m)" for m using cur_clean [OF log_invD(7) [OF inv], of m] z h by simp
  have "d = (\<lambda>m. trunc (disk s m))" using z by (simp add: d_def commit_writes_def)
  moreover from this have "hd_n (d L) = 0" using c [of L] log_invD(8) [OF inv] by simp
  ultimately show ?thesis using recovered_empty [of d L] c by (simp add: head_ok_def)
next
  case True
  let ?n = "nat (lh_n (the_log s))" and ?dz = "\<lambda>m. trunc (disk s m)"
  have n': "?n < LOGSIZE" using log_invD(2,3) [OF inv] by linarith
  have Lp: "L \<notin> lh_block (the_log s) ` {..<?n}" using log_invD(5) [OF inv] by (force simp: in_log_def)
  have len: "length (log_writes L s) = ?n" "length (home_writes s) = ?n" by (simp_all add: log_writes_def home_writes_def)
  have ws: "commit_writes L s = log_writes L s @ (L, commit_head L s) # home_writes s @ [(L, trunc (wr 4 0 0 (commit_head L s)))]"
    using True by (simp add: commit_writes_def)
  show ?thesis
  proof (cases "k \<le> ?n")
    case le: True
    then have d: "d = apply_writes (take k (log_writes L s)) ?dz" by (simp add: d_def ws len)
    have other: "d m = ?dz m" if "m \<notin> {L + 1..L + ?n}" for m
      unfolding d using that by (intro apply_writes_other) (auto simp: log_writes_def dest!: in_set_takeD)
    have "d L = cur s L" using other [of L] cur_clean [OF log_invD(7) [OF inv] Lp] h by simp
    then have z: "hd_n (d L) = 0" using log_invD(8) [OF inv] by simp
    then have "recovered L d m = ?dz m" if "\<not> in_log L m" for m
      using recovered_empty [of d L] other [of m] that n' by (auto simp: in_log_def)
    then show ?thesis using z le by (simp add: head_ok_def)
  next
    case gt: False
    obtain j where j: "k = ?n + 1 + j" using gt by (metis add.assoc le_add_diff_inverse not_less_eq_eq Suc_eq_plus1 add.commute)
    let ?e = "apply_writes (log_writes L s @ [(L, commit_head L s)]) ?dz"
    show ?thesis
    proof (cases "j \<le> ?n")
      case True
      then have "d = apply_writes (take j (home_writes s)) ?e" by (simp add: d_def ws len j)
      then show ?thesis using crash_committed [OF inv h \<open>lh_n (the_log s) > 0\<close>, where j = j] gt by simp
    next
      case False
      then have "d = (apply_writes (home_writes s) ?e)(L := trunc (wr 4 0 0 (commit_head L s)))"
        by (simp add: d_def ws len j)
      moreover from this have z: "hd_n (d L) = 0" by (simp add: hd_n_cleared)
      moreover have "apply_writes (home_writes s) ?e m = cur s m" if m: "\<not> in_log L m" for m
      proof (cases "m \<in> lh_block (the_log s) ` {..<?n}")
        case False
        then have "?e m = ?dz m" using m n' by (subst apply_writes_other) (auto simp: log_writes_def in_log_def)
        then show ?thesis using False cur_clean [OF log_invD(7) [OF inv] False] h by (simp only: home_applied) simp
      qed (simp only: home_applied if_True)
      ultimately show ?thesis
        using recovered_empty [of d L] gt by (auto simp: head_ok_def in_log_def)
    qed
  qed
qed

subsection \<open>Transactions\<close>

lemma recover_crash:
  fixes k :: nat
  assumes h: "head_ok L (dz L)"
  defines "d \<equiv> apply_writes (take k (installs L dz @ [(L, trunc (wr 4 0 0 (dz L)))])) dz"
  shows "head_ok L (d L) \<and> (\<forall>m. \<not> in_log L m \<longrightarrow> recovered L d m = recovered L dz m)"
proof -
  let ?ws = "installs L dz"
  have tgt: "\<not> in_log L m" if "m \<in> fst ` set ?ws" for m
    using that h by (auto simp: installs_def head_ok_def)
  show ?thesis
  proof (cases "k \<le> length ?ws")
    case True
    then have d: "d = apply_writes (take k ?ws) dz" by (simp add: d_def)
    have same: "d m = dz m" if "in_log L m \<or> m \<notin> fst ` set ?ws" for m
      unfolding d using that tgt set_take_subset [of k ?ws] by (intro apply_writes_other) blast
    have n: "hd_n (dz L) < LOGSIZE" using h by (simp add: head_ok_def)
    have "installs L d = ?ws"
      unfolding installs_def using n same [of L] same by (intro map_cong) (auto simp: in_log_def)
    then have "recovered L d m = apply_writes ?ws d m" for m by (simp add: recovered_def)
    also have "apply_writes ?ws d m = recovered L dz m" for m
      unfolding recovered_def by (rule apply_writes_cong) (simp add: same)
    finally show ?thesis using h same [of L] by (simp add: in_log_def)
  next
    case False
    then have d: "d = (recovered L dz)(L := trunc (wr 4 0 0 (dz L)))" by (simp add: d_def recovered_def)
    then have z: "hd_n (d L) = 0" by (simp add: hd_n_cleared)
    then have "recovered L d = d" by (rule recovered_empty)
    then show ?thesis using z d by (simp add: head_ok_def in_log_def)
  qed
qed

lemma bpin_exec:
  "quiet p s \<Longrightarrow> bpin b s = Done () (s\<lparr>bufs := (bufs s)(b := (bufs s b)\<lparr>brefcnt := inc32 (brefcnt (bufs s b))\<rparr>), mach := settle (mach s)\<rparr>)"
  using quietD [of p s] by (simp add: bpin_def exec_simps lock_simps)

definition log_slot_of :: "log \<Rightarrow> nat \<Rightarrow> nat" where
  "log_slot_of l n = (case find (\<lambda>i. lh_block l i = n) [0..<nat (lh_n l)] of Some i \<Rightarrow> i | None \<Rightarrow> nat (lh_n l))"

lemma log_write_exec:
  assumes "quiet p s" "lh_n (the_log s) < int LOGSIZE" "lh_n (the_log s) < log_size (the_log s) - 1" "1 \<le> outstanding (the_log s)"
  shows "log_write b s = Done () (let l = the_log s; i = log_slot_of l (bblockno (bufs s b)) in
    (if int i = lh_n l then s\<lparr>bufs := (bufs s)(b := (bufs s b)\<lparr>brefcnt := inc32 (brefcnt (bufs s b))\<rparr>), mach := settle (mach s),
        the_log := l\<lparr>lh_block := (lh_block l)(i := bblockno (bufs s b)), lh_n := lh_n l + 1\<rparr>\<rparr>
     else s\<lparr>mach := settle (mach s), the_log := l\<lparr>lh_block := (lh_block l)(i := bblockno (bufs s b))\<rparr>\<rparr>))"
  using quietD [OF assms(1)] assms(2-4)
  by (simp add: log_write_def bpin_def log_slot_of_def [symmetric] exec_simps lock_simps Let_def)

lemma quiet_bio_settle: "bio p P s \<Longrightarrow> bio p P (s\<lparr>mach := settle (mach s)\<rparr>)"
  by (simp add: bio_def lru_def bufs_unique_def buf_ok_def blocked_def cached_def)

lemma cache_mach [simp]:
  "cur (s\<lparr>mach := m\<rparr>) = cur s" "holds (s\<lparr>mach := m\<rparr>) = holds s" "blocked (s\<lparr>mach := m\<rparr>) b = blocked s b"
  "cached (s\<lparr>mach := m\<rparr>) = cached s"
  by (auto simp: cur_def holds_def blocked_def cached_def fun_eq_iff split: option.splits)

text \<open>The blocks of the running transaction.\<close>

definition logged :: "'x lgstate_scheme \<Rightarrow> nat set" where
  "logged s = lh_block (the_log s) ` {..<nat (lh_n (the_log s))}"

definition logwrote :: "nat \<Rightarrow> nat \<Rightarrow> nat \<Rightarrow> 'x lgstate_scheme \<Rightarrow> 'x lgstate_scheme \<Rightarrow> bool" where
  "logwrote p L b s t = (log_inv p L t \<and> logged t = insert (bblockno (bufs s b)) (logged s) \<and>
     lh_n (the_log t) = (if bblockno (bufs s b) \<in> logged s then lh_n (the_log s) else lh_n (the_log s) + 1) \<and>
     outstanding (the_log t) = outstanding (the_log s) \<and> committing (the_log t) = committing (the_log s) \<and>
     log_size (the_log t) = log_size (the_log s) \<and>
     beyond (t\<lparr>the_log := the_log s\<rparr>) = beyond s \<and> disk t = disk s \<and> dtrace t = dtrace s \<and> (\<forall>m. cur t m = cur s m) \<and>
     holds t = holds s \<and> keeps_held b s t \<and> blocked t b \<and>
     bufs t b = (bufs s b)\<lparr>brefcnt := brefcnt (bufs t b)\<rparr>)"

lemma log_slot_of_spec:
  "lh_block l (log_slot_of l n) = n \<and> log_slot_of l n < nat (lh_n l) \<or>
   n \<notin> lh_block l ` {..<nat (lh_n l)} \<and> log_slot_of l n = nat (lh_n l)"
proof (cases "find (\<lambda>i. lh_block l i = n) [0..<nat (lh_n l)]")
  case None
  moreover from this have "n \<notin> lh_block l ` {..<nat (lh_n l)}" by (auto simp: find_None_iff)
  ultimately show ?thesis by (simp add: log_slot_of_def)
next
  case (Some i)
  then show ?thesis using find_upt_Some [OF Some] by (auto simp: log_slot_of_def)
qed

lemma log_write_ok:
  assumes inv: "log_inv p L s" and b: "b < NBUF" "blocked s b" and n: "\<not> in_log L (bblockno (bufs s b))" "bblockno (bufs s b) < 2 ^ 32"
    and room: "lh_n (the_log s) < log_size (the_log s) - 1" and op: "1 \<le> outstanding (the_log s)"
  shows "\<exists>t. log_write b s = Done () t \<and> logwrote p L b s t"
proof -
  let ?l = "the_log s" let ?n = "bblockno (bufs s b)" let ?i = "log_slot_of ?l ?n"
  note bio = log_invD(7) [OF inv]
  have sz: "log_size ?l \<le> int LOGSIZE" using inv by (simp add: log_inv_def Let_def)
  note run = log_write_exec [OF bioD(1) [OF bio] log_invD(3) [OF inv] room op, of b]
  consider "lh_block ?l ?i = ?n" "?i < nat (lh_n ?l)" | "?n \<notin> logged s" "?i = nat (lh_n ?l)"
    using log_slot_of_spec [of ?l ?n] by (auto simp: logged_def)
  then show ?thesis
  proof cases
    case 1
    let ?t = "s\<lparr>mach := settle (mach s)\<rparr>"
    have lg: "?n \<in> logged s" using 1 by (force simp: logged_def)
    have "(lh_block ?l)(?i := ?n) = lh_block ?l" using 1 by auto
    then have "log_write b s = Done () (?t\<lparr>the_log := ?l\<rparr>)"
      using run 1(2) by (auto simp: Let_def)
    moreover have "?t\<lparr>the_log := ?l\<rparr> = ?t" by simp
    moreover have "log_inv p L ?t" using inv quiet_bio_settle [OF bio] by (simp add: log_inv_def Let_def)
    moreover from this have "logwrote p L b s ?t"
      using b(2) lg by (simp add: logwrote_def beyond_def keeps_held_def insert_absorb) (simp add: logged_def)
    ultimately show ?thesis by auto
  next
    case 2
    obtain u where u: "bpin b s = Done () u" "bio p (insert ?n (logged s)) u" "beyond u = beyond s"
      "disk u = disk s" "dtrace u = dtrace s" "\<forall>m. cur u m = cur s m" "holds u = holds s" "keeps_held b s u"
      "blocked u b" "bufs u b = (bufs s b)\<lparr>brefcnt := brefcnt (bufs u b)\<rparr>"
      using bpin_ok [OF bio b] 2(1) by (auto simp: logged_def)
    let ?m = "?l\<lparr>lh_block := (lh_block ?l)(?i := ?n), lh_n := lh_n ?l + 1\<rparr>"
    have u': "u = s\<lparr>bufs := (bufs s)(b := (bufs s b)\<lparr>brefcnt := inc32 (brefcnt (bufs s b))\<rparr>), mach := settle (mach s)\<rparr>"
      using u(1) bpin_exec [OF bioD(1) [OF bio], of b] by simp
    let ?t = "u\<lparr>the_log := ?m\<rparr>"
    have i: "int ?i = lh_n ?l" using 2(2) log_invD(2) [OF inv] by simp
    have "log_write b s = Done () ?t" using run i by (simp add: Let_def u')
    moreover have lg: "logged ?t = insert ?n (logged s)"
      using 2(2) log_invD(2) [OF inv] by (auto simp: logged_def nat_add_distrib less_Suc_eq image_iff)
    moreover have "log_inv p L ?t"
    proof -
      have "inj_on (lh_block ?m) {..<nat (lh_n ?l)}"
        using inj_on_fun_updI [OF log_invD(4) [OF inv]] 2(1) by (simp add: logged_def)
      then have "inj_on (lh_block ?m) {..<nat (lh_n ?m)}"
        using log_invD(2) [OF inv] 2 by (auto simp: nat_add_distrib lessThan_Suc logged_def)
      moreover have "bio p (logged ?t) ?t" using u(2) lg by simp
      ultimately show ?thesis
        using log_invD(1,2,5,6,8) [OF inv] u(6) room sz 2(2) n
        by (auto simp: log_inv_def Let_def logged_def nat_add_distrib less_Suc_eq log_at_def)
    qed
    moreover from this have "logwrote p L b s ?t"
      using u(4-10) 2(1) lg i beyond_log(2) [OF u(3), of "the_log s"]
      by (auto simp: logwrote_def keeps_held_def)
    ultimately show ?thesis by blast
  qed
qed

text \<open>A block read, changed, logged and released inside a transaction.\<close>

lemma logged_update:
  assumes inv: "log_inv p L s" and n: "\<not> in_log L n" "n < 2 ^ 32" "n \<notin> holds s"
    and room: "lh_n (the_log s) < log_size (the_log s) - 1" "n \<in> logged s \<or> card (logged s \<union> holds s) < NBUF"
    and op: "1 \<le> outstanding (the_log s)" and f: "\<And>d. trunc (f d) = trunc (f (trunc d))"
  shows "\<exists>t. bind (bread ROOTDEV n) (\<lambda>b. seq (set_buf b (\<lambda>x. x\<lparr>bdata := f (bdata x)\<rparr>)) (seq (log_write b) (brelse b))) s = Done () t \<and>
    log_inv p L t \<and> logged t = insert n (logged s) \<and> outstanding (the_log t) = outstanding (the_log s) \<and>
    committing (the_log t) = committing (the_log s) \<and> log_size (the_log t) = log_size (the_log s) \<and>
    lh_n (the_log t) = (if n \<in> logged s then lh_n (the_log s) else lh_n (the_log s) + 1) \<and>
    disk t = disk s \<and> dtrace t = dtrace s \<and> holds t = holds s \<and> beyond (t\<lparr>the_log := the_log s\<rparr>) = beyond s \<and>
    (\<forall>m. cur t m = (if m = n then trunc (f (cur s n)) else cur s m))"
proof -
  have P: "bio p (logged s) s" using log_invD(7) [OF inv] by (simp add: logged_def)
  have "cached s n \<noteq> None \<or> finite (logged s) \<and> card (logged s \<union> holds s) < NBUF"
    using room(2) bioD(5) [OF P, of n] by (auto simp: logged_def)
  then obtain b t where b: "bread ROOTDEV n s = Done b t" "got p (logged s) s n b t"
    using bread_ok [OF P n(3)] by blast
  note t = gotD [OF b(2)]
  let ?d = "f (bdata (bufs t b))"
  let ?u = "t\<lparr>bufs := (bufs t)(b := (bufs t b)\<lparr>bdata := ?d\<rparr>)\<rparr>"
  note u = set_data_ok [OF t(1,6,8), of ?d]
  have lt: "the_log t = the_log s" using beyond_log(1) [OF t(2)] .
  have bu: "beyond ?u = beyond s" using t(2) by (simp add: beyond_def)
  have "L \<noteq> n" using n(1) by (auto simp: in_log_def)
  then have "log_inv p L ?u"
    using inv u(1,2) t(5,9) lt by (auto simp: log_inv_def Let_def logged_def)
  then obtain v where v: "log_write b ?u = Done () v" "logwrote p L b ?u v"
    using log_write_ok [of p L ?u b] t(6,8,9) u(5) n room(1) op lt by auto
  have v': "log_inv p L v" "logged v = insert n (logged s)" "outstanding (the_log v) = outstanding (the_log s)"
    "committing (the_log v) = committing (the_log s)" "log_size (the_log v) = log_size (the_log s)"
    "lh_n (the_log v) = (if n \<in> logged s then lh_n (the_log s) else lh_n (the_log s) + 1)"
    "beyond (v\<lparr>the_log := the_log s\<rparr>) = beyond s" "disk v = disk s" "dtrace v = dtrace s" "\<And>m. cur v m = cur ?u m"
    "holds v = insert n (holds s)" "blocked v b" "bblockno (bufs v b) = n"
  proof -
    have lu: "logged ?u = logged s" "the_log ?u = the_log s" "bblockno (bufs ?u b) = n" "disk ?u = disk s" "dtrace ?u = dtrace s"
      using lt t(3,4,9) by (simp_all add: logged_def)
    note d = v(2) [unfolded logwrote_def lu bu u(3) t(11)]
    show "log_inv p L v" "logged v = insert n (logged s)" "outstanding (the_log v) = outstanding (the_log s)"
      "committing (the_log v) = committing (the_log s)" "log_size (the_log v) = log_size (the_log s)"
      "lh_n (the_log v) = (if n \<in> logged s then lh_n (the_log s) else lh_n (the_log s) + 1)"
      "beyond (v\<lparr>the_log := the_log s\<rparr>) = beyond s" "disk v = disk s" "dtrace v = dtrace s" "\<And>m. cur v m = cur ?u m"
      "holds v = insert n (holds s)" "blocked v b"
      using d by blast+
    from d have "bufs v b = (bufs ?u b)\<lparr>brefcnt := brefcnt (bufs v b)\<rparr>" by blast
    from arg_cong [OF this, of bblockno] show "bblockno (bufs v b) = n" using t(9) by simp
  qed
  have "bio p (logged v) v" using log_invD(7) [OF v'(1)] by (simp add: logged_def)
  then obtain w where w: "brelse b v = Done () w" "gone p (logged v) v b w"
    using brelse_ok [OF _ t(6) v'(12)] v'(2,13) by blast
  note g = goneD [OF w(2)]
  have lw: "the_log w = the_log v" using beyond_log(1) [OF g(2)] .
  have "log_inv p L w" using v'(1) g(1,5) lw by (simp add: log_inv_def Let_def logged_def)
  moreover have "holds w = holds s" using g(6) v'(11,13) n(3) by simp
  moreover have "beyond (w\<lparr>the_log := the_log s\<rparr>) = beyond s" using beyond_log(2) [OF g(2)] v'(7) by simp
  moreover have "cur w m = (if m = n then trunc (f (cur s n)) else cur s m)" for m
    using g(5) v'(10) u(2) t(5,9,10) f [of "bdata (bufs t b)"] by simp
  ultimately show ?thesis
    using b(1) v(1) w(1) v' g(3,4) lw by (intro exI [of _ w]) (simp add: exec_simps logged_def)
qed

lemma begin_op_exec:
  assumes "quiet p s" "\<not> committing (the_log s)" "lh_n (the_log s) + (outstanding (the_log s) + 1) * int MAXOPBLOCKS \<le> int LOGSIZE"
  shows "begin_op s = Done () (s\<lparr>mach := settle (mach s), the_log := (the_log s)\<lparr>outstanding := outstanding (the_log s) + 1\<rparr>\<rparr>)"
  using quietD [OF assms(1)] assms(2,3) by (simp add: begin_op_def begin_op_loop_def exec_simps lock_simps)

lemma bio_procs:
  assumes "bio p P s" "pid (f p) = pid (procs s p)"
  shows "bio p P (s\<lparr>procs := f, mach := settle (mach s)\<rparr>)"
  using assms by (simp add: bio_def lru_def bufs_unique_def buf_ok_def blocked_def cached_def)

lemma cache_procs [simp]:
  "cur (s\<lparr>procs := f\<rparr>) = cur s" "holds (s\<lparr>procs := f\<rparr>) = holds s" "blocked (s\<lparr>procs := f\<rparr>) b = blocked s b"
  "cached (s\<lparr>procs := f\<rparr>) = cached s"
  by (auto simp: cur_def holds_def blocked_def cached_def fun_eq_iff split: option.splits)

lemma log_inv_log: "log_inv p L s \<Longrightarrow> log_inv p L (s\<lparr>the_log := (the_log s)\<lparr>outstanding := x, committing := y\<rparr>\<rparr>)"
  by (simp add: log_inv_def Let_def log_at_def)

lemma end_op_commits:
  assumes inv: "log_inv p L s" and h: "holds s = {}" and op: "outstanding (the_log s) = 1" "\<not> committing (the_log s)"
  shows "\<exists>t. end_op s = Done () t \<and> log_inv p L t \<and> lh_n (the_log t) = 0 \<and> outstanding (the_log t) = 0 \<and> \<not> committing (the_log t) \<and>
    holds t = {} \<and> dtrace t = dtrace s @ commit_writes L s \<and> (\<forall>m. cur t m = trunc (disk t m)) \<and>
    (\<forall>m. trunc (disk t m) = apply_writes (commit_writes L s) (\<lambda>m. trunc (disk s m)) m)"
proof -
  note bio = log_invD(7) [OF inv]
  note q = quietD [OF bioD(1) [OF bio]]
  let ?l = "(the_log s)\<lparr>outstanding := 0, committing := True\<rparr>"
  let ?s = "s\<lparr>the_log := ?l, mach := settle (mach s)\<rparr>"
  have "bio p P (x\<lparr>the_log := ?l, mach := m\<rparr>) = bio p P (x\<lparr>mach := m\<rparr>)" for P m and x :: "'a lgstate_scheme"
    using the_log_cache(1) [where s = "x\<lparr>mach := m\<rparr>" and l = ?l] by (cases x) simp
  then have inv': "log_inv p L ?s" using inv quiet_bio_settle [OF bio] by (simp add: log_inv_def Let_def log_at_def)
  have ws: "commit_writes L ?s = commit_writes L s"
    by (simp add: commit_writes_def log_writes_def home_writes_def commit_head_def)
  obtain t where t: "commit ?s = Done () (t\<lparr>the_log := ?l\<lparr>lh_n := 0\<rparr>\<rparr>)" "wrote p {} ?s (commit_writes L s) t"
    using commit_ok [OF inv'] h ws by auto
  let ?t = "t\<lparr>the_log := ?l\<lparr>lh_n := 0\<rparr>\<rparr>"
  note w = wroteD [OF t(2)]
  note qt = quietD [OF bioD(1) [OF w(1)]]
  let ?f = "\<lambda>q. if q < NPROC \<and> p \<noteq> q then woken Ch_log (procs t q) else procs t q"
  let ?u = "t\<lparr>procs := ?f, mach := settle (mach t)\<rparr>"
  let ?m = "?l\<lparr>lh_n := 0, committing := False\<rparr>"
  let ?v = "t\<lparr>the_log := ?m, procs := ?f, mach := settle (mach t)\<rparr>"
  have v: "?v = ?u\<lparr>the_log := ?m\<rparr>" by (cases t) simp
  have tf: "table_free (Some p) (acq Lk_log (mach t))"
    using bioD(1) [OF w(1)] by (simp add: table_free_def lock_simps quiet_def)
  have run: "end_op s = Done () ?v"
    using q qt op t(1) tf by (simp add: end_op_def exec_simps lock_simps cong: if_cong)
  have bv: "bio p {} ?u" by (rule bio_procs [OF w(1)]) simp
  have sz: "0 < log_size (the_log s)" using inv by (auto simp: log_inv_def Let_def)
  have clean: "cur t m = trunc (disk t m)" for m using cur_clean [OF w(1), of m] w(2) by simp
  have "hd_n (cur t L) = 0"
  proof (cases "lh_n (the_log s) > 0")
    case True
    then have "cur t L = trunc (wr 4 0 0 (commit_head L s))" using w(6) [of L] by (simp add: commit_writes_def)
    then show ?thesis by (simp add: hd_n_cleared)
  next
    case False
    then show ?thesis using w(6) [of L] log_invD(8) [OF inv] by (simp add: commit_writes_def)
  qed
  then have "log_inv p L ?v"
    unfolding v using inv bv sz by (simp add: log_inv_def Let_def log_at_def)
  then show ?thesis
    using run w(2,4,5) clean by (intro exI [of _ ?v]) simp
qed

text \<open>
  C1. A commit is atomic: whatever number \<open>k\<close> of its disk writes has reached the disk when the machine stops, the log on
  the disk can be recovered, and recovery yields either the contents of all blocks before the
  transaction or their contents after it. When \<^verbatim>\<open>commit\<close> returns, the disk has the new contents.
\<close>

theorem commit_crash_safe:
  assumes inv: "log_inv p L s" and h: "holds s = {}"
  shows "\<exists>t ws. commit s = Done () t \<and> dtrace t = dtrace s @ ws \<and>
    (\<forall>k. let d = apply_writes (take k ws) (\<lambda>m. trunc (disk s m)) in head_ok L (d L) \<and>
      ((\<forall>m. \<not> in_log L m \<longrightarrow> recovered L d m = trunc (disk s m)) \<or> (\<forall>m. \<not> in_log L m \<longrightarrow> recovered L d m = cur s m))) \<and>
    (\<forall>m. \<not> in_log L m \<longrightarrow> trunc (disk t m) = cur s m \<and> cur t m = cur s m) \<and> hd_n (cur t L) = 0"
proof -
  let ?d = "\<lambda>k. apply_writes (take k (commit_writes L s)) (\<lambda>m. trunc (disk s m))"
  obtain t where t: "commit s = Done () (t\<lparr>the_log := (the_log s)\<lparr>lh_n := 0\<rparr>\<rparr>)" "wrote p {} s (commit_writes L s) t"
    using commit_ok [OF inv h] by blast
  note w = wroteD [OF t(2)]
  have L: "hd_n (cur t L) = 0"
    using w(6) [of L] log_invD(8) [OF inv] by (auto simp: commit_writes_def hd_n_cleared split: if_splits)
  have clean: "cur t m = trunc (disk t m)" for m using cur_clean [OF w(1), of m] w(2) by simp
  have dt: "(\<lambda>m. trunc (disk t m)) = ?d (length (commit_writes L s))" using w(5) by auto
  have "trunc (disk t m) = cur s m" if m: "\<not> in_log L m" for m
  proof -
    have "hd_n (?d (length (commit_writes L s)) L) = 0" using L clean [of L] fun_cong [OF dt, of L] by simp
    then have "recovered L (?d (length (commit_writes L s))) m = trunc (disk t m)"
      using recovered_empty [of "?d (length (commit_writes L s))" L] fun_cong [OF dt, of m] by simp
    moreover have "recovered L (?d (length (commit_writes L s) + nat (lh_n (the_log s)) + 1)) m = cur s m"
      using commit_crash [OF inv h, of "length (commit_writes L s) + nat (lh_n (the_log s)) + 1"] m by simp
    ultimately show ?thesis by simp
  qed
  then show ?thesis
    using t(1) w(4) commit_crash [OF inv h] clean L
    by (intro exI [of _ "t\<lparr>the_log := (the_log s)\<lparr>lh_n := 0\<rparr>\<rparr>"] exI [of _ "commit_writes L s"])
      (auto simp: Let_def split: if_splits)
qed

text \<open>
  C2. Recovery after a crash: \<^verbatim>\<open>recover_from_log\<close> brings every block outside the log to its recovered contents and
  clears the log, and it may be stopped after any number of its own writes and run again with the same
  outcome.
\<close>

theorem recovery_idempotent:
  assumes l: "log_at L (the_log s)" and inv: "bio p {} s" "holds s = {}" and h: "head_ok L (cur s L)"
  shows "\<exists>t ws. recover_from_log s = Done () t \<and> bio p {} t \<and> holds t = {} \<and> dtrace t = dtrace s @ ws \<and> lh_n (the_log t) = 0 \<and>
    hd_n (cur t L) = 0 \<and> (\<forall>m. \<not> in_log L m \<longrightarrow> cur t m = recovered L (cur s) m) \<and>
    (\<forall>k. let d = apply_writes (take k ws) (\<lambda>m. trunc (disk s m)) in
      head_ok L (d L) \<and> (\<forall>m. \<not> in_log L m \<longrightarrow> recovered L d m = recovered L (cur s) m))"
proof -
  let ?ws = "installs L (cur s) @ [(L, trunc (wr 4 0 0 (cur s L)))]"
  obtain t l' where t: "recover_from_log s = Done () (t\<lparr>the_log := l'\<rparr>)" "lh_n l' = 0" "wrote p {} s ?ws t"
    using recover_ok [OF l inv h] by blast
  note w = wroteD [OF t(3)]
  have d: "cur s = (\<lambda>m. trunc (disk s m))" using cur_clean [OF inv(1)] inv(2) by auto
  have "cur t m = recovered L (cur s) m" if "\<not> in_log L m" for m
    using w(6) [of m] that by (auto simp: recovered_def in_log_def)
  moreover have "hd_n (cur t L) = 0" using w(6) [of L] by (simp add: hd_n_cleared)
  moreover have "\<forall>k. let d = apply_writes (take k ?ws) (cur s) in
      head_ok L (d L) \<and> (\<forall>m. \<not> in_log L m \<longrightarrow> recovered L d m = recovered L (cur s) m)"
    using recover_crash [of L "cur s"] h by (simp only: Let_def) blast
  ultimately show ?thesis
    using t w(1,2,4) by (intro exI [of _ "t\<lparr>the_log := l'\<rparr>"] exI [of _ ?ws]) (simp add: d [symmetric])
qed

subsection \<open>Examples\<close>

definition demo_lg :: lgstate where
  "demo_lg = bstate.extend demo_b (lgstate.fields \<lparr>log_start = 2, log_size = 30, outstanding = 1, committing = False, log_dev = ROOTDEV,
     lh_n = 0, lh_block = (\<lambda>_. 0)\<rparr>)"

lemma demo_lg_simps:
  "quiet 1 (demo_lg\<lparr>disk := d\<rparr>)" "log_at 2 (the_log demo_lg)" "lh_n (the_log demo_lg) = 0" "outstanding (the_log demo_lg) = 1"
  "log_size (the_log demo_lg) = 30" "\<not> committing (the_log demo_lg)" "disk demo_lg = disk demo_b"
  by (simp_all add: demo_lg_def bstate.defs lgstate.defs demo_b_def quiet_def log_at_def)

lemma demo_lg_boot:
  "\<exists>s. binit (demo_lg\<lparr>disk := d\<rparr>) = Done () s \<and> bio 1 {} s \<and> holds s = {} \<and> the_log s = the_log demo_lg \<and> (\<forall>n. cur s n = trunc (d n))"
proof -
  have "\<forall>b < NBUF. bdev (bufs (demo_lg\<lparr>disk := d\<rparr>) b) = 0 \<and> brefcnt (bufs (demo_lg\<lparr>disk := d\<rparr>) b) = 0"
    by (simp add: demo_lg_def bstate.defs demo_b_def)
  then obtain s where s: "binit (demo_lg\<lparr>disk := d\<rparr>) = Done () s" "bio 1 {} s" "holds s = {}"
    "\<forall>n. cur s n = trunc (disk (demo_lg\<lparr>disk := d\<rparr>) n)" "beyond s = beyond (demo_lg\<lparr>disk := d\<rparr>)"
    using binit_spec [OF demo_lg_simps(1)] by blast
  then show ?thesis using beyond_log(1) [OF s(5)] by auto
qed

lemma demo_lg_logged:
  "\<exists>s t. binit demo_lg = Done () s \<and> bind (bread ROOTDEV 40) (\<lambda>b.
      seq (set_buf b (\<lambda>x. x\<lparr>bdata := (\<lambda>_. 9)\<rparr>)) (seq (log_write b) (brelse b))) s = Done () t \<and>
    log_inv 1 2 t \<and> holds t = {} \<and> cur t 40 = trunc (\<lambda>_. 9) \<and> outstanding (the_log t) = 1 \<and> \<not> committing (the_log t)"
proof -
  have "demo_lg\<lparr>disk := disk demo_b\<rparr> = demo_lg" by (simp add: demo_lg_def bstate.defs)
  then obtain s where s: "binit demo_lg = Done () s" "bio 1 {} s" "holds s = {}" "the_log s = the_log demo_lg"
    "\<forall>n. cur s n = trunc (disk demo_b n)"
    using demo_lg_boot [of "disk demo_b"] by auto
  have "rd 4 (\<lambda>_. 0) 0 = 0" by (simp add: rd_def)
  then have "hd_n (cur s 2) = 0" using s(5) by (simp add: demo_b_def hd_n_def rd_trunc s32_def)
  then have "log_inv 1 2 s" using s(2,4) demo_lg_simps(2,3,5) by (simp add: log_inv_def Let_def)
  then obtain t where "bind (bread ROOTDEV 40) (\<lambda>b. seq (set_buf b (\<lambda>x. x\<lparr>bdata := (\<lambda>_. 9)\<rparr>)) (seq (log_write b) (brelse b))) s = Done () t"
    "log_inv 1 2 t" "holds t = {}" "cur t 40 = trunc (\<lambda>_. 9)" "outstanding (the_log t) = 1" "\<not> committing (the_log t)"
    using logged_update [of 1 2 s 40 "\<lambda>_ _. 9"] s(3,4) demo_lg_simps(3-6) by (auto simp: in_log_def logged_def)
  then show ?thesis using s(1) by blast
qed

theorem commit_crash_safe_witness:
  "\<exists>s t (u :: lgstate). binit demo_lg = Done () s \<and> bind (bread ROOTDEV 40) (\<lambda>b.
      seq (set_buf b (\<lambda>x. x\<lparr>bdata := (\<lambda>_. 9)\<rparr>)) (seq (log_write b) (brelse b))) s = Done () t \<and>
    commit t = Done () u \<and> disk u 40 0 = 9"
proof -
  obtain s t where st: "binit demo_lg = Done () s" "bind (bread ROOTDEV 40) (\<lambda>b.
      seq (set_buf b (\<lambda>x. x\<lparr>bdata := (\<lambda>_. 9)\<rparr>)) (seq (log_write b) (brelse b))) s = Done () t"
    "log_inv 1 2 t" "holds t = {}" "cur t 40 = trunc (\<lambda>_. 9)" using demo_lg_logged by blast
  obtain u where u: "commit t = Done () u" "\<forall>m. \<not> in_log 2 m \<longrightarrow> trunc (disk u m) = cur t m"
    using commit_crash_safe [OF st(3,4)] by blast
  have "trunc (disk u 40) 0 = 9" using u(2) st(5) by (simp add: in_log_def trunc_def)
  then show ?thesis using st(1,2) u(1) by (auto simp: trunc_def)
qed

text \<open>A disk on which a transaction on block 40 was committed but not installed.\<close>

definition demo_crashed :: "nat \<Rightarrow> bytes" where
  "demo_crashed = (disk demo_b)(2 := wr 4 1 0 (wr 4 40 4 (\<lambda>_. 0)))"

theorem recovery_idempotent_witness:
  "\<exists>s (t :: lgstate). binit (demo_lg\<lparr>disk := demo_crashed\<rparr>) = Done () s \<and> recover_from_log s = Done () t \<and>
    cur s 40 0 = 40 \<and> cur t 40 0 = 3"
proof -
  obtain s where s: "binit (demo_lg\<lparr>disk := demo_crashed\<rparr>) = Done () s" "bio 1 {} s" "holds s = {}" "the_log s = the_log demo_lg"
    "\<forall>n. cur s n = trunc (demo_crashed n)" using demo_lg_boot by blast
  have hd: "hd_n (cur s 2) = 1" "hd_block (cur s 2) 0 = 40"
    using s(5) by (simp_all add: demo_crashed_def hd_n_def hd_block_def rd_trunc le_simps s32_def)
  then have "head_ok 2 (cur s 2)" by (simp add: head_ok_def in_log_def)
  then obtain t where t: "recover_from_log s = Done () t" "\<forall>m. \<not> in_log 2 m \<longrightarrow> cur t m = recovered 2 (cur s) m"
    using recovery_idempotent [OF _ s(2,3), of 2] s(4) demo_lg_simps(2) by auto
  have "recovered 2 (cur s) 40 = cur s 3" using hd by (simp add: recovered_def installs_def)
  then have "cur t 40 0 = 3" using t(2) s(5) by (simp add: in_log_def demo_crashed_def demo_b_def trunc_def)
  moreover have "cur s 40 0 = 40" using s(5) by (simp add: demo_crashed_def demo_b_def trunc_def)
  ultimately show ?thesis using s(1) t(1) by blast
qed

text \<open>
  C19. The last \<^verbatim>\<open>end_op\<close> of a transaction makes it durable: it commits, after it the disk and the cache agree on
  every block, each logged block is on the disk with the contents the operation gave it, the log is
  empty and new operations may begin.
\<close>

theorem end_op_durable:
  assumes inv: "log_inv p L s" and h: "holds s = {}" and op: "outstanding (the_log s) = 1" "\<not> committing (the_log s)"
  shows "\<exists>t u. end_op s = Done () t \<and> (\<forall>m. cur t m = trunc (disk t m)) \<and> (\<forall>m. \<not> in_log L m \<longrightarrow> cur t m = cur s m) \<and>
    lh_n (the_log t) = 0 \<and> log_inv p L t \<and> begin_op t = Done () u \<and> outstanding (the_log u) = 1"
proof -
  obtain t where t: "end_op s = Done () t" "log_inv p L t" "lh_n (the_log t) = 0" "outstanding (the_log t) = 0" "\<not> committing (the_log t)"
    "\<forall>m. cur t m = trunc (disk t m)" "\<forall>m. trunc (disk t m) = apply_writes (commit_writes L s) (\<lambda>m. trunc (disk s m)) m"
    using end_op_commits [OF inv h op] by blast
  have "cur t m = cur s m" if m: "\<not> in_log L m" for m
  proof -
    let ?k = "length (commit_writes L s) + nat (lh_n (the_log s)) + 1"
    let ?d = "apply_writes (take ?k (commit_writes L s)) (\<lambda>m. trunc (disk s m))"
    have d: "?d = cur t" using t(6,7) by auto
    have "recovered L (cur t) m = cur s m" using commit_crash [OF inv h, of ?k] m unfolding d by simp
    then show ?thesis using recovered_empty [of "cur t" L] log_invD(8) [OF t(2)] by simp
  qed
  moreover have "begin_op t = Done () (t\<lparr>mach := settle (mach t), the_log := (the_log t)\<lparr>outstanding := outstanding (the_log t) + 1\<rparr>\<rparr>)"
    by (rule begin_op_exec [OF bioD(1) [OF log_invD(7) [OF t(2)]]]) (use t in simp_all)
  ultimately show ?thesis using t by (intro exI conjI) auto
qed

theorem end_op_durable_witness:
  "\<exists>s t (u :: lgstate). binit demo_lg = Done () s \<and> bind (bread ROOTDEV 40) (\<lambda>b.
      seq (set_buf b (\<lambda>x. x\<lparr>bdata := (\<lambda>_. 9)\<rparr>)) (seq (log_write b) (brelse b))) s = Done () t \<and>
    end_op t = Done () u \<and> disk u 40 0 = 9 \<and> lh_n (the_log u) = 0"
proof -
  obtain s t where st: "binit demo_lg = Done () s" "bind (bread ROOTDEV 40) (\<lambda>b.
      seq (set_buf b (\<lambda>x. x\<lparr>bdata := (\<lambda>_. 9)\<rparr>)) (seq (log_write b) (brelse b))) s = Done () t"
    "log_inv 1 2 t" "holds t = {}" "cur t 40 = trunc (\<lambda>_. 9)" "outstanding (the_log t) = 1" "\<not> committing (the_log t)"
    using demo_lg_logged by blast
  obtain u where u: "end_op t = Done () u" "\<forall>m. cur u m = trunc (disk u m)" "\<forall>m. \<not> in_log 2 m \<longrightarrow> cur u m = cur t m"
    "lh_n (the_log u) = 0" using end_op_durable [OF st(3,4,6,7)] by blast
  have "trunc (disk u 40) 0 = 9" using u(2) u(3) [rule_format, of 40] st(5) by (simp add: in_log_def trunc_def)
  then show ?thesis using st(1,2) u(1,4) by (auto simp: trunc_def)
qed

text \<open>
  Processes take turns on the processor: \<open>switch_to q\<close> stands for the scheduler putting process \<open>q\<close> there. An update of a block inside
  a transaction reads the block, changes it, logs it and releases it.
\<close>

definition switch_to :: "nat \<Rightarrow> ('x pkstate_scheme, unit) thread" where
  "switch_to q = modify (\<lambda>s. s\<lparr>mach := (mach s)\<lparr>cpus := (cpus (mach s))(hart (mach s) := (this_cpu (mach s))\<lparr>cpu_proc := Some q\<rparr>)\<rparr>\<rparr>)"

definition log_update :: "(bytes \<Rightarrow> bytes) \<Rightarrow> nat \<Rightarrow> ('x lgstate_scheme, unit) thread" where
  "log_update f n = bind (bread ROOTDEV n) (\<lambda>b. seq (set_buf b (\<lambda>x. x\<lparr>bdata := f (bdata x)\<rparr>)) (seq (log_write b) (brelse b)))"

lemma bio_on:
  assumes "bio p P s" "holds s = {}"
  shows "bio q P (s\<lparr>mach := (mach s)\<lparr>cpus := (cpus (mach s))(hart (mach s) := (this_cpu (mach s))\<lparr>cpu_proc := Some q\<rparr>)\<rparr>\<rparr>)"
proof -
  have "\<not> blocked s b" if "b < NBUF" for b using assms(2) that by (auto simp: holds_def)
  then show ?thesis
    using assms(1) by (simp add: bio_def quiet_def lru_def bufs_unique_def buf_ok_def cached_def mach_ok_def lk_free_def)
qed

lemma switch_to_ok:
  assumes "log_inv p L s" "holds s = {}"
  shows "\<exists>t. switch_to q s = Done () t \<and> log_inv q L t \<and> the_log t = the_log s \<and> holds t = {}"
  using assms bio_on [OF log_invD(7) [OF assms(1)] assms(2), of q]
  by (simp add: switch_to_def exec_simps log_inv_def Let_def)

lemma begin_op_admits:
  assumes inv: "log_inv p L s" and h: "holds s = {}" and ok: "\<not> committing (the_log s)" "lh_n (the_log s) = 0" "outstanding (the_log s) \<le> 2"
  shows "\<exists>t. seq (switch_to q) begin_op s = Done () t \<and> log_inv q L t \<and> holds t = {} \<and>
    the_log t = (the_log s)\<lparr>outstanding := outstanding (the_log s) + 1\<rparr>"
proof -
  obtain t where t: "switch_to q s = Done () t" "log_inv q L t" "the_log t = the_log s" "holds t = {}"
    using switch_to_ok [OF inv h] by blast
  let ?l = "(the_log s)\<lparr>outstanding := outstanding (the_log s) + 1\<rparr>"
  note b = log_invD(7) [OF t(2)]
  have "begin_op t = Done () (t\<lparr>mach := settle (mach t), the_log := ?l\<rparr>)"
    using begin_op_exec [OF bioD(1) [OF b]] ok by (simp add: t(3))
  moreover have "log_inv q L (t\<lparr>mach := settle (mach t), the_log := ?l\<rparr>)"
  proof -
    have "log_inv q L (t\<lparr>mach := settle (mach t)\<rparr>)" using t(2) quiet_bio_settle [OF b] by (simp add: log_inv_def Let_def)
    from log_inv_log [OF this, where x = "outstanding (the_log s) + 1" and y = "committing (the_log s)"] show ?thesis by (cases t) (simp add: t(3) [symmetric])
  qed
  ultimately show ?thesis using t(1,4) by (simp add: seq_exec)
qed

lemma begin_ops_admit:
  assumes "log_inv p L s" "holds s = {}" "\<not> committing (the_log s)" "lh_n (the_log s) = 0" "outstanding (the_log s) = 0"
  shows "\<exists>t. for_each [q1, q2, q3] (\<lambda>q. seq (switch_to q) begin_op) s = Done () t \<and> log_inv q3 L t \<and> holds t = {} \<and>
    the_log t = (the_log s)\<lparr>outstanding := 3\<rparr>"
proof -
  obtain t1 where t1: "seq (switch_to q1) begin_op s = Done () t1" "log_inv q1 L t1" "holds t1 = {}" "the_log t1 = (the_log s)\<lparr>outstanding := 1\<rparr>"
    using begin_op_admits [OF assms(1-4), of q1] assms(5) by auto
  obtain t2 where t2: "seq (switch_to q2) begin_op t1 = Done () t2" "log_inv q2 L t2" "holds t2 = {}" "the_log t2 = (the_log s)\<lparr>outstanding := 2\<rparr>"
    using begin_op_admits [OF t1(2,3), of q2] assms(3,4) t1(4) by auto
  obtain t3 where t3: "seq (switch_to q3) begin_op t2 = Done () t3" "log_inv q3 L t3" "holds t3 = {}" "the_log t3 = (the_log s)\<lparr>outstanding := 3\<rparr>"
    using begin_op_admits [OF t2(2,3), of q3] assms(3,4) t2(4) by auto
  show ?thesis using t1(1) t2(1) t3 by (simp add: seq_exec ret_exec)
qed

lemma log_room:
  assumes "log_inv p L s" "holds s = {}"
  shows "card (logged s \<union> holds s) = nat (lh_n (the_log s))"
  using card_image [OF log_invD(4) [OF assms(1)]] assms(2) by (simp add: logged_def)

text \<open>Updates of different blocks, in any order and by any processes, as long as the log has room.\<close>

lemma log_updates:
  assumes "log_inv p L s" "holds s = {}" "1 \<le> outstanding (the_log s)" "distinct (map snd ws)" "snd ` set ws \<inter> logged s = {}"
    "\<forall>n \<in> snd ` set ws. \<not> in_log L n \<and> n < 2 ^ 32" "lh_n (the_log s) + int (length ws) \<le> log_size (the_log s) - 1"
    and f: "\<And>n d. trunc (f n d) = trunc (f n (trunc d))"
  shows "\<exists>q t. for_each ws (\<lambda>(q, n). seq (switch_to q) (log_update (f n) n)) s = Done () t \<and> log_inv q L t \<and> holds t = {} \<and>
    logged t = snd ` set ws \<union> logged s \<and> lh_n (the_log t) = lh_n (the_log s) + int (length ws) \<and> outstanding (the_log t) = outstanding (the_log s) \<and>
    log_size (the_log t) = log_size (the_log s)"
  using assms(1-7)
proof (induction ws arbitrary: p s)
  case Nil
  then show ?case by (auto simp: ret_exec)
next
  case (Cons w ws)
  obtain q n where w: "w = (q, n)" by (cases w)
  obtain t where t: "switch_to q s = Done () t" "log_inv q L t" "the_log t = the_log s" "holds t = {}"
    using switch_to_ok [OF Cons.prems(1,2)] by blast
  have lg: "logged t = logged s" by (simp add: logged_def t(3))
  have "log_size (the_log s) \<le> int LOGSIZE" using Cons.prems(1) by (simp add: log_inv_def Let_def)
  then have "card (logged t \<union> holds t) < NBUF" unfolding log_room [OF t(2,4)] using Cons.prems(7) log_invD(2) [OF t(2)] by (simp add: t(3))
  then obtain u where u: "log_update (f n) n t = Done () u" "log_inv q L u" "logged u = insert n (logged s)"
    "outstanding (the_log u) = outstanding (the_log s)" "log_size (the_log u) = log_size (the_log s)"
    "lh_n (the_log u) = lh_n (the_log s) + 1" "holds u = {}"
    using logged_update [OF t(2), of n "f n"] Cons.prems(3-7) f t(4) unfolding log_update_def lg t(3) w by auto
  have "snd ` set ws \<inter> logged u = {}" using Cons.prems(4,5) by (auto simp: u(3) w)
  then obtain q' v where v: "for_each ws (\<lambda>(q, n). seq (switch_to q) (log_update (f n) n)) u = Done () v" "log_inv q' L v" "holds v = {}"
    "logged v = snd ` set ws \<union> logged u" "lh_n (the_log v) = lh_n (the_log u) + int (length ws)" "outstanding (the_log v) = outstanding (the_log u)"
    "log_size (the_log v) = log_size (the_log u)"
    using Cons.IH [OF u(2,7)] Cons.prems(3-7) u(3-6) by (auto simp: w)
  show ?case
    using t(1) u v by (intro exI [of _ q'] exI [of _ v]) (auto simp: w seq_exec [where s = s] seq_exec [where s = t])
qed

text \<open>One more block does not fit.\<close>

lemma log_update_full:
  assumes inv: "log_inv p L s" "holds s = {}" "lh_n (the_log s) = log_size (the_log s) - 1"
  shows "log_update f n s = Panic ''too big a transaction''"
proof -
  have P: "bio p (logged s) s" using log_invD(7) [OF inv(1)] by (simp add: logged_def)
  have "log_size (the_log s) \<le> int LOGSIZE" using inv(1) by (simp add: log_inv_def Let_def)
  then have "card (logged s \<union> holds s) < NBUF" "finite (logged s)"
    unfolding log_room [OF inv(1,2)] using inv(3) log_invD(2) [OF inv(1)] by (simp_all add: logged_def)
  then obtain b t where b: "bread ROOTDEV n s = Done b t" "got p (logged s) s n b t"
    using bread_ok [OF P, of n] inv(2) by auto
  note t = gotD [OF b(2)]
  let ?u = "t\<lparr>bufs := (bufs t)(b := (bufs t b)\<lparr>bdata := f (bdata (bufs t b))\<rparr>)\<rparr>"
  have "the_log t = the_log s" using beyond_log(1) [OF t(2)] .
  then have "log_write b ?u = Panic ''too big a transaction''"
    using quietD [OF bioD(1) [OF t(1)]] inv(3) by (simp add: log_write_def exec_simps)
  then show ?thesis using b(1) by (simp add: log_update_def exec_simps)
qed

text \<open>
  C38. \<^verbatim>\<open>begin_op\<close> hands out more log space than the log has. On an empty log of \<open>LOGSIZE\<close> blocks, header included, which is what
  \<^verbatim>\<open>mkfs\<close> makes, it admits the operations of three processes, of up to \<open>MAXOPBLOCKS\<close> blocks each. If they then update as many
  different blocks as they may, in any order, all updates but the last succeed, and the last one stops the kernel.
\<close>

theorem reservation_exceeds_log:
  assumes inv: "log_inv p L s" "holds s = {}" and l: "\<not> committing (the_log s)" "lh_n (the_log s) = 0" "outstanding (the_log s) = 0"
      "log_size (the_log s) = int LOGSIZE"
    and ws: "length ws = 3 * MAXOPBLOCKS" "distinct (map snd ws)" "\<forall>(q, n) \<in> set ws. \<not> in_log L n \<and> n < 2 ^ 32"
    and f: "\<And>n d. trunc (f n d) = trunc (f n (trunc d))"
  shows "\<exists>t u. for_each [q1, q2, q3] (\<lambda>q. seq (switch_to q) begin_op) s = Done () t \<and> outstanding (the_log t) = 3 \<and>
    for_each (butlast ws) (\<lambda>(q, n). seq (switch_to q) (log_update (f n) n)) t = Done () u \<and> lh_n (the_log u) = 3 * int MAXOPBLOCKS - 1 \<and>
    for_each ws (\<lambda>(q, n). seq (switch_to q) (log_update (f n) n)) t = Panic ''too big a transaction''"
proof -
  let ?w = "\<lambda>(q, n). seq (switch_to q) (log_update (f n) n)"
  obtain t where t: "for_each [q1, q2, q3] (\<lambda>q. seq (switch_to q) begin_op) s = Done () t" "log_inv q3 L t" "holds t = {}"
    "the_log t = (the_log s)\<lparr>outstanding := 3\<rparr>"
    using begin_ops_admit [OF inv l(1-3)] by blast
  have ne: "ws \<noteq> []" using ws(1) by auto
  have "distinct (map snd (butlast ws))" "\<forall>n \<in> snd ` set (butlast ws). \<not> in_log L n \<and> n < 2 ^ 32"
    using ws(2,3) distinct_butlast [of "map snd ws"] by (fastforce simp: map_butlast dest: in_set_butlastD)+
  moreover have "logged t = {}" by (simp add: logged_def t(4) l(2))
  ultimately obtain q u where u: "for_each (butlast ws) ?w t = Done () u" "log_inv q L u" "holds u = {}"
    "lh_n (the_log u) = 3 * int MAXOPBLOCKS - 1" "log_size (the_log u) = int LOGSIZE"
    using log_updates [OF t(2,3), of "butlast ws" f] l ws(1) f by (auto simp: t(4))
  obtain r n where last: "last ws = (r, n)" by (cases "last ws")
  obtain v where v: "switch_to r u = Done () v" "log_inv r L v" "the_log v = the_log u" "holds v = {}"
    using switch_to_ok [OF u(2,3)] by blast
  have "?w (last ws) u = Panic ''too big a transaction''"
    using log_update_full [OF v(2,4)] u(4,5) by (simp add: last seq_exec v(1,3))
  then have "for_each (butlast ws @ [last ws]) ?w t = Panic ''too big a transaction''"
    by (simp add: for_each_append seq_exec u(1))
  then show ?thesis using t u(1,4) ne by (intro exI [of _ t] exI [of _ u]) simp
qed

definition demo_ws :: "(nat \<times> nat) list" where
  "demo_ws = map (\<lambda>i. (i mod 3, 100 + i)) [0..<30]"

theorem reservation_exceeds_log_witness:
  "\<exists>s t. binit (demo_lg\<lparr>the_log := (the_log demo_lg)\<lparr>outstanding := 0\<rparr>\<rparr>) = Done () s \<and>
    (\<forall>q < 3. length (filter (\<lambda>w. fst w = q) demo_ws) = MAXOPBLOCKS) \<and>
    for_each [0, 1, 2] (\<lambda>q. seq (switch_to q) begin_op) s = Done () t \<and>
    for_each demo_ws (\<lambda>(q, n). seq (switch_to q) (log_update (\<lambda>_ _. 9) n)) t = Panic ''too big a transaction''"
proof -
  let ?s = "demo_lg\<lparr>the_log := (the_log demo_lg)\<lparr>outstanding := 0\<rparr>\<rparr>"
  have q: "quiet 1 ?s" using demo_lg_simps(1) [of "disk demo_lg"] by (simp add: quiet_def)
  have "\<forall>b < NBUF. bdev (bufs ?s b) = 0 \<and> brefcnt (bufs ?s b) = 0" by (simp add: demo_lg_def bstate.defs demo_b_def)
  then obtain s where s: "binit ?s = Done () s" "bio 1 {} s" "holds s = {}" "\<forall>n. cur s n = trunc (disk ?s n)" "beyond s = beyond ?s"
    using binit_spec [OF q] by blast
  have l: "the_log s = (the_log demo_lg)\<lparr>outstanding := 0\<rparr>" using beyond_log(1) [OF s(5)] by simp
  have "rd 4 (\<lambda>_. 0) 0 = 0" by (simp add: rd_def)
  then have "hd_n (cur s 2) = 0" using s(4) demo_lg_simps(7) by (simp add: demo_b_def hd_n_def rd_trunc s32_def)
  then have inv: "log_inv 1 2 s" using s(2) l demo_lg_simps(2,3,5) by (simp add: log_inv_def Let_def log_at_def)
  have w: "length demo_ws = 3 * MAXOPBLOCKS" "distinct (map snd demo_ws)" "\<forall>(q, n) \<in> set demo_ws. \<not> in_log 2 n \<and> n < 2 ^ 32"
    by (code_simp, code_simp, simp add: demo_ws_def in_log_def)
  moreover have "\<forall>q < 3. length (filter (\<lambda>w. fst w = q) demo_ws) = MAXOPBLOCKS" by code_simp
  ultimately show ?thesis
    using reservation_exceeds_log [OF inv s(3) _ _ _ _ w, of "\<lambda>_ _ _. 9" 0 1 2] s(1) l demo_lg_simps(3,5,6) by auto
qed

end
