(* ===== verification/Uart.thy ===== *)
theory Uart
  imports Log_Spec
begin

unbundle bit_operations_syntax

text \<open>
  \<^verbatim>\<open>kernel/uart.c\<close>, the driver of the 16550a serial port. The device is part of the state: the registers the driver
  programs, the bytes it has taken for transmission, the number of bytes its transmitter can still take
  (the line status register reports an idle transmitter exactly if there is room), and the received bytes
  that wait to be read. The wait for an idle transmitter in \<^verbatim>\<open>uartputc_sync\<close> is the outcome \<open>Spin\<close>. The room does not
  grow during a call, and the read of \<^verbatim>\<open>ISR\<close> in \<^verbatim>\<open>uartstart\<close>, whose value the code drops, is left out. The variables of
  \<^verbatim>\<open>printf.c\<close> and \<^verbatim>\<open>console.c\<close> are fields of the same record.
\<close>

datatype devfn = Consoleread | Consolewrite

record ustate = lgstate +
  uart_regs :: "nat \<Rightarrow> u8"
  uart_div :: "nat \<Rightarrow> u8"
  uart_out :: "u8 list"
  uart_room :: nat
  uart_in :: "u8 list"
  uart_tx_buf :: "nat \<Rightarrow> u8"
  uart_tx_w :: u64
  uart_tx_r :: u64
  panicked :: bool
  pr_locking :: bool
  cons_buf :: "nat \<Rightarrow> u8"
  cons_r :: u32
  cons_w :: u32
  cons_e :: u32
  devsw_read :: "nat \<Rightarrow> devfn option"
  devsw_write :: "nat \<Rightarrow> devfn option"

abbreviation (input) THR :: nat where "THR \<equiv> 0"
abbreviation (input) IER :: nat where "IER \<equiv> 1"
abbreviation (input) FCR :: nat where "FCR \<equiv> 2"
abbreviation (input) LCR :: nat where "LCR \<equiv> 3"
abbreviation (input) UART_TX_BUF_SIZE :: u64 where "UART_TX_BUF_SIZE \<equiv> 32"

text \<open>
  Reads and writes of the device registers. While the baud latch of the line control register is set,
  registers 0 and 1 are the divisor.
\<close>

definition WriteReg :: "nat \<Rightarrow> u8 \<Rightarrow> ('x ustate_scheme, unit) thread" where
  "WriteReg r v = modify (\<lambda>s.
     if r < 2 \<and> bit (uart_regs s LCR) 7 then s\<lparr>uart_div := (uart_div s)(r := v)\<rparr>
     else if r = THR then s\<lparr>uart_out := uart_out s @ [v], uart_room := uart_room s - 1\<rparr>
     else s\<lparr>uart_regs := (uart_regs s)(r := v)\<rparr>)"

definition tx_idle :: "('x ustate_scheme, bool) thread" where
  "tx_idle = gets (\<lambda>s. 0 < uart_room s)"

definition uartinit :: "('x ustate_scheme, unit) thread" where
  "uartinit =
     seq (WriteReg IER 0x00) (
     seq (WriteReg LCR 0x80) (
     seq (WriteReg 0 0x03) (
     seq (WriteReg 1 0x00) (
     seq (WriteReg LCR 3) (
     seq (WriteReg FCR (1 OR 6)) (
     seq (WriteReg IER (2 OR 1))
         (initlock Lk_uart_tx ''uart'')))))))"

text \<open>One round of the loop of \<^verbatim>\<open>uartstart\<close>: \<open>True\<close> if a byte was handed to the device.\<close>

definition uartstart_one :: "('x ustate_scheme, bool) thread" where
  "uartstart_one =
     bind (gets (\<lambda>s. uart_tx_w s = uart_tx_r s)) (\<lambda>empty.
     if empty then ret False else
     bind tx_idle (\<lambda>idle.
     if \<not> idle then ret False else
     bind (gets (\<lambda>s. uart_tx_buf s (ring_slot UART_TX_BUF_SIZE (uart_tx_r s)))) (\<lambda>c.
     seq (modify (\<lambda>s. s\<lparr>uart_tx_r := uart_tx_r s + 1\<rparr>)) (
     seq (wakeup Ch_uart) (
     seq (WriteReg THR c)
         (ret True))))))"

primrec uartstart_loop :: "nat \<Rightarrow> ('x ustate_scheme, unit) thread" where
  "uartstart_loop 0 = spin"
| "uartstart_loop (Suc k) = bind uartstart_one (\<lambda>more. if more then uartstart_loop k else ret ())"

text \<open>Every round takes a byte from the buffer, so one round more than there are bytes is enough.\<close>

definition uartstart :: "('x ustate_scheme, unit) thread" where
  "uartstart = bind (gets (\<lambda>s. unat (uart_tx_w s - uart_tx_r s))) (\<lambda>n. uartstart_loop (Suc n))"

text \<open>\<^verbatim>\<open>uartputc\<close> from the test for a full buffer on, with the lock held.\<close>

definition uartputc_loop :: "u8 \<Rightarrow> ('x ustate_scheme, unit) thread" where
  "uartputc_loop c =
     bind (gets (\<lambda>s. uart_tx_w s = uart_tx_r s + UART_TX_BUF_SIZE)) (\<lambda>full.
     if full then sleep Ch_uart Lk_uart_tx else
     seq (modify (\<lambda>s. s\<lparr>uart_tx_buf := (uart_tx_buf s)(ring_slot UART_TX_BUF_SIZE (uart_tx_w s) := c)\<rparr>)) (
     seq (modify (\<lambda>s. s\<lparr>uart_tx_w := uart_tx_w s + 1\<rparr>)) (
     seq uartstart
         (release Lk_uart_tx))))"

definition uartputc :: "u8 \<Rightarrow> ('x ustate_scheme, unit) thread" where
  "uartputc c =
     seq (acquire Lk_uart_tx) (
     bind (gets panicked) (\<lambda>p.
     if p then spin else uartputc_loop c))"

definition uartputc_resume :: "nat \<Rightarrow> u8 \<Rightarrow> ('x ustate_scheme, unit) thread" where
  "uartputc_resume p c = seq (sleep_resume p Lk_uart_tx) (uartputc_loop c)"

definition uartputc_sync :: "int \<Rightarrow> ('x ustate_scheme, unit) thread" where
  "uartputc_sync c =
     seq push_off (
     bind (gets panicked) (\<lambda>p.
     if p then spin else
     bind tx_idle (\<lambda>idle.
     if \<not> idle then spin else
     seq (WriteReg THR (of_int c))
         pop_off)))"

definition uartgetc :: "('x ustate_scheme, int) thread" where
  "uartgetc =
     bind (gets uart_in) (\<lambda>q. case q of
       [] \<Rightarrow> ret (- 1)
     | c # cs \<Rightarrow> seq (modify (\<lambda>s. s\<lparr>uart_in := cs\<rparr>)) (ret (uint c)))"

subsection \<open>Order of output\<close>

interpretation tx: ring UART_TX_BUF_SIZE
  by unfold_locales simp_all

text \<open>The bytes handed to the device followed by those that wait in the buffer.\<close>

definition uart_stream :: "'x ustate_scheme \<Rightarrow> u8 list" where
  "uart_stream s = uart_out s @ ring_contents UART_TX_BUF_SIZE (uart_tx_buf s) (uart_tx_r s) (uart_tx_w s)"

definition uart_ok :: "'x ustate_scheme \<Rightarrow> bool" where
  "uart_ok s = (unat (uart_tx_w s - uart_tx_r s) \<le> unat UART_TX_BUF_SIZE \<and> \<not> bit (uart_regs s LCR) 7)"

text \<open>What a state looks like after the driver ran with the transmit lock held.\<close>

definition uart_ran :: "'x ustate_scheme \<Rightarrow> 'x ustate_scheme \<Rightarrow> bool" where
  "uart_ran s t = (uart_stream t = uart_stream s \<and> uart_ok t \<and>
     unat (uart_tx_w t - uart_tx_r t) = unat (uart_tx_w s - uart_tx_r s) - uart_room s \<and>
     (mach t = mach s \<or> mach t = settle (mach s)) \<and> panicked t = panicked s)"

lemma uartstart_one_exec:
  assumes "mach_ok (mach s)" "table_free (cpu_proc (this_cpu (mach s))) (mach s)" "uart_ok s"
    "uart_tx_w s \<noteq> uart_tx_r s" "0 < uart_room s"
  shows "uartstart_one s = Done True (s\<lparr>uart_tx_r := uart_tx_r s + 1, mach := settle (mach s),
    procs := (\<lambda>p. if p < NPROC \<and> cpu_proc (this_cpu (mach s)) \<noteq> Some p then woken Ch_uart (procs s p) else procs s p),
    uart_out := uart_out s @ [uart_tx_buf s (ring_slot UART_TX_BUF_SIZE (uart_tx_r s))], uart_room := uart_room s - 1\<rparr>)"
  using assms by (simp add: uartstart_one_def tx_idle_def WriteReg_def uart_ok_def exec_simps cong: if_cong)

lemma uartstart_loop_ok:
  assumes "mach_ok (mach s)" "table_free (cpu_proc (this_cpu (mach s))) (mach s)" "uart_ok s" "unat (uart_tx_w s - uart_tx_r s) < k"
  shows "\<exists>t. uartstart_loop k s = Done () t \<and> uart_ran s t"
  using assms
proof (induction k arbitrary: s)
  case (Suc k)
  show ?case
  proof (cases "uart_tx_w s = uart_tx_r s \<or> uart_room s = 0")
    case True
    then have "uartstart_one s = Done False s" by (auto simp: uartstart_one_def tx_idle_def exec_simps)
    then show ?thesis using Suc.prems True by (auto simp: uart_ran_def exec_simps)
  next
    case False
    let ?r = "uart_tx_r s" and ?w = "uart_tx_w s"
    let ?t = "s\<lparr>uart_tx_r := ?r + 1, mach := settle (mach s),
      procs := (\<lambda>p. if p < NPROC \<and> cpu_proc (this_cpu (mach s)) \<noteq> Some p then woken Ch_uart (procs s p) else procs s p),
      uart_out := uart_out s @ [uart_tx_buf s (ring_slot UART_TX_BUF_SIZE ?r)], uart_room := uart_room s - 1\<rparr>"
    have one: "uartstart_one s = Done True ?t" using uartstart_one_exec [OF Suc.prems(1-3)] False by simp
    have dq: "ring_contents UART_TX_BUF_SIZE (uart_tx_buf s) ?r ?w =
        uart_tx_buf s (ring_slot UART_TX_BUF_SIZE ?r) # ring_contents UART_TX_BUF_SIZE (uart_tx_buf s) (?r + 1) ?w"
      using False by (intro tx.contents_dequeue) auto
    have n: "unat (?w - (?r + 1)) = unat (?w - ?r) - 1" "0 < unat (?w - ?r)"
      using arg_cong [OF dq, of length] by (simp_all add: tx.length_contents)
    have st: "uart_stream ?t = uart_stream s" using dq by (simp add: uart_stream_def)
    have ok: "uart_ok ?t" using Suc.prems(3) n by (auto simp: uart_ok_def)
    have "\<exists>u. uartstart_loop k ?t = Done () u \<and> uart_ran ?t u"
      by (rule Suc.IH) (use Suc.prems n ok in \<open>simp_all add: lock_simps table_free_def\<close>)
    then obtain u where u: "uartstart_loop k ?t = Done () u" "uart_ran ?t u" by blast
    have "uart_ran s u"
      using u(2) st n False by (auto simp: uart_ran_def lock_simps)
    then show ?thesis using one u(1) by (simp add: exec_simps)
  qed
qed simp

lemma uartstart_ok:
  assumes "mach_ok (mach s)" "table_free (cpu_proc (this_cpu (mach s))) (mach s)" "uart_ok s"
  shows "\<exists>t. uartstart s = Done () t \<and> uart_ran s t"
  using uartstart_loop_ok [OF assms, of "Suc (unat (uart_tx_w s - uart_tx_r s))"] by (simp add: uartstart_def exec_simps)

text \<open>What is handed to the device is the beginning of the stream, as long as the room of the transmitter allows.\<close>

lemma uart_ran_out:
  assumes "uart_ran s t"
  shows "uart_out t = take (length (uart_out s) + uart_room s) (uart_stream s)"
proof -
  let ?k = "unat (uart_tx_w s - uart_tx_r s)" and ?rest = "ring_contents UART_TX_BUF_SIZE (uart_tx_buf t) (uart_tx_r t) (uart_tx_w t)"
  have s: "uart_out t @ ?rest = uart_stream s" "length ?rest = ?k - uart_room s" "length (uart_stream s) = length (uart_out s) + ?k"
    using assms by (simp_all add: uart_ran_def uart_stream_def tx.length_contents)
  have "uart_out t = take (length (uart_stream s) - length ?rest) (uart_stream s)" using s(1) [symmetric] by simp
  also have "\<dots> = take (length (uart_out s) + uart_room s) (uart_stream s)"
    using s(2,3) by (cases "uart_room s \<le> ?k") simp_all
  finally show ?thesis .
qed

text \<open>Draining the buffer under the lock, as the interrupt handler does.\<close>

lemma uart_drains:
  assumes q: "quiet p s" and ok: "uart_ok s"
  shows "\<exists>t. seq (acquire Lk_uart_tx) (seq uartstart (release Lk_uart_tx)) s = Done () t \<and> uart_stream t = uart_stream s \<and>
    uart_out t = take (length (uart_out s) + uart_room s) (uart_stream s) \<and> uart_ok t \<and> quiet p t"
proof -
  let ?s = "s\<lparr>mach := acq Lk_uart_tx (mach s)\<rparr>"
  have m: "mach_ok (mach ?s)" "lk_held Lk_uart_tx (mach ?s)" "table_free (cpu_proc (this_cpu (mach ?s))) (mach ?s)" "uart_ok ?s"
    using quietD [OF q] ok by (simp_all add: lock_simps table_free_def uart_ok_def)
  obtain t where t: "uartstart ?s = Done () t" "uart_ran ?s t" using uartstart_ok [OF m(1,3,4)] by blast
  have mt: "mach t = mach ?s" using t(2) quietD(1) [OF q] by (auto simp: uart_ran_def lock_simps)
  have "seq (acquire Lk_uart_tx) (seq uartstart (release Lk_uart_tx)) s = Done () (t\<lparr>mach := settle (mach s)\<rparr>)"
    using quietD [OF q] t(1) mt by (simp add: exec_simps lock_simps)
  then show ?thesis
    using t(2) q uart_ran_out [OF t(2)]
    by (intro exI [of _ "t\<lparr>mach := settle (mach s)\<rparr>"]) (simp add: uart_ran_def uart_ok_def uart_stream_def quiet_def lock_simps)
qed

text \<open>
  C29. The transmit buffer is a queue: as long as it is not full, \<^verbatim>\<open>uartputc\<close> appends its byte to the stream of bytes that
  were handed to the serial port or wait in the buffer, without dropping or reordering any, and hands to the port as many
  bytes of this stream, oldest first, as its transmitter has room for. If the buffer is full the caller goes to sleep and the
  stream is unchanged. Draining the buffer, which the interrupt handler does when the transmitter has room again, always ends
  and again hands over as many bytes as there is room for.
\<close>

theorem uartputc_fifo:
  assumes q: "quiet p s" and ok: "uart_ok s" "\<not> panicked s"
  shows "(unat (uart_tx_w s - uart_tx_r s) < unat UART_TX_BUF_SIZE \<longrightarrow>
      (\<exists>t. uartputc c s = Done () t \<and> uart_stream t = uart_stream s @ [c] \<and>
        uart_out t = take (length (uart_out s) + uart_room s) (uart_stream s @ [c]) \<and> uart_ok t \<and> quiet p t)) \<and>
    (unat (uart_tx_w s - uart_tx_r s) = unat UART_TX_BUF_SIZE \<and> noff (this_cpu (mach s)) = 0 \<longrightarrow>
      (\<exists>t. uartputc c s = Swtch t \<and> uart_stream t = uart_stream s \<and> pstate (procs t p) = SLEEPING \<and> chan (procs t p) = Some Ch_uart)) \<and>
    (\<exists>t. seq (acquire Lk_uart_tx) (seq uartstart (release Lk_uart_tx)) s = Done () t \<and> uart_stream t = uart_stream s \<and>
      uart_out t = take (length (uart_out s) + uart_room s) (uart_stream s) \<and> uart_ok t \<and> quiet p t)"
proof (intro conjI impI)
  assume room: "unat (uart_tx_w s - uart_tx_r s) < unat UART_TX_BUF_SIZE"
  let ?m = "acq Lk_uart_tx (mach s)"
  let ?b = "(uart_tx_buf s)(ring_slot UART_TX_BUF_SIZE (uart_tx_w s) := c)"
  let ?s = "s\<lparr>mach := ?m, uart_tx_buf := ?b, uart_tx_w := uart_tx_w s + 1\<rparr>"
  have nq: "ring_contents UART_TX_BUF_SIZE ?b (uart_tx_r s) (uart_tx_w s + 1) =
      ring_contents UART_TX_BUF_SIZE (uart_tx_buf s) (uart_tx_r s) (uart_tx_w s) @ [c]"
    by (rule tx.contents_enqueue [OF room])
  have "unat (uart_tx_w s + 1 - uart_tx_r s) = unat (uart_tx_w s - uart_tx_r s) + 1"
    using arg_cong [OF nq, of length] by (simp add: tx.length_contents)
  then have ok': "uart_ok ?s" using ok(1) room by (simp add: uart_ok_def)
  have m: "mach_ok ?m" "lk_held Lk_uart_tx ?m" "cpu_proc (this_cpu ?m) = Some p" "table_free (Some p) ?m"
    using quietD [OF q] by (simp_all add: lock_simps table_free_def)
  obtain t where t: "uartstart ?s = Done () t" "uart_ran ?s t"
    using uartstart_ok [OF _ _ ok'] m by auto
  have mt: "mach t = ?m" using t(2) quietD(1) [OF q] by (auto simp: uart_ran_def lock_simps)
  have "\<not> uart_tx_w s = uart_tx_r s + UART_TX_BUF_SIZE"
    using room tx.full_iff [of "uart_tx_w s" "uart_tx_r s"] by auto
  then have "uartputc c s = Done () (t\<lparr>mach := settle (mach s)\<rparr>)"
    using quietD [OF q] ok(2) t(1) mt by (simp add: uartputc_def uartputc_loop_def exec_simps lock_simps)
  moreover have "uart_stream (t\<lparr>mach := settle (mach s)\<rparr>) = uart_stream s @ [c]"
    using t(2) nq by (simp add: uart_ran_def uart_stream_def)
  moreover have "uart_out (t\<lparr>mach := settle (mach s)\<rparr>) = take (length (uart_out s) + uart_room s) (uart_stream s @ [c])"
    using uart_ran_out [OF t(2)] nq by (simp add: uart_stream_def)
  ultimately show "\<exists>t. uartputc c s = Done () t \<and> uart_stream t = uart_stream s @ [c] \<and>
      uart_out t = take (length (uart_out s) + uart_room s) (uart_stream s @ [c]) \<and> uart_ok t \<and> quiet p t"
    using t(2) q by (intro exI [of _ "t\<lparr>mach := settle (mach s)\<rparr>"]) (simp add: uart_ran_def uart_ok_def quiet_def lock_simps)
next
  assume full: "unat (uart_tx_w s - uart_tx_r s) = unat UART_TX_BUF_SIZE \<and> noff (this_cpu (mach s)) = 0"
  let ?s = "s\<lparr>mach := acq Lk_uart_tx (mach s)\<rparr>"
  have "uart_tx_w s = uart_tx_r s + UART_TX_BUF_SIZE"
    using full tx.full_iff [of "uart_tx_w s" "uart_tx_r s"] by auto
  then have "uartputc c s = sleep Ch_uart Lk_uart_tx ?s"
    using quietD [OF q] ok(2) by (simp add: uartputc_def uartputc_loop_def exec_simps)
  moreover have "sleep Ch_uart Lk_uart_tx ?s = Swtch (?s\<lparr>mach := rel Lk_uart_tx (acq (Lk_proc p) (settle (mach ?s))),
    procs := (procs ?s)(p := (procs ?s p)\<lparr>chan := Some Ch_uart, pstate := SLEEPING, k_intena := intena (this_cpu (mach ?s))\<rparr>)\<rparr>)"
    by (rule sleep_exec) (use full q quietD [OF q] noff_acq [of Lk_uart_tx "mach s"] in \<open>simp_all add: lock_simps\<close>)
  ultimately show "\<exists>t. uartputc c s = Swtch t \<and> uart_stream t = uart_stream s \<and> pstate (procs t p) = SLEEPING \<and> chan (procs t p) = Some Ch_uart"
    by (simp add: uart_stream_def)
qed (rule uart_drains [OF q ok(1)])

definition demo_u :: ustate where
  "demo_u = lgstate.extend demo_lg (ustate.fields (\<lambda>_. 0) (\<lambda>_. 0) [] 1 [] (\<lambda>_. 0) 0 0 False True (\<lambda>_. 0) 0 0 0 (\<lambda>_. None) (\<lambda>_. None))"

lemma demo_u_simps [simp]:
  "quiet 1 demo_u" "uart_regs demo_u = (\<lambda>_. 0)" "uart_out demo_u = []" "uart_tx_w demo_u = 0" "uart_tx_r demo_u = 0" "\<not> panicked demo_u"
  "mach demo_u = busy_machine"
  by (simp_all add: demo_u_def demo_lg_def demo_b_def quiet_def lgstate.defs bstate.defs ustate.defs)

theorem uartputc_fifo_witness:
  "\<exists>t (u :: ustate). uartputc 65 demo_u = Done () t \<and> uart_stream t = [65] \<and> uart_out t = [65] \<and>
     uartputc 66 (demo_u\<lparr>uart_tx_w := 32\<rparr>) = Swtch u \<and> pstate (procs u 1) = SLEEPING"
proof -
  have s: "uart_ok demo_u" "uart_stream demo_u = []" by (simp_all add: uart_ok_def uart_stream_def ring_contents_def)
  let ?f = "demo_u\<lparr>uart_tx_w := 32\<rparr>"
  have f: "quiet 1 ?f" "uart_ok ?f" using demo_u_simps(1) by (simp_all add: quiet_def uart_ok_def)
  have r: "uart_room demo_u = 1" by (simp add: demo_u_def lgstate.defs ustate.defs)
  obtain t where t: "uartputc 65 demo_u = Done () t" "uart_stream t = [65]" "uart_out t = [65]"
    using uartputc_fifo [OF demo_u_simps(1) s(1), of 65] s(2) r by auto
  moreover obtain u where "uartputc 66 ?f = Swtch u" "pstate (procs u 1) = SLEEPING"
    using uartputc_fifo [OF f, of 66] by auto
  ultimately show ?thesis by blast
qed

end
