(* ===== verification/Printf.thy ===== *)
theory Printf
  imports Uart Kstring
begin

text \<open>
  \<^verbatim>\<open>kernel/printf.c\<close>, with \<^verbatim>\<open>consputc\<close> of \<^verbatim>\<open>console.c\<close> and \<^verbatim>\<open>procdump\<close> of \<^verbatim>\<open>proc.c\<close>. A format is a string, the variable
  arguments are a list; an argument of the wrong kind, a missing argument and an index beyond a local
  array are undefined in C and are the outcome \<open>undefined_behaviour\<close>.
\<close>

definition undefined_behaviour :: "('s, 'a) thread" where
  "undefined_behaviour = panic ''undefined behaviour''"

lemma undefined_behaviour_exec [exec_simps]: "undefined_behaviour s = Panic ''undefined behaviour''"
  by (simp add: undefined_behaviour_def panic_def)

abbreviation (input) BACKSPACE :: int where "BACKSPACE \<equiv> 0x100"

definition consputc :: "int \<Rightarrow> ('x ustate_scheme, unit) thread" where
  "consputc c =
     (if c = BACKSPACE
      then seq (uartputc_sync 8) (seq (uartputc_sync 32) (uartputc_sync 8))
      else uartputc_sync c)"

definition digits :: string where
  "digits = ''0123456789abcdef''"

text \<open>The digits that the loop of \<^verbatim>\<open>printint\<close> puts into its buffer, the least significant one first.\<close>

function digits_of :: "nat \<Rightarrow> nat \<Rightarrow> nat list" where
  "digits_of base x = x mod base # (if base < 2 \<or> x div base = 0 then [] else digits_of base (x div base))"
  by auto
termination
  by (relation "measure snd") (auto simp: div_eq_0_iff)

declare digits_of.simps [simp del]

definition printint_buf :: "int \<Rightarrow> nat \<Rightarrow> bool \<Rightarrow> char list" where
  "printint_buf xx base sign =
     (let neg = (sign \<and> xx < 0);
          x = nat ((if neg then - xx else xx) mod 2 ^ 64) in
      map (\<lambda>d. digits ! d) (digits_of base x) @ (if neg then [CHR ''-''] else []))"

definition printint :: "int \<Rightarrow> nat \<Rightarrow> bool \<Rightarrow> ('x ustate_scheme, unit) thread" where
  "printint xx base sign =
     (let buf = printint_buf xx base sign in
      if length buf > 16 then undefined_behaviour
      else for_each (rev buf) (\<lambda>c. consputc (of_char c)))"

definition printptr :: "u64 \<Rightarrow> ('x ustate_scheme, unit) thread" where
  "printptr x =
     seq (consputc (of_char CHR ''0'')) (
     seq (consputc (of_char CHR ''x''))
         (for_each [0..<16] (\<lambda>i. consputc (of_char (digits ! unat (drop_bit 60 (push_bit (4 * i) x)))))))"

datatype printf_arg = Arg_int u64 | Arg_str "u8 list option"

datatype conv = Int_conv nat bool | Long_conv nat bool | Ptr_conv | Str_conv | Percent_conv | Unknown_conv char

text \<open>The conversion that follows a percent sign, and the number of further characters it takes.\<close>

definition conversion :: "char \<Rightarrow> char option \<Rightarrow> char option \<Rightarrow> conv \<times> nat" where
  "conversion c0 c1 c2 =
     (if c0 = CHR ''d'' then (Int_conv 10 True, 0)
      else if c0 = CHR ''l'' \<and> c1 = Some (CHR ''d'') then (Long_conv 10 True, 1)
      else if c0 = CHR ''l'' \<and> c1 = Some (CHR ''l'') \<and> c2 = Some (CHR ''d'') then (Long_conv 10 True, 2)
      else if c0 = CHR ''u'' then (Int_conv 10 False, 0)
      else if c0 = CHR ''l'' \<and> c1 = Some (CHR ''u'') then (Long_conv 10 False, 1)
      else if c0 = CHR ''l'' \<and> c1 = Some (CHR ''l'') \<and> c2 = Some (CHR ''u'') then (Long_conv 10 False, 2)
      else if c0 = CHR ''x'' then (Int_conv 16 False, 0)
      else if c0 = CHR ''l'' \<and> c1 = Some (CHR ''x'') then (Long_conv 16 False, 1)
      else if c0 = CHR ''l'' \<and> c1 = Some (CHR ''l'') \<and> c2 = Some (CHR ''x'') then (Long_conv 16 False, 2)
      else if c0 = CHR ''p'' then (Ptr_conv, 0)
      else if c0 = CHR ''s'' then (Str_conv, 0)
      else if c0 = CHR ''%'' then (Percent_conv, 0)
      else (Unknown_conv c0, 0))"

definition va_int :: "printf_arg list \<Rightarrow> ('s, int \<times> printf_arg list) thread" where
  "va_int ap = (case ap of Arg_int v # ap' \<Rightarrow> ret (s32 (unat v mod 2 ^ 32), ap') | _ \<Rightarrow> undefined_behaviour)"

definition va_uint64 :: "printf_arg list \<Rightarrow> ('s, u64 \<times> printf_arg list) thread" where
  "va_uint64 ap = (case ap of Arg_int v # ap' \<Rightarrow> ret (v, ap') | _ \<Rightarrow> undefined_behaviour)"

definition va_str :: "printf_arg list \<Rightarrow> ('s, u8 list \<times> printf_arg list) thread" where
  "va_str ap = (case ap of
     Arg_str (Some s) # ap' \<Rightarrow> ret (s, ap')
   | Arg_str None # ap' \<Rightarrow> ret (map of_char ''(null)'', ap')
   | _ \<Rightarrow> undefined_behaviour)"

definition print_conv :: "conv \<Rightarrow> printf_arg list \<Rightarrow> ('x ustate_scheme, printf_arg list) thread" where
  "print_conv k ap = (case k of
     Int_conv base sign \<Rightarrow> bind (va_int ap) (\<lambda>(x, ap'). seq (printint x base sign) (ret ap'))
   | Long_conv base sign \<Rightarrow> bind (va_uint64 ap) (\<lambda>(x, ap'). seq (printint (sint x) base sign) (ret ap'))
   | Ptr_conv \<Rightarrow> bind (va_uint64 ap) (\<lambda>(x, ap'). seq (printptr x) (ret ap'))
   | Str_conv \<Rightarrow> bind (va_str ap) (\<lambda>(cs, ap'). seq (for_each cs (\<lambda>c. consputc (uint c))) (ret ap'))
   | Percent_conv \<Rightarrow> seq (consputc (of_char CHR ''%'')) (ret ap)
   | Unknown_conv c0 \<Rightarrow> seq (consputc (of_char CHR ''%'')) (seq (consputc (of_char c0)) (ret ap)))"

definition nth_char :: "string \<Rightarrow> nat \<Rightarrow> char option" where
  "nth_char cs i = (if i < length cs then Some (cs ! i) else None)"

function printf_fmt :: "string \<Rightarrow> printf_arg list \<Rightarrow> ('x ustate_scheme, unit) thread" where
  "printf_fmt [] ap = ret ()"
| "printf_fmt (cx # cs) ap =
     (if cx \<noteq> CHR ''%'' then seq (consputc (of_char cx)) (printf_fmt cs ap)
      else case cs of
        [] \<Rightarrow> ret ()
      | c0 # r \<Rightarrow>
          (case conversion c0 (nth_char r 0) (nth_char r 1) of (k, skip) \<Rightarrow>
             bind (print_conv k ap) (\<lambda>ap'. printf_fmt (drop skip r) ap')))"
  by pat_completeness auto
termination
  by (relation "measure (\<lambda>(cs, ap). length cs)") auto

declare printf_fmt.simps [simp del]

definition printf :: "string \<Rightarrow> printf_arg list \<Rightarrow> ('x ustate_scheme, int) thread" where
  "printf fmt ap =
     bind (gets pr_locking) (\<lambda>locking.
     seq (whenM locking (acquire Lk_pr)) (
     seq (printf_fmt fmt ap) (
     seq (whenM locking (release Lk_pr))
         (ret 0))))"

definition newline :: string where
  "newline = [CHR 0x0A]"

definition kpanic :: "u8 list \<Rightarrow> ('x ustate_scheme, 'a) thread" where
  "kpanic s =
     seq (modify (\<lambda>s. s\<lparr>pr_locking := False\<rparr>)) (
     bind (printf ''panic: '' []) (\<lambda>_.
     bind (printf (''%s'' @ newline) [Arg_str (Some s)]) (\<lambda>_.
     seq (modify (\<lambda>s. s\<lparr>panicked := True\<rparr>))
         spin)))"

definition printfinit :: "('x ustate_scheme, unit) thread" where
  "printfinit =
     seq (initlock Lk_pr ''pr'')
         (modify (\<lambda>s. s\<lparr>pr_locking := True\<rparr>))"

primrec state_name :: "procstate \<Rightarrow> string" where
  "state_name UNUSED = ''unused''"
| "state_name USED = ''used''"
| "state_name SLEEPING = ''sleep ''"
| "state_name RUNNABLE = ''runble''"
| "state_name RUNNING = ''run   ''"
| "state_name ZOMBIE = ''zombie''"

definition procdump :: "('x ustate_scheme, unit) thread" where
  "procdump =
     bind (printf newline []) (\<lambda>_.
     for_each [0..<NPROC] (\<lambda>p.
       bind (get_proc p) (\<lambda>q.
       if pstate q = UNUSED then ret () else
       bind (printf ''%d %s %s'' [Arg_int (of_int (pid q)), Arg_str (Some (map of_char (state_name (pstate q)))),
                                  Arg_str (Some (cstr 16 (pname q) 0))]) (\<lambda>_.
       bind (printf newline []) (\<lambda>_. ret ())))))"

subsection \<open>What is printed\<close>

definition can_print :: "nat \<Rightarrow> 'x ustate_scheme \<Rightarrow> bool" where
  "can_print n s = (mach_ok (mach s) \<and> \<not> panicked s \<and> n \<le> uart_room s \<and> \<not> bit (uart_regs s LCR) 7)"

definition printed :: "u8 list \<Rightarrow> 'x ustate_scheme \<Rightarrow> 'x ustate_scheme" where
  "printed cs s = s\<lparr>mach := settle (mach s), uart_out := uart_out s @ cs, uart_room := uart_room s - length cs\<rparr>"

lemma uartputc_sync_exec [exec_simps]:
  assumes "can_print 1 s"
  shows "uartputc_sync c s = Done () (printed [of_int c] s)"
proof -
  let ?c = "this_cpu (mach s)"
  let ?m = "(mach s)\<lparr>cpus := (cpus (mach s))(hart (mach s) := ?c\<lparr>sie := False,
       intena := (if noff ?c = 0 then sie ?c else intena ?c), noff := noff ?c + 1\<rparr>)\<rparr>"
  have "intr_disabled ?m" using assms by (auto simp: can_print_def intr_disabled_def mach_ok_def)
  then show ?thesis
    using assms by (cases "this_cpu (mach s)")
      (auto simp: uartputc_sync_def can_print_def printed_def tx_idle_def WriteReg_def exec_simps settle_def mach_ok_def
        fun_upd_def cong: if_cong)
qed

lemma can_print_printed [simp]: "can_print n (printed cs s) \<longleftrightarrow> can_print 0 s \<and> n \<le> uart_room s - length cs"
  by (auto simp: can_print_def printed_def lock_simps)

lemma printed_printed [simp]: "printed ds (printed cs s) = printed (cs @ ds) s"
  by (simp add: printed_def lock_simps)

lemma printed_fields [simp]:
  "mach (printed cs s) = settle (mach s)" "procs (printed cs s) = procs s" "uart_room (printed cs s) = uart_room s - length cs"
  "uart_out (printed cs s) = uart_out s @ cs" "cons_e (printed cs s) = cons_e s" "cons_w (printed cs s) = cons_w s"
  "cons_r (printed cs s) = cons_r s" "cons_buf (printed cs s) = cons_buf s"
  by (simp_all add: printed_def)

lemma can_print_mono: "can_print n s \<Longrightarrow> m \<le> n \<Longrightarrow> can_print m s"
  by (simp add: can_print_def)

lemma consputc_backspace:
  assumes "can_print 3 s"
  shows "consputc BACKSPACE s = Done () (printed [8, 32, 8] s)"
proof -
  have s: "can_print 0 s" "can_print 1 s" "3 \<le> uart_room s"
    using assms can_print_mono [OF assms] by (auto simp: can_print_def)
  then show ?thesis by (simp add: consputc_def exec_simps)
qed

lemma consputc_list:
  assumes "can_print (length cs) s" "cs \<noteq> []" "\<forall>c \<in> set cs. f c \<noteq> BACKSPACE"
  shows "for_each cs (\<lambda>c. consputc (f c)) s = Done () (printed (map (\<lambda>c. of_int (f c)) cs) s)"
  using assms
proof (induction cs arbitrary: s)
  case (Cons c cs)
  have c: "consputc (f c) s = Done () (printed [of_int (f c)] s)"
    using Cons.prems can_print_mono [OF Cons.prems(1), of 1] by (simp add: consputc_def exec_simps)
  have s': "can_print 0 s" using can_print_mono [OF Cons.prems(1), of 0] by simp
  show ?case
  proof (cases "cs = []")
    case True
    then show ?thesis using c by (simp add: exec_simps)
  next
    case False
    have "can_print (length cs) (printed [of_int (f c)] s)"
      using Cons.prems(1) s' by (simp only: can_print_printed) (auto simp: can_print_def)
    from Cons.IH [OF this False] Cons.prems(3)
    show ?thesis using c by (simp add: exec_simps)
  qed
qed simp

text \<open>The number that a list of digits denotes, the least significant one first.\<close>

definition digits_value :: "nat \<Rightarrow> nat list \<Rightarrow> nat" where
  "digits_value base ds = foldr (\<lambda>d v. d + base * v) ds 0"

lemma digits_of_value: "2 \<le> base \<Longrightarrow> digits_value base (digits_of base x) = x"
proof (induction base x rule: digits_of.induct)
  case (1 base x)
  show ?case
  proof (cases "x div base = 0")
    case True
    then show ?thesis using 1 by (subst digits_of.simps) (simp add: digits_value_def div_eq_0_iff)
  next
    case False
    then have "digits_value base (digits_of base (x div base)) = x div base" using 1 by simp
    then show ?thesis using False 1(2) by (subst digits_of.simps) (simp add: digits_value_def)
  qed
qed

lemma digits_of_less: "2 \<le> base \<Longrightarrow> d \<in> set (digits_of base x) \<Longrightarrow> d < base"
proof (induction base x rule: digits_of.induct)
  case (1 base x)
  from 1(3) have "d = x mod base \<or> x div base \<noteq> 0 \<and> d \<in> set (digits_of base (x div base))"
    by (subst (asm) digits_of.simps) (auto split: if_splits)
  then show ?case using 1(1,2) by (auto simp: Suc_le_eq)
qed

lemma digits_of_nonempty: "digits_of base x \<noteq> []"
  by (subst digits_of.simps) simp

lemma length_digits_of: "2 \<le> base \<Longrightarrow> 0 < n \<Longrightarrow> length (digits_of base x) \<le> n \<longleftrightarrow> x < base ^ n"
proof (induction n arbitrary: x)
  case (Suc n)
  have d: "x div base < base ^ n \<longleftrightarrow> x < base ^ Suc n"
    using Suc.prems(1) by (simp add: div_less_iff_less_mult mult.commute)
  show ?case
  proof (cases "x div base = 0")
    case True
    then have "x < base" using Suc.prems(1) by (auto simp: div_eq_0_iff)
    moreover have "base \<le> base ^ Suc n" using Suc.prems(1) by simp
    ultimately have "x < base ^ Suc n" by (rule less_le_trans)
    then show ?thesis using True by (subst digits_of.simps) (simp del: power_Suc)
  next
    case False
    show ?thesis
    proof (cases n)
      case 0
      then show ?thesis using False Suc.prems digits_of_nonempty [of base "x div base"]
        by (subst digits_of.simps) (auto simp: div_eq_0_iff)
    next
      case (Suc m)
      then show ?thesis using Suc.IH [of "x div base"] Suc.prems False d by (subst digits_of.simps) simp
    qed
  qed
qed simp

text \<open>
  C37. \<^verbatim>\<open>printint\<close> prints the decimal notation of its argument: a minus sign exactly for a negative number, then decimal
  digits, the most significant one first, that denote the absolute value. The bound is what fits the
  16-byte buffer of the function.
\<close>

theorem printint_decimal:
  assumes s: "can_print 16 s" and x: "\<bar>xx\<bar> < 10 ^ 15"
  shows "\<exists>ds. ds \<noteq> [] \<and> (\<forall>d \<in> set ds. d < 10) \<and> digits_value 10 ds = nat \<bar>xx\<bar> \<and>
    printint xx 10 True s = Done () (printed (map (\<lambda>c. of_int (of_char c))
      ((if xx < 0 then ''-'' else []) @ rev (map (\<lambda>d. digits ! d) ds))) s)"
proof -
  let ?ds = "digits_of 10 (nat \<bar>xx\<bar>)"
  have len: "length ?ds \<le> 15" using length_digits_of [of 10 15 "nat \<bar>xx\<bar>"] x by (simp add: nat_less_iff)
  have "nat ((if xx < 0 then - xx else xx) mod 2 ^ 64) = nat \<bar>xx\<bar>" using x by simp
  then have buf: "printint_buf xx 10 True = map (\<lambda>d. digits ! d) ?ds @ (if xx < 0 then ''-'' else [])"
    by (simp add: printint_buf_def)
  let ?cs = "rev (printint_buf xx 10 True)"
  have l: "length ?cs \<le> 16" using len unfolding buf by (cases "xx < 0") simp_all
  have "?cs \<noteq> []" by (simp add: buf digits_of_nonempty)
  moreover have "can_print (length ?cs) s" using can_print_mono [OF s] l by simp
  moreover have "of_char c \<noteq> BACKSPACE" for c
  proof -
    have "(of_char c :: int) < 256" by (metis of_char_mod_256 pos_mod_bound zero_less_numeral)
    then show ?thesis by simp
  qed
  ultimately have "printint xx 10 True s = Done () (printed (map (\<lambda>c. of_int (of_char c)) ?cs) s)"
    using l consputc_list [of ?cs s of_char] by (simp add: printint_def Let_def)
  then show ?thesis
    using digits_of_value [of 10] digits_of_less [of 10] digits_of_nonempty
    by (intro exI [of _ ?ds]) (simp add: buf)
qed

theorem printint_decimal_witness:
  "\<exists>ds. digits_value 10 ds = 42 \<and> printint (- 42) 10 True (demo_u\<lparr>uart_room := 16\<rparr>) =
     Done () (printed (map (\<lambda>c. of_int (of_char c)) (''-'' @ rev (map (\<lambda>d. digits ! d) ds))) (demo_u\<lparr>uart_room := 16\<rparr>))"
proof -
  have "can_print 16 (demo_u\<lparr>uart_room := 16\<rparr>)" by (simp add: can_print_def)
  from printint_decimal [OF this, of "- 42"] show ?thesis by auto
qed

text \<open>
  C40. \<^verbatim>\<open>printf\<close> with the conversion \<^verbatim>\<open>%u\<close> sign-extends its 32-bit argument to 64 bits before it prints it without a
  sign: every argument of \<open>2 ^ 31\<close> or more becomes a number of 20 digits, which overruns the 16-byte buffer of
  \<^verbatim>\<open>printint\<close>.
\<close>

theorem printf_unsigned_overruns:
  assumes "lk_free Lk_pr (mach s)" "2 ^ 31 \<le> unat v" "unat v < 2 ^ 32"
  shows "printf ''%u'' [Arg_int v] s = Panic ''undefined behaviour''"
proof -
  let ?x = "s32 (unat v mod 2 ^ 32)"
  have x: "?x = int (unat v) - 2 ^ 32" using assms(2,3) by (simp add: s32_def)
  have "int (unat v) < int (2 ^ 32)" "int (2 ^ 31) \<le> int (unat v)"
    using assms(2,3) by (simp_all only: of_nat_less_iff of_nat_le_iff)
  then have u: "uint v < 2 ^ 32" "2 ^ 31 \<le> uint v" by simp_all
  have "?x mod 2 ^ 64 = (?x + 2 ^ 64) mod 2 ^ 64" by simp
  also have "\<dots> = ?x + 2 ^ 64" using u x by (intro mod_pos_pos_trivial) simp_all
  finally have "?x mod 2 ^ 64 = ?x + 2 ^ 64" .
  then have big: "10 ^ 16 \<le> nat (?x mod 2 ^ 64)" using u x by simp
  then have "16 < length (digits_of 10 (nat (?x mod 2 ^ 64)))"
    using length_digits_of [of 10 16 "nat (?x mod 2 ^ 64)"] by simp
  then have "printint ?x 10 False t = Panic ''undefined behaviour''" for t :: "'a ustate_scheme"
    by (simp add: printint_def printint_buf_def Let_def exec_simps)
  then show ?thesis
    using assms(1) by (cases "pr_locking s") (simp_all add: whenM_def printf_def printf_fmt.simps conversion_def print_conv_def va_int_def exec_simps)
qed

theorem printf_unsigned_overruns_witness:
  "printf ''%u'' [Arg_int 0xFFFFFFFF] demo_u = Panic ''undefined behaviour''"
  by (rule printf_unsigned_overruns) simp_all

end
