(* ===== verification/Console.thy ===== *)
theory Console
  imports Printf
begin

text \<open>
  \<^verbatim>\<open>kernel/console.c\<close> and the interrupt handler of \<^verbatim>\<open>kernel/uart.c\<close>. \<open>typed\<close> is the part of the input line that can still be
  edited and \<open>lines\<close> the input that readers may take; the theorem on \<open>consoleintr\<close> says that the three counters into the
  circular buffer implement the editor \<open>edit\<close> on these two lists. Reads and writes that wait are continued in
  the definitions with suffix \<open>_resume\<close>.
\<close>

abbreviation (input) INPUT_BUF_SIZE :: u32 where "INPUT_BUF_SIZE \<equiv> 128"
abbreviation (input) CONSOLE :: nat where "CONSOLE \<equiv> 1"

definition cons_src :: "bool \<Rightarrow> u64 \<Rightarrow> copy_src" where
  "cons_src user src = (if user then From_user src else From_kernel src)"

definition cons_dst :: "bool \<Rightarrow> u64 \<Rightarrow> copy_dst" where
  "cons_dst user dst = (if user then To_user dst else To_kernel dst)"

text \<open>The loop of \<^verbatim>\<open>consolewrite\<close> after \<open>i\<close> bytes, with \<open>k\<close> bytes left.\<close>

primrec consolewrite_loop :: "nat \<Rightarrow> bool \<Rightarrow> u64 \<Rightarrow> nat \<Rightarrow> ('x ustate_scheme, int) thread" where
  "consolewrite_loop 0 user_src src i = ret (int i)"
| "consolewrite_loop (Suc k) user_src src i =
     bind (either_copyin (\<lambda>_. 0) 0 (cons_src user_src (src + of_nat i)) 1) (\<lambda>(r, c).
     if r = - 1 then ret (int i) else
     seq (uartputc (c 0))
         (consolewrite_loop k user_src src (i + 1)))"

definition consolewrite :: "bool \<Rightarrow> u64 \<Rightarrow> int \<Rightarrow> ('x ustate_scheme, int) thread" where
  "consolewrite user_src src n = consolewrite_loop (nat n) user_src src 0"

definition consolewrite_resume :: "nat \<Rightarrow> u8 \<Rightarrow> nat \<Rightarrow> bool \<Rightarrow> u64 \<Rightarrow> nat \<Rightarrow> ('x ustate_scheme, int) thread" where
  "consolewrite_resume p c k user_src src i =
     seq (uartputc_resume p c) (consolewrite_loop k user_src src (i + 1))"

text \<open>The loop of \<^verbatim>\<open>consoleread\<close> with \<open>n\<close> bytes still wanted and the lock held.\<close>

definition consoleread_done :: "nat \<Rightarrow> nat \<Rightarrow> ('x ustate_scheme, int) thread" where
  "consoleread_done target n = seq (release Lk_cons) (ret (int target - int n))"

primrec consoleread_loop :: "nat \<Rightarrow> bool \<Rightarrow> u64 \<Rightarrow> nat \<Rightarrow> ('x ustate_scheme, int) thread" where
  "consoleread_loop 0 user_dst dst target = consoleread_done target 0"
| "consoleread_loop (Suc k) user_dst dst target =
     bind (gets (\<lambda>s. cons_r s = cons_w s)) (\<lambda>empty.
     if empty then
       bind myproc_ref (\<lambda>p.
       bind (killed p) (\<lambda>dead.
       if dead \<noteq> 0 then seq (release Lk_cons) (ret (- 1))
       else seq (sleep Ch_cons Lk_cons) (ret 0)))
     else
       bind (gets (\<lambda>s. cons_buf s (ring_slot INPUT_BUF_SIZE (cons_r s)))) (\<lambda>c.
       seq (modify (\<lambda>s. s\<lparr>cons_r := cons_r s + 1\<rparr>)) (
       if c = 4 then
         seq (whenM (Suc k < target) (modify (\<lambda>s. s\<lparr>cons_r := cons_r s - 1\<rparr>)))
             (consoleread_done target (Suc k))
       else
         bind (either_copyout (cons_dst user_dst dst) (\<lambda>_. c) 0 1 (\<lambda>_. 0)) (\<lambda>(r, _).
         if r = - 1 then consoleread_done target (Suc k)
         else if c = 10 then consoleread_done target k
         else consoleread_loop k user_dst (dst + 1) target))))"

definition consoleread :: "bool \<Rightarrow> u64 \<Rightarrow> int \<Rightarrow> ('x ustate_scheme, int) thread" where
  "consoleread user_dst dst n =
     seq (acquire Lk_cons) (consoleread_loop (nat n) user_dst dst (nat n))"

definition consoleread_resume :: "nat \<Rightarrow> nat \<Rightarrow> bool \<Rightarrow> u64 \<Rightarrow> nat \<Rightarrow> ('x ustate_scheme, int) thread" where
  "consoleread_resume p k user_dst dst target =
     seq (sleep_resume p Lk_cons) (consoleread_loop (Suc k) user_dst dst target)"

text \<open>Kill line: every round moves the edit index back, so the distance to the write index bounds the rounds.\<close>

primrec kill_line :: "nat \<Rightarrow> ('x ustate_scheme, unit) thread" where
  "kill_line 0 = spin"
| "kill_line (Suc k) =
     bind (gets (\<lambda>s. cons_e s \<noteq> cons_w s \<and> cons_buf s (ring_slot INPUT_BUF_SIZE (cons_e s - 1)) \<noteq> 10)) (\<lambda>more.
     if more then
       seq (modify (\<lambda>s. s\<lparr>cons_e := cons_e s - 1\<rparr>)) (
       seq (consputc BACKSPACE)
           (kill_line k))
     else ret ())"

definition consoleintr :: "int \<Rightarrow> ('x ustate_scheme, unit) thread" where
  "consoleintr c =
     seq (acquire Lk_cons) (
     seq (if c = 16 then procdump
          else if c = 21 then bind (gets (\<lambda>s. unat (cons_e s - cons_w s))) (\<lambda>n. kill_line (Suc n))
          else if c = 8 \<or> c = 0x7f then
            bind (gets (\<lambda>s. cons_e s \<noteq> cons_w s)) (\<lambda>more.
            whenM more (
              seq (modify (\<lambda>s. s\<lparr>cons_e := cons_e s - 1\<rparr>))
                  (consputc BACKSPACE)))
          else
            bind (gets (\<lambda>s. cons_e s - cons_r s < INPUT_BUF_SIZE)) (\<lambda>space.
            whenM (c \<noteq> 0 \<and> space) (
              let c = (if c = 13 then 10 else c) in
              seq (consputc c) (
              seq (modify (\<lambda>s. s\<lparr>cons_buf := (cons_buf s)(ring_slot INPUT_BUF_SIZE (cons_e s) := of_int c), cons_e := cons_e s + 1\<rparr>)) (
              bind (gets (\<lambda>s. cons_e s - cons_r s = INPUT_BUF_SIZE)) (\<lambda>full.
              whenM (c = 10 \<or> c = 4 \<or> full) (
                seq (modify (\<lambda>s. s\<lparr>cons_w := cons_e s\<rparr>))
                    (wakeup Ch_cons))))))))
         (release Lk_cons))"

definition consoleinit :: "('x ustate_scheme, unit) thread" where
  "consoleinit =
     seq (initlock Lk_cons ''cons'') (
     seq uartinit
         (modify (\<lambda>s. s\<lparr>devsw_read := (devsw_read s)(CONSOLE := Some Consoleread),
                         devsw_write := (devsw_write s)(CONSOLE := Some Consolewrite)\<rparr>)))"

text \<open>The input loop of \<^verbatim>\<open>uartintr\<close>; every round takes a received byte.\<close>

primrec uartintr_loop :: "nat \<Rightarrow> ('x ustate_scheme, unit) thread" where
  "uartintr_loop 0 = spin"
| "uartintr_loop (Suc k) = bind uartgetc (\<lambda>c. if c = - 1 then ret () else seq (consoleintr c) (uartintr_loop k))"

definition uartintr :: "('x ustate_scheme, unit) thread" where
  "uartintr =
     bind (gets (\<lambda>s. length (uart_in s))) (\<lambda>n.
     seq (uartintr_loop (Suc n)) (
     seq (acquire Lk_uart_tx) (
     seq uartstart
         (release Lk_uart_tx))))"

subsection \<open>The line editor\<close>

interpretation kbd: ring INPUT_BUF_SIZE
  by unfold_locales simp_all

definition typed :: "'x ustate_scheme \<Rightarrow> u8 list" where
  "typed s = ring_contents INPUT_BUF_SIZE (cons_buf s) (cons_w s) (cons_e s)"

definition lines :: "'x ustate_scheme \<Rightarrow> u8 list" where
  "lines s = ring_contents INPUT_BUF_SIZE (cons_buf s) (cons_r s) (cons_w s)"

definition cons_ok :: "'x ustate_scheme \<Rightarrow> bool" where
  "cons_ok s = (unat (cons_w s - cons_r s) \<le> unat (cons_e s - cons_r s) \<and> unat (cons_e s - cons_r s) \<le> unat INPUT_BUF_SIZE \<and>
     10 \<notin> set (typed s))"

definition edit :: "int \<Rightarrow> u8 list \<times> u8 list \<Rightarrow> u8 list \<times> u8 list" where
  "edit c = (\<lambda>(ls, ty).
     if c = 21 then (ls, [])
     else if c = 8 \<or> c = 0x7f then (ls, butlast ty)
     else if c \<noteq> 0 \<and> length ls + length ty < 128 then
       (let c = (if c = 13 then 10 else c) in
        if c = 10 \<or> c = 4 \<or> length ls + length ty + 1 = 128 then (ls @ ty @ [of_int c], []) else (ls, ty @ [of_int c]))
     else (ls, ty))"

lemma cons_split:
  assumes "cons_ok s"
  shows "ring_contents INPUT_BUF_SIZE (cons_buf s) (cons_r s) (cons_e s) = lines s @ typed s"
    "length (lines s) = unat (cons_w s - cons_r s)" "length (typed s) = unat (cons_e s - cons_w s)"
    "length (lines s) + length (typed s) = unat (cons_e s - cons_r s)"
    "typed s = [] \<longleftrightarrow> cons_e s = cons_w s"
proof -
  have le: "unat (cons_w s - cons_r s) \<le> unat (cons_e s - cons_r s)" using assms by (simp add: cons_ok_def)
  show "ring_contents INPUT_BUF_SIZE (cons_buf s) (cons_r s) (cons_e s) = lines s @ typed s"
    using kbd.contents_append(1) [OF le] by (simp add: lines_def typed_def)
  show l: "length (lines s) = unat (cons_w s - cons_r s)" "length (typed s) = unat (cons_e s - cons_w s)"
    by (simp_all add: lines_def typed_def kbd.length_contents)
  show "length (lines s) + length (typed s) = unat (cons_e s - cons_r s)"
    using kbd.contents_append(2) [OF le] le l by simp
  show "typed s = [] \<longleftrightarrow> cons_e s = cons_w s"
    unfolding typed_def kbd.contents_Nil_iff by auto
qed

text \<open>The parts of the state that matter to the editor.\<close>

lemma cons_frame [simp]:
  "lines (s\<lparr>mach := m\<rparr>) = lines s" "typed (s\<lparr>mach := m\<rparr>) = typed s" "cons_ok (s\<lparr>mach := m\<rparr>) = cons_ok s"
  "lines (s\<lparr>procs := f\<rparr>) = lines s" "typed (s\<lparr>procs := f\<rparr>) = typed s" "cons_ok (s\<lparr>procs := f\<rparr>) = cons_ok s"
  "lines (printed cs s) = lines s" "typed (printed cs s) = typed s" "cons_ok (printed cs s) = cons_ok s"
  by (simp_all add: lines_def typed_def cons_ok_def printed_def)

lemma cons_unput:
  assumes "cons_ok s" "cons_e s \<noteq> cons_w s"
  shows "typed (s\<lparr>cons_e := cons_e s - 1\<rparr>) = butlast (typed s)" "lines (s\<lparr>cons_e := cons_e s - 1\<rparr>) = lines s"
    "cons_ok (s\<lparr>cons_e := cons_e s - 1\<rparr>)" "cons_buf s (ring_slot INPUT_BUF_SIZE (cons_e s - 1)) = last (typed s)"
proof -
  let ?t = "s\<lparr>cons_e := cons_e s - 1\<rparr>"
  show t: "typed ?t = butlast (typed s)" using kbd.contents_unput(1) [OF assms(2)] by (simp add: typed_def)
  show l: "lines ?t = lines s" by (simp add: lines_def)
  show "cons_buf s (ring_slot INPUT_BUF_SIZE (cons_e s - 1)) = last (typed s)"
    using kbd.contents_unput(2) [OF assms(2), of "cons_buf s"] by (simp add: typed_def)
  note sp = cons_split [OF assms(1)]
  have n: "0 < length (typed s)" using sp(5) assms(2) by auto
  have "unat ((cons_e s - cons_r s) - 1) = unat (cons_e s - cons_r s) - 1"
    using n sp(4) by (intro unat_minus_one) auto
  then have "unat (cons_e s - 1 - cons_r s) = unat (cons_e s - cons_r s) - 1" by (simp add: diff_right_commute)
  then show "cons_ok ?t"
    using assms(1) n sp t by (auto simp: cons_ok_def dest: in_set_butlastD)
qed

lemma cons_put:
  fixes c :: u8
  assumes "cons_ok s" "cons_e s - cons_r s < INPUT_BUF_SIZE"
  defines "t \<equiv> s\<lparr>cons_buf := (cons_buf s)(ring_slot INPUT_BUF_SIZE (cons_e s) := c), cons_e := cons_e s + 1\<rparr>"
  shows "typed t = typed s @ [c]" "lines t = lines s" "c \<noteq> 10 \<Longrightarrow> cons_ok t"
    "unat (cons_e t - cons_r t) = unat (cons_e s - cons_r s) + 1"
    "lines (t\<lparr>cons_w := cons_e t\<rparr>) = lines s @ typed s @ [c]" "typed (t\<lparr>cons_w := cons_e t\<rparr>) = []" "cons_ok (t\<lparr>cons_w := cons_e t\<rparr>)"
proof -
  have room: "unat (cons_e s - cons_r s) < unat INPUT_BUF_SIZE" using assms(2) by (simp add: word_less_nat_alt)
  note sp = cons_split [OF assms(1)]
  have all: "ring_contents INPUT_BUF_SIZE (cons_buf t) (cons_r t) (cons_e t) = lines s @ typed s @ [c]"
    using kbd.contents_enqueue [OF room, of "cons_buf s" c] sp(1) by (simp add: t_def)
  show n: "unat (cons_e t - cons_r t) = unat (cons_e s - cons_r s) + 1"
    using arg_cong [OF all, of length] sp(4) by (simp add: kbd.length_contents)
  have w: "cons_w t = cons_w s" "cons_r t = cons_r s" by (simp_all add: t_def)
  have le: "unat (cons_w t - cons_r t) \<le> unat (cons_e t - cons_r t)"
    using assms(1) n w by (simp add: cons_ok_def)
  have "lines t @ typed t = lines s @ typed s @ [c]"
    using kbd.contents_append(1) [OF le, of "cons_buf t"] all by (simp add: lines_def typed_def)
  moreover have "length (lines t) = length (lines s)" by (simp add: lines_def kbd.length_contents w)
  ultimately show ty: "typed t = typed s @ [c]" "lines t = lines s" by (auto simp: append_eq_append_conv)
  show "cons_ok t" if "c \<noteq> 10" using that assms(1) room n le ty by (simp add: cons_ok_def)
  show "lines (t\<lparr>cons_w := cons_e t\<rparr>) = lines s @ typed s @ [c]" using all by (simp add: lines_def)
  show e: "typed (t\<lparr>cons_w := cons_e t\<rparr>) = []" by (simp add: typed_def kbd.contents_empty)
  show "cons_ok (t\<lparr>cons_w := cons_e t\<rparr>)" using e n room by (simp add: cons_ok_def)
qed

lemma kill_line_ok:
  assumes "cons_ok s" "length (typed s) < k" "can_print (3 * length (typed s)) s" "settle (mach s) = mach s"
  shows "\<exists>t. kill_line k s = Done () t \<and> cons_ok t \<and> typed t = [] \<and> lines t = lines s \<and> mach t = mach s"
  using assms
proof (induction k arbitrary: s)
  case (Suc k)
  show ?case
  proof (cases "cons_e s = cons_w s")
    case True
    then show ?thesis using Suc.prems cons_split(5) [OF Suc.prems(1)] by (auto simp: exec_simps)
  next
    case False
    let ?t = "s\<lparr>cons_e := cons_e s - 1\<rparr>"
    note u = cons_unput [OF Suc.prems(1) False]
    have ne: "typed s \<noteq> []" using cons_split(5) [OF Suc.prems(1)] False by simp
    then obtain n where n: "length (typed s) = Suc n" by (cases "length (typed s)") auto
    have nl: "cons_buf s (ring_slot INPUT_BUF_SIZE (cons_e s - 1)) \<noteq> 10"
      using Suc.prems(1) last_in_set [OF ne] unfolding u(4) cons_ok_def by metis
    have p: "can_print (3 * n + 3) ?t" using Suc.prems(3) n by (simp add: can_print_def)
    have p0: "can_print 0 ?t" and r: "3 * n + 3 \<le> uart_room s" using p by (simp_all add: can_print_def)
    have "consputc BACKSPACE ?t = Done () (printed [8, 32, 8] ?t)"
      by (rule consputc_backspace) (use can_print_mono [OF p, of 3] in simp)
    moreover have "\<exists>t. kill_line k (printed [8, 32, 8] ?t) = Done () t \<and> cons_ok t \<and> typed t = [] \<and>
        lines t = lines (printed [8, 32, 8] ?t) \<and> mach t = mach (printed [8, 32, 8] ?t)"
    proof (rule Suc.IH)
      show "can_print (3 * length (typed (printed [8, 32, 8] ?t))) (printed [8, 32, 8] ?t)"
        using p0 r u(1) n by simp
    qed (use u Suc.prems n in \<open>simp_all add: lock_simps\<close>)
    ultimately show ?thesis
      using False nl u(2) Suc.prems(4) by (simp add: exec_simps)
  qed
qed simp

text \<open>An ordinary character for which there is room.\<close>

lemma consoleintr_char:
  assumes ok: "cons_ok s" and m: "mach_ok (mach s)" "lk_free Lk_cons (mach s)" "table_free (cpu_proc (this_cpu (mach s))) (mach s)"
    and p: "can_print 384 s" and c: "0 \<le> c" "c < 256" "c \<noteq> 16"
    and 5: "c \<noteq> 21" "c \<noteq> 8" "c \<noteq> 0x7f" "c \<noteq> 0" "cons_e s - cons_r s < INPUT_BUF_SIZE"
  shows "\<exists>t. consoleintr c s = Done () t \<and> cons_ok t \<and> (lines t, typed t) = edit c (lines s, typed s) \<and> mach t = settle (mach s)"
proof -
  let ?m = "acq Lk_cons (mach s)"
  let ?a = "s\<lparr>mach := ?m\<rparr>"
  have ma: "mach_ok ?m" "lk_held Lk_cons ?m" "intr_disabled ?m" "settle ?m = ?m" "table_free (cpu_proc (this_cpu ?m)) ?m"
    "rel Lk_cons ?m = settle (mach s)"
    using m by (simp_all add: lock_simps table_free_def)
  have pa: "can_print 384 ?a" using p ma(1) by (simp add: can_print_def)
  note sp = cons_split [OF ok]
  let ?c = "if c = 13 then 10 else c"
  let ?p = "printed [of_int ?c] ?a"
  let ?t = "?p\<lparr>cons_buf := (cons_buf ?p)(ring_slot INPUT_BUF_SIZE (cons_e ?p) := of_int ?c), cons_e := cons_e ?p + 1\<rparr>"
  have f: "cons_e ?p = cons_e s" "cons_r ?p = cons_r s" "cons_buf ?p = cons_buf s" "mach ?p = ?m" "procs ?p = procs s"
    using ma(4) by simp_all
  have okp: "cons_ok ?p" using ok by simp
  have sp': "cons_e ?p - cons_r ?p < INPUT_BUF_SIZE" using 5(5) f by simp
  note put = cons_put [OF okp sp', of "of_int ?c"]
  have echo: "consputc ?c ?a = Done () ?p"
    using 5 c can_print_mono [OF pa, of 1] by (auto simp: consputc_def exec_simps)
  have n: "length (lines s) + length (typed s) < 128" using 5(5) sp(4) by (simp add: word_less_nat_alt)
  have full: "cons_e ?t - cons_r ?t = INPUT_BUF_SIZE \<longleftrightarrow> length (lines s) + length (typed s) + 1 = 128"
    using put(4) sp(4) f by (simp add: word_unat_eq_iff)
  have nl: "(of_int ?c :: u8) \<noteq> 10" if "?c \<noteq> 10"
  proof -
    have "uint (of_int ?c :: u8) = ?c" using c by (auto simp: uint_word_of_int_eq take_bit_int_eq_self)
    moreover have "uint (10 :: u8) = 10" by simp
    ultimately show ?thesis using that by metis
  qed
  show ?thesis
  proof (cases "?c = 10 \<or> ?c = 4 \<or> cons_e ?t - cons_r ?t = INPUT_BUF_SIZE")
    case True
    let ?w = "?t\<lparr>cons_w := cons_e ?t, mach := settle (mach s),
      procs := (\<lambda>p. if p < NPROC \<and> cpu_proc (this_cpu ?m) \<noteq> Some p then woken Ch_cons (procs s p) else procs s p)\<rparr>"
    have "consoleintr c s = Done () ?w"
      using 5 c(3) m ma echo True f by (simp add: consoleintr_def exec_simps Let_def cong: if_cong)
    moreover have "cons_ok ?w" "lines ?w = lines s @ typed s @ [of_int ?c]" "typed ?w = []"
      using put(5-7) by simp_all
    moreover have "edit c (lines s, typed s) = (lines s @ typed s @ [of_int ?c], [])"
      using True 5 n full by (simp add: edit_def Let_def)
    ultimately show ?thesis by (intro exI [of _ ?w]) simp
  next
    case False
    let ?w = "?t\<lparr>mach := settle (mach s)\<rparr>"
    have "consoleintr c s = Done () ?w"
      using 5 c(3) m ma echo False f by (simp add: consoleintr_def exec_simps Let_def)
    moreover have "cons_ok ?w" "lines ?w = lines s" "typed ?w = typed s @ [of_int ?c]"
      using put(1-3) nl False by simp_all
    moreover have "edit c (lines s, typed s) = (lines s, typed s @ [of_int ?c])"
      using False 5 n full by (simp add: edit_def Let_def)
    ultimately show ?thesis by (intro exI [of _ ?w]) simp
  qed
qed

text \<open>
  C24. The keyboard interrupt handler implements the line editor: for every input byte other than control-P it changes the
  pair of the committed lines and the line being typed exactly as \<open>edit\<close> says, whatever the values of the
  wrapping counters, and committed input is never changed by editing.
\<close>

theorem consoleintr_edits:
  assumes ok: "cons_ok s" and m: "mach_ok (mach s)" "lk_free Lk_cons (mach s)" "table_free (cpu_proc (this_cpu (mach s))) (mach s)"
    and p: "can_print 384 s" and c: "0 \<le> c" "c < 256" "c \<noteq> 16"
  shows "\<exists>t. consoleintr c s = Done () t \<and> cons_ok t \<and> (lines t, typed t) = edit c (lines s, typed s) \<and> mach t = settle (mach s)"
proof -
  let ?m = "acq Lk_cons (mach s)"
  let ?a = "s\<lparr>mach := ?m\<rparr>"
  have ma: "mach_ok ?m" "lk_held Lk_cons ?m" "intr_disabled ?m" "settle ?m = ?m" "table_free (cpu_proc (this_cpu ?m)) ?m"
    "rel Lk_cons ?m = settle (mach s)"
    using m by (simp_all add: lock_simps table_free_def)
  have pa: "can_print 384 ?a" using p ma(1) by (simp add: can_print_def)
  have oka: "cons_ok ?a" using ok by simp
  note sp = cons_split [OF ok]
  have len: "length (typed s) \<le> 128" using sp(4) ok by (simp add: cons_ok_def)
  consider "c = 21" | "c = 8 \<or> c = 0x7f" "cons_e s = cons_w s" | "c = 8 \<or> c = 0x7f" "cons_e s \<noteq> cons_w s"
    | "c \<noteq> 21" "c \<noteq> 8" "c \<noteq> 0x7f" "\<not> (c \<noteq> 0 \<and> cons_e s - cons_r s < INPUT_BUF_SIZE)"
    | "c \<noteq> 21" "c \<noteq> 8" "c \<noteq> 0x7f" "c \<noteq> 0" "cons_e s - cons_r s < INPUT_BUF_SIZE" by blast
  then show ?thesis
  proof cases
    case 1
    obtain t where t: "kill_line (Suc (length (typed ?a))) ?a = Done () t" "cons_ok t" "typed t = []" "lines t = lines ?a" "mach t = ?m"
      using kill_line_ok [OF oka, of "Suc (length (typed ?a))"] can_print_mono [OF pa] len ma(4) by auto
    then have "consoleintr c s = Done () (t\<lparr>mach := settle (mach s)\<rparr>)"
      using 1 m ma sp(3) by (simp add: consoleintr_def exec_simps)
    then show ?thesis using t 1 by (simp add: edit_def)
  next
    case 2
    moreover from this have "c \<noteq> 21" by auto
    ultimately have "consoleintr c s = Done () (s\<lparr>mach := settle (mach s)\<rparr>)"
      using c(3) m ma by (simp add: consoleintr_def exec_simps)
    then show ?thesis using 2 ok sp(5) by (auto simp: edit_def)
  next
    case 3
    let ?t = "?a\<lparr>cons_e := cons_e s - 1\<rparr>"
    have u: "typed ?t = butlast (typed s)" "lines ?t = lines s" "cons_ok ?t"
      using cons_unput(1-3) [OF oka] 3 by simp_all
    have pt: "can_print 3 ?t" using pa by (simp add: can_print_def)
    have "c \<noteq> 21" using 3 by auto
    then have "consoleintr c s = Done () ((printed [8, 32, 8] ?t)\<lparr>mach := settle (mach s)\<rparr>)"
      using 3 c(3) m ma consputc_backspace [OF pt] by (simp add: consoleintr_def exec_simps)
    then show ?thesis using u 3 by (auto simp: edit_def)
  next
    case 4
    then have "consoleintr c s = Done () (s\<lparr>mach := settle (mach s)\<rparr>)"
      using c(3) m ma by (cases "c = 0") (simp_all add: consoleintr_def exec_simps)
    then show ?thesis using 4 ok sp(4) by (auto simp: edit_def word_less_nat_alt)
  next
    case 5
    then show ?thesis by (rule consoleintr_char [OF ok m p c])
  qed
qed

theorem consoleintr_edits_witness:
  "\<exists>t (u :: ustate). consoleintr 8 (demo_u\<lparr>uart_room := 400, cons_buf := \<lambda>_. 66, cons_r := - 1, cons_w := - 1, cons_e := 0\<rparr>) = Done () t \<and>
     typed t = [] \<and>
     consoleintr 13 (demo_u\<lparr>uart_room := 400, cons_buf := \<lambda>_. 66, cons_r := - 1, cons_w := - 1, cons_e := 0\<rparr>) = Done () u \<and>
     lines u = [66, 10]"
proof -
  let ?d = "demo_u\<lparr>uart_room := 400, cons_buf := \<lambda>_. 66, cons_r := - 1, cons_w := - 1, cons_e := 0\<rparr>"
  have e: "typed ?d = [66]" "lines ?d = []" by (simp_all add: typed_def lines_def ring_contents_def)
  have m: "mach_ok busy_machine" "lk_free Lk_cons busy_machine" "table_free (Some 1) busy_machine"
    by (simp_all add: table_free_def)
  have d: "can_print 384 ?d" "cons_ok ?d" using e by (simp_all add: can_print_def cons_ok_def)
  obtain t where "consoleintr 8 ?d = Done () t" "(lines t, typed t) = edit 8 (lines ?d, typed ?d)"
    using consoleintr_edits [OF d(2) _ _ _ d(1), of 8] m by auto
  moreover obtain u where "consoleintr 13 ?d = Done () u" "(lines u, typed u) = edit 13 (lines ?d, typed ?d)"
    using consoleintr_edits [OF d(2) _ _ _ d(1), of 13] m by auto
  ultimately show ?thesis using e by (auto simp: edit_def)
qed

end
