(* ===== verification/Fs.thy ===== *)
theory Fs
  imports Console
begin

unbundle bit_operations_syntax

text \<open>
  \<^verbatim>\<open>kernel/fs.c\<close>: blocks, inodes, directories and path names. On-disk structures are bytes of blocks, read and
  written at the offsets of \<^verbatim>\<open>fs.h\<close>; unsigned C integers are natural numbers with the wrap-around written out where
  the code depends on it, shorts are integers. Inode pointers are indices into the inode table, a null
  pointer is \<open>None\<close>. A path is the list of its bytes before the terminating NUL.
\<close>

abbreviation (input) ROOTINO :: nat where "ROOTINO \<equiv> 1"
abbreviation (input) FSMAGIC :: nat where "FSMAGIC \<equiv> 0x10203040"
abbreviation (input) NDIRECT :: nat where "NDIRECT \<equiv> 12"
abbreviation (input) NINDIRECT :: nat where "NINDIRECT \<equiv> BSIZE div 4"
abbreviation (input) MAXFILE :: nat where "MAXFILE \<equiv> NDIRECT + NINDIRECT"
abbreviation (input) IPB :: nat where "IPB \<equiv> BSIZE div 64"
abbreviation (input) BPB :: nat where "BPB \<equiv> BSIZE * 8"
abbreviation (input) DIRSIZ :: nat where "DIRSIZ \<equiv> 14"

record superblock =
  sb_magic :: nat
  sb_size :: nat
  sb_nblocks :: nat
  sb_ninodes :: nat
  sb_nlog :: nat
  sb_logstart :: nat
  sb_inodestart :: nat
  sb_bmapstart :: nat

record inode =
  idev :: nat
  inum :: nat
  iref :: int
  ivalid :: bool
  itype :: int
  imajor :: int
  iminor :: int
  inlink :: int
  isize :: nat
  iaddrs :: "nat \<Rightarrow> nat"

record fsstate = ustate +
  sb :: superblock
  itable :: "nat \<Rightarrow> inode"

definition get_inode :: "nat \<Rightarrow> ('x fsstate_scheme, inode) thread" where
  "get_inode i = gets (\<lambda>s. itable s i)"

definition set_inode :: "nat \<Rightarrow> (inode \<Rightarrow> inode) \<Rightarrow> ('x fsstate_scheme, unit) thread" where
  "set_inode i f = modify (\<lambda>s. s\<lparr>itable := (itable s)(i := f (itable s i))\<rparr>)"

lemma get_inode_exec [exec_simps]: "get_inode i s = Done (itable s i) s"
  by (simp add: get_inode_def gets_def)

lemma set_inode_exec [exec_simps]: "set_inode i f s = Done () (s\<lparr>itable := (itable s)(i := f (itable s i))\<rparr>)"
  by (simp add: set_inode_def modify_def)

definition set_data :: "nat \<Rightarrow> (bytes \<Rightarrow> bytes) \<Rightarrow> ('x bstate_scheme, unit) thread" where
  "set_data b f = set_buf b (\<lambda>x. x\<lparr>bdata := f (bdata x)\<rparr>)"

definition add32 :: "nat \<Rightarrow> nat \<Rightarrow> nat" where
  "add32 a b = (a + b) mod 2 ^ 32"

definition IBLOCK :: "nat \<Rightarrow> superblock \<Rightarrow> nat" where
  "IBLOCK i b = add32 (i div IPB) (sb_inodestart b)"

definition BBLOCK :: "nat \<Rightarrow> superblock \<Rightarrow> nat" where
  "BBLOCK n b = add32 (n div BPB) (sb_bmapstart b)"

subsection \<open>The super block and the block allocator\<close>

definition decode_sb :: "bytes \<Rightarrow> superblock" where
  "decode_sb d = \<lparr>sb_magic = rd 4 d 0, sb_size = rd 4 d 4, sb_nblocks = rd 4 d 8, sb_ninodes = rd 4 d 12,
     sb_nlog = rd 4 d 16, sb_logstart = rd 4 d 20, sb_inodestart = rd 4 d 24, sb_bmapstart = rd 4 d 28\<rparr>"

definition readsb :: "nat \<Rightarrow> ('x fsstate_scheme, unit) thread" where
  "readsb dev =
     bind (bread dev 1) (\<lambda>bp.
     bind (get_buf bp) (\<lambda>x.
     seq (modify (\<lambda>s. s\<lparr>sb := decode_sb (bdata x)\<rparr>))
         (brelse bp)))"

definition fsinit :: "nat \<Rightarrow> ('x fsstate_scheme, unit) thread" where
  "fsinit dev =
     seq (readsb dev) (
     bind (gets sb) (\<lambda>b.
     if sb_magic b \<noteq> FSMAGIC then panic ''invalid file system''
     else initlog dev (sb_logstart b) (sb_nlog b)))"

definition bzero :: "nat \<Rightarrow> nat \<Rightarrow> ('x fsstate_scheme, unit) thread" where
  "bzero dev bno =
     bind (bread dev bno) (\<lambda>bp.
     seq (set_data bp (fill BSIZE 0 0)) (
     seq (log_write bp)
         (brelse bp)))"

text \<open>The bit of block \<open>bi\<close> in a block of the free map.\<close>

definition bit_set :: "bytes \<Rightarrow> nat \<Rightarrow> bool" where
  "bit_set d bi = (d (bi div 8) AND push_bit (bi mod 8) 1 \<noteq> 0)"

definition mark_bit :: "nat \<Rightarrow> bytes \<Rightarrow> bytes" where
  "mark_bit bi d = d(bi div 8 := d (bi div 8) OR push_bit (bi mod 8) 1)"

definition clear_bit :: "nat \<Rightarrow> bytes \<Rightarrow> bytes" where
  "clear_bit bi d = d(bi div 8 := d (bi div 8) AND NOT (push_bit (bi mod 8) 1))"

definition balloc_one :: "nat \<Rightarrow> nat \<Rightarrow> ('x fsstate_scheme, nat option) thread" where
  "balloc_one dev b =
     bind (gets sb) (\<lambda>sup.
     bind (bread dev (BBLOCK b sup)) (\<lambda>bp.
     bind (get_buf bp) (\<lambda>x.
     case find (\<lambda>bi. \<not> bit_set (bdata x) bi) [0..<min BPB (sb_size sup - b)] of
       Some bi \<Rightarrow>
         seq (set_data bp (mark_bit bi)) (
         seq (log_write bp) (
         seq (brelse bp) (
         seq (bzero dev (b + bi))
             (ret (Some (b + bi))))))
     | None \<Rightarrow> seq (brelse bp) (ret None))))"

definition balloc :: "nat \<Rightarrow> ('x fsstate_scheme, nat) thread" where
  "balloc dev =
     bind (gets sb) (\<lambda>sup.
     bind (scan (map (\<lambda>k. k * BPB) [0..<(sb_size sup + BPB - 1) div BPB]) (balloc_one dev)) (\<lambda>r. case r of
       Some b \<Rightarrow> ret b
     | None \<Rightarrow> bind (printf (''balloc: out of blocks'' @ newline) []) (\<lambda>_. ret 0)))"

definition bfree :: "nat \<Rightarrow> nat \<Rightarrow> ('x fsstate_scheme, unit) thread" where
  "bfree dev b =
     bind (gets sb) (\<lambda>sup.
     bind (bread dev (BBLOCK b sup)) (\<lambda>bp.
     bind (get_buf bp) (\<lambda>x.
     if \<not> bit_set (bdata x) (b mod BPB) then panic ''freeing free block'' else
     seq (set_data bp (clear_bit (b mod BPB))) (
     seq (log_write bp)
         (brelse bp)))))"

subsection \<open>Inodes\<close>

definition iinit :: "('x fsstate_scheme, unit) thread" where
  "iinit =
     seq (initlock Lk_itable ''itable'')
         (for_each [0..<NINODE] (\<lambda>i. initsleeplock (SL_inode i)))"

text \<open>The offset of inode \<open>i\<close> in its block, and its fields there.\<close>

definition dip :: "nat \<Rightarrow> nat" where
  "dip i = (i mod IPB) * 64"

definition read_dinode :: "bytes \<Rightarrow> nat \<Rightarrow> inode \<Rightarrow> inode" where
  "read_dinode d at ip = ip\<lparr>itype := s16 (rd 2 d at), imajor := s16 (rd 2 d (at + 2)), iminor := s16 (rd 2 d (at + 4)),
     inlink := s16 (rd 2 d (at + 6)), isize := rd 4 d (at + 8),
     iaddrs := (\<lambda>k. if k \<le> NDIRECT then rd 4 d (at + 12 + 4 * k) else iaddrs ip k)\<rparr>"

definition write_dinode :: "inode \<Rightarrow> nat \<Rightarrow> bytes \<Rightarrow> bytes" where
  "write_dinode ip at d =
     fold (\<lambda>k. wr 4 (iaddrs ip k) (at + 12 + 4 * k)) [0..<NDIRECT + 1]
      (wr 4 (isize ip) (at + 8) (wr 2 (bits16 (inlink ip)) (at + 6) (wr 2 (bits16 (iminor ip)) (at + 4)
        (wr 2 (bits16 (imajor ip)) (at + 2) (wr 2 (bits16 (itype ip)) at d)))))"

definition iget :: "nat \<Rightarrow> nat \<Rightarrow> ('x fsstate_scheme, nat) thread" where
  "iget dev i =
     seq (acquire Lk_itable) (
     bind (gets itable) (\<lambda>tab.
     case find (\<lambda>k. iref (tab k) > 0 \<and> idev (tab k) = dev \<and> inum (tab k) = i) [0..<NINODE] of
       Some k \<Rightarrow>
         seq (set_inode k (\<lambda>ip. ip\<lparr>iref := iref ip + 1\<rparr>)) (
         seq (release Lk_itable)
             (ret k))
     | None \<Rightarrow>
         (case find (\<lambda>k. iref (tab k) = 0) [0..<NINODE] of
            None \<Rightarrow> panic ''iget: no inodes''
          | Some k \<Rightarrow>
              seq (set_inode k (\<lambda>ip. ip\<lparr>idev := dev, inum := i, iref := 1, ivalid := False\<rparr>)) (
              seq (release Lk_itable)
                  (ret k)))))"

definition ialloc_one :: "nat \<Rightarrow> int \<Rightarrow> nat \<Rightarrow> ('x fsstate_scheme, nat option) thread" where
  "ialloc_one dev type i =
     bind (gets sb) (\<lambda>sup.
     bind (bread dev (IBLOCK i sup)) (\<lambda>bp.
     bind (get_buf bp) (\<lambda>x.
     if s16 (rd 2 (bdata x) (dip i)) = 0 then
       seq (set_data bp (fill 64 0 (dip i))) (
       seq (set_data bp (wr 2 (bits16 type) (dip i))) (
       seq (log_write bp) (
       seq (brelse bp)
           (bind (iget dev i) (\<lambda>k. ret (Some k))))))
     else seq (brelse bp) (ret None))))"

definition ialloc :: "nat \<Rightarrow> int \<Rightarrow> ('x fsstate_scheme, nat option) thread" where
  "ialloc dev type =
     bind (gets sb) (\<lambda>sup.
     bind (scan [1..<sb_ninodes sup] (ialloc_one dev type)) (\<lambda>r. case r of
       Some k \<Rightarrow> ret (Some k)
     | None \<Rightarrow> bind (printf (''ialloc: no inodes'' @ newline) []) (\<lambda>_. ret None)))"

definition iupdate :: "nat \<Rightarrow> ('x fsstate_scheme, unit) thread" where
  "iupdate k =
     bind (get_inode k) (\<lambda>ip.
     bind (gets sb) (\<lambda>sup.
     bind (bread (idev ip) (IBLOCK (inum ip) sup)) (\<lambda>bp.
     seq (set_data bp (write_dinode ip (dip (inum ip)))) (
     seq (log_write bp)
         (brelse bp)))))"

definition idup :: "nat \<Rightarrow> ('x fsstate_scheme, nat) thread" where
  "idup k =
     seq (acquire Lk_itable) (
     seq (set_inode k (\<lambda>ip. ip\<lparr>iref := iref ip + 1\<rparr>)) (
     seq (release Lk_itable)
         (ret k)))"

definition ilock :: "nat \<Rightarrow> ('x fsstate_scheme, unit) thread" where
  "ilock k =
     bind (get_inode k) (\<lambda>ip.
     if iref ip < 1 then panic ''ilock'' else
     seq (acquiresleep (SL_inode k)) (
     bind (get_inode k) (\<lambda>ip.
     whenM (\<not> ivalid ip) (
       bind (gets sb) (\<lambda>sup.
       bind (bread (idev ip) (IBLOCK (inum ip) sup)) (\<lambda>bp.
       bind (get_buf bp) (\<lambda>x.
       seq (set_inode k (read_dinode (bdata x) (dip (inum ip)))) (
       seq (brelse bp) (
       seq (set_inode k (\<lambda>ip. ip\<lparr>ivalid := True\<rparr>)) (
       bind (get_inode k) (\<lambda>ip.
       whenM (itype ip = 0) (panic ''ilock: no type''))))))))))))"

definition iunlock :: "nat \<Rightarrow> ('x fsstate_scheme, unit) thread" where
  "iunlock k =
     bind (holdingsleep (SL_inode k)) (\<lambda>h.
     bind (get_inode k) (\<lambda>ip.
     if \<not> h \<or> iref ip < 1 then panic ''iunlock''
     else releasesleep (SL_inode k)))"

subsection \<open>Inode content\<close>

definition bmap :: "nat \<Rightarrow> nat \<Rightarrow> ('x fsstate_scheme, nat) thread" where
  "bmap k bn =
     bind (get_inode k) (\<lambda>ip.
     if bn < NDIRECT then
       (if iaddrs ip bn = 0 then
          bind (balloc (idev ip)) (\<lambda>addr.
          if addr = 0 then ret 0
          else seq (set_inode k (\<lambda>ip. ip\<lparr>iaddrs := (iaddrs ip)(bn := addr)\<rparr>)) (ret addr))
        else ret (iaddrs ip bn))
     else if bn - NDIRECT < NINDIRECT then
       bind (if iaddrs ip NDIRECT = 0 then
               bind (balloc (idev ip)) (\<lambda>addr.
               if addr = 0 then ret 0
               else seq (set_inode k (\<lambda>ip. ip\<lparr>iaddrs := (iaddrs ip)(NDIRECT := addr)\<rparr>)) (ret addr))
             else ret (iaddrs ip NDIRECT)) (\<lambda>ind.
       if ind = 0 then ret 0 else
       bind (bread (idev ip) ind) (\<lambda>bp.
       bind (get_buf bp) (\<lambda>x.
       let addr = rd 4 (bdata x) (4 * (bn - NDIRECT)) in
       bind (if addr = 0 then
               bind (balloc (idev ip)) (\<lambda>addr.
               seq (whenM (addr \<noteq> 0) (
                      seq (set_data bp (wr 4 addr (4 * (bn - NDIRECT))))
                          (log_write bp)))
                   (ret addr))
             else ret addr) (\<lambda>addr.
       seq (brelse bp)
           (ret addr)))))
     else panic ''bmap: out of range'')"

definition itrunc :: "nat \<Rightarrow> ('x fsstate_scheme, unit) thread" where
  "itrunc k =
     seq (for_each [0..<NDIRECT] (\<lambda>i.
            bind (get_inode k) (\<lambda>ip.
            whenM (iaddrs ip i \<noteq> 0) (
              seq (bfree (idev ip) (iaddrs ip i))
                  (set_inode k (\<lambda>ip. ip\<lparr>iaddrs := (iaddrs ip)(i := 0)\<rparr>)))))) (
     bind (get_inode k) (\<lambda>ip.
     seq (whenM (iaddrs ip NDIRECT \<noteq> 0) (
            bind (bread (idev ip) (iaddrs ip NDIRECT)) (\<lambda>bp.
            seq (for_each [0..<NINDIRECT] (\<lambda>j.
                   bind (get_buf bp) (\<lambda>x.
                   whenM (rd 4 (bdata x) (4 * j) \<noteq> 0) (bfree (idev ip) (rd 4 (bdata x) (4 * j)))))) (
            seq (brelse bp) (
            seq (bfree (idev ip) (iaddrs ip NDIRECT))
                (set_inode k (\<lambda>ip. ip\<lparr>iaddrs := (iaddrs ip)(NDIRECT := 0)\<rparr>))))))) (
     seq (set_inode k (\<lambda>ip. ip\<lparr>isize := 0\<rparr>))
         (iupdate k))))"

definition iput :: "nat \<Rightarrow> ('x fsstate_scheme, unit) thread" where
  "iput k =
     seq (acquire Lk_itable) (
     bind (get_inode k) (\<lambda>ip.
     seq (whenM (iref ip = 1 \<and> ivalid ip \<and> inlink ip = 0) (
            seq (acquiresleep (SL_inode k)) (
            seq (release Lk_itable) (
            seq (itrunc k) (
            seq (set_inode k (\<lambda>ip. ip\<lparr>itype := 0\<rparr>)) (
            seq (iupdate k) (
            seq (set_inode k (\<lambda>ip. ip\<lparr>ivalid := False\<rparr>)) (
            seq (releasesleep (SL_inode k))
                (acquire Lk_itable))))))))) (
     seq (set_inode k (\<lambda>ip. ip\<lparr>iref := iref ip - 1\<rparr>))
         (release Lk_itable))))"

definition iunlockput :: "nat \<Rightarrow> ('x fsstate_scheme, unit) thread" where
  "iunlockput k = seq (iunlock k) (iput k)"

record stat =
  st_dev :: nat
  st_ino :: nat
  st_type :: int
  st_nlink :: int
  st_size :: nat

definition stati :: "inode \<Rightarrow> stat" where
  "stati ip = \<lparr>st_dev = idev ip, st_ino = inum ip, st_type = itype ip, st_nlink = inlink ip, st_size = isize ip\<rparr>"

definition dst_add :: "copy_dst \<Rightarrow> nat \<Rightarrow> copy_dst" where
  "dst_add d m = (case d of To_user a \<Rightarrow> To_user (a + of_nat m) | To_kernel a \<Rightarrow> To_kernel (a + of_nat m) | To_local q \<Rightarrow> To_local (q + m))"

definition src_add :: "copy_src \<Rightarrow> nat \<Rightarrow> copy_src" where
  "src_add d m = (case d of From_user a \<Rightarrow> From_user (a + of_nat m) | From_kernel a \<Rightarrow> From_kernel (a + of_nat m)
     | From_local b q \<Rightarrow> From_local b (q + m))"

text \<open>The bytes that one round of the loops of \<^verbatim>\<open>readi\<close> and \<^verbatim>\<open>writei\<close> moves.\<close>

definition blk_chunk :: "nat \<Rightarrow> nat \<Rightarrow> nat \<Rightarrow> nat" where
  "blk_chunk n tot off = min (n - tot) (BSIZE - off mod BSIZE)"

lemma blk_chunk_pos: "tot < n \<Longrightarrow> 0 < blk_chunk n tot off"
  by (simp add: blk_chunk_def)

function readi_loop :: "nat \<Rightarrow> copy_dst \<Rightarrow> nat \<Rightarrow> nat \<Rightarrow> nat \<Rightarrow> bytes \<Rightarrow> ('x fsstate_scheme, int \<times> bytes) thread" where
  "readi_loop k dst off n tot local =
     (if tot < n then
        bind (bmap k (off div BSIZE)) (\<lambda>addr.
        if addr = 0 then ret (int tot, local) else
        bind (get_inode k) (\<lambda>ip.
        bind (bread (idev ip) addr) (\<lambda>bp.
        bind (get_buf bp) (\<lambda>x.
        bind (either_copyout dst (bdata x) (off mod BSIZE) (blk_chunk n tot off) local) (\<lambda>(r, local).
        if r = - 1 then seq (brelse bp) (ret (- 1, local))
        else seq (brelse bp)
                 (readi_loop k (dst_add dst (blk_chunk n tot off)) (off + blk_chunk n tot off) n (tot + blk_chunk n tot off) local))))))
      else ret (int tot, local))"
  by auto
termination
  by (relation "measure (\<lambda>(k, dst, off, n, tot, local). n - tot)") (auto intro!: diff_less_mono2 blk_chunk_pos)

declare readi_loop.simps [simp del]

definition readi :: "nat \<Rightarrow> copy_dst \<Rightarrow> nat \<Rightarrow> nat \<Rightarrow> bytes \<Rightarrow> ('x fsstate_scheme, int \<times> bytes) thread" where
  "readi k dst off n local =
     bind (get_inode k) (\<lambda>ip.
     if off > isize ip \<or> add32 off n < off then ret (0, local)
     else
       let n = (if add32 off n > isize ip then isize ip - off else n) in
       readi_loop k dst off n 0 local)"

function writei_loop :: "nat \<Rightarrow> copy_src \<Rightarrow> nat \<Rightarrow> nat \<Rightarrow> nat \<Rightarrow> ('x fsstate_scheme, nat \<times> nat) thread" where
  "writei_loop k src off n tot =
     (if tot < n then
        bind (bmap k (off div BSIZE)) (\<lambda>addr.
        if addr = 0 then ret (off, tot) else
        bind (get_inode k) (\<lambda>ip.
        bind (bread (idev ip) addr) (\<lambda>bp.
        bind (get_buf bp) (\<lambda>x.
        bind (either_copyin (bdata x) (off mod BSIZE) src (blk_chunk n tot off)) (\<lambda>(r, d).
        seq (set_data bp (\<lambda>_. d)) (
        if r = - 1 then seq (brelse bp) (ret (off, tot))
        else seq (log_write bp) (
             seq (brelse bp)
                 (writei_loop k (src_add src (blk_chunk n tot off)) (off + blk_chunk n tot off) n (tot + blk_chunk n tot off)))))))))
      else ret (off, tot))"
  by auto
termination
  by (relation "measure (\<lambda>(k, src, off, n, tot). n - tot)") (auto intro!: diff_less_mono2 blk_chunk_pos)

declare writei_loop.simps [simp del]

definition writei :: "nat \<Rightarrow> copy_src \<Rightarrow> nat \<Rightarrow> nat \<Rightarrow> ('x fsstate_scheme, int) thread" where
  "writei k src off n =
     bind (get_inode k) (\<lambda>ip.
     if off > isize ip \<or> add32 off n < off then ret (- 1)
     else if add32 off n > MAXFILE * BSIZE then ret (- 1)
     else
       bind (writei_loop k src off n 0) (\<lambda>(off, tot).
       bind (get_inode k) (\<lambda>ip.
       seq (whenM (off > isize ip) (set_inode k (\<lambda>ip. ip\<lparr>isize := off\<rparr>))) (
       seq (iupdate k)
           (ret (int tot))))))"

subsection \<open>Directories\<close>

text \<open>A directory entry is the inode number followed by the name, 16 bytes in all.\<close>

definition namecmp :: "bytes \<Rightarrow> nat \<Rightarrow> bytes \<Rightarrow> nat \<Rightarrow> int" where
  "namecmp s i t j = strncmp s i t j DIRSIZ"

definition dir_offsets :: "nat \<Rightarrow> nat list" where
  "dir_offsets n = map (\<lambda>i. 16 * i) [0..<(n + 15) div 16]"

definition dirlookup :: "nat \<Rightarrow> bytes \<Rightarrow> ('x fsstate_scheme, (nat \<times> nat) option) thread" where
  "dirlookup dp name =
     bind (get_inode dp) (\<lambda>d.
     if itype d \<noteq> T_DIR then panic ''dirlookup not DIR'' else
     scan (dir_offsets (isize d)) (\<lambda>off.
       bind (readi dp (To_local 0) off 16 (\<lambda>_. 0)) (\<lambda>(r, de).
       if r \<noteq> 16 then panic ''dirlookup read''
       else if rd 2 de 0 = 0 then ret None
       else if namecmp name 0 de 2 = 0 then
         bind (iget (idev d) (rd 2 de 0)) (\<lambda>k. ret (Some (k, off)))
       else ret None)))"

definition dirlink :: "nat \<Rightarrow> bytes \<Rightarrow> nat \<Rightarrow> ('x fsstate_scheme, int) thread" where
  "dirlink dp name i =
     bind (dirlookup dp name) (\<lambda>r. case r of
       Some (k, _) \<Rightarrow> seq (iput k) (ret (- 1))
     | None \<Rightarrow>
         bind (get_inode dp) (\<lambda>d.
         bind (scan (dir_offsets (isize d)) (\<lambda>off.
                 bind (readi dp (To_local 0) off 16 (\<lambda>_. 0)) (\<lambda>(r, de).
                 if r \<noteq> 16 then panic ''dirlink read''
                 else if rd 2 de 0 = 0 then ret (Some (off, de))
                 else ret None))) (\<lambda>r.
         let (off, de) = (case r of Some q \<Rightarrow> q | None \<Rightarrow> (16 * ((isize d + 15) div 16), \<lambda>_. 0)) in
         bind (writei dp (From_local (wr 2 (i mod 2 ^ 16) 0 (strncpy de 2 name 0 DIRSIZ)) 0) off 16) (\<lambda>w.
         ret (if w \<noteq> 16 then - 1 else 0)))))"

subsection \<open>Path names\<close>

definition list_bytes :: "u8 list \<Rightarrow> bytes" where
  "list_bytes cs = (\<lambda>i. if i < length cs then cs ! i else 0)"

definition skipelem :: "u8 list \<Rightarrow> bytes \<Rightarrow> (u8 list \<times> bytes) option" where
  "skipelem path name =
     (let p = dropWhile (\<lambda>c. c = 47) path in
      if p = [] then None
      else
        let e = takeWhile (\<lambda>c. c \<noteq> 47) p; r = dropWhile (\<lambda>c. c \<noteq> 47) p; len = length e in
        Some (dropWhile (\<lambda>c. c = 47) r,
              if len \<ge> DIRSIZ then blit DIRSIZ (list_bytes e) 0 0 name
              else (blit len (list_bytes e) 0 0 name)(len := 0)))"

lemma skipelem_shrinks: "skipelem path name = Some (rest, name') \<Longrightarrow> length rest < length path"
proof -
  assume a: "skipelem path name = Some (rest, name')"
  let ?p = "dropWhile (\<lambda>c. c = 47) path"
  have ne: "?p \<noteq> []" and r: "rest = dropWhile (\<lambda>c. c = 47) (dropWhile (\<lambda>c. c \<noteq> 47) ?p)"
    using a by (auto simp: skipelem_def Let_def split: if_splits)
  obtain c cs where p: "?p = c # cs" using ne by (cases ?p) auto
  have "c \<noteq> 47" using hd_dropWhile [OF ne] p by simp
  then have "length (dropWhile (\<lambda>c. c \<noteq> 47) ?p) \<le> length cs" using p by (simp add: length_dropWhile_le)
  moreover have "length cs < length path" using p length_dropWhile_le [of "\<lambda>c. c = 47" path] by simp
  moreover have "length rest \<le> length (dropWhile (\<lambda>c. c \<noteq> 47) ?p)" unfolding r by (rule length_dropWhile_le)
  ultimately show ?thesis by linarith
qed

function namex_loop :: "nat \<Rightarrow> u8 list \<Rightarrow> bool \<Rightarrow> bytes \<Rightarrow> ('x fsstate_scheme, nat option \<times> bytes) thread" where
  "namex_loop k path npar name =
     (case skipelem path name of
       None \<Rightarrow> if npar then seq (iput k) (ret (None, name)) else ret (Some k, name)
     | Some (rest, name') \<Rightarrow>
         seq (ilock k) (
         bind (get_inode k) (\<lambda>ip.
         if itype ip \<noteq> T_DIR then seq (iunlockput k) (ret (None, name'))
         else if npar \<and> rest = [] then seq (iunlock k) (ret (Some k, name'))
         else
           bind (dirlookup k name') (\<lambda>r. case r of
             None \<Rightarrow> seq (iunlockput k) (ret (None, name'))
           | Some (nxt, _) \<Rightarrow> seq (iunlockput k) (namex_loop nxt rest npar name')))))"
  by auto
termination
  by (relation "measure (\<lambda>(k, path, npar, name). length path)") (auto dest: skipelem_shrinks)

declare namex_loop.simps [simp del]

definition namex :: "u8 list \<Rightarrow> bool \<Rightarrow> bytes \<Rightarrow> ('x fsstate_scheme, nat option \<times> bytes) thread" where
  "namex path npar name =
     bind (if path \<noteq> [] \<and> hd path = 47 then iget ROOTDEV ROOTINO
           else
             bind myproc_ref (\<lambda>p.
             bind (get_proc p) (\<lambda>q. case cwd q of
               None \<Rightarrow> undefined_behaviour
             | Some k \<Rightarrow> idup k))) (\<lambda>k.
     namex_loop k path npar name)"

definition namei :: "u8 list \<Rightarrow> ('x fsstate_scheme, nat option) thread" where
  "namei path = bind (namex path False (\<lambda>_. 0)) (\<lambda>(r, _). ret r)"

definition nameiparent :: "u8 list \<Rightarrow> bytes \<Rightarrow> ('x fsstate_scheme, nat option \<times> bytes) thread" where
  "nameiparent path name = namex path True name"

end
