(* ===== verification/Pipe.thy ===== *)
theory Pipe
  imports Fs
begin

text \<open>
  \<^verbatim>\<open>kernel/pipe.c\<close> and \<^verbatim>\<open>kernel/file.c\<close>: pipes, the file table and the operations on open files. A pipe is the
  structure that the code keeps in a page of its own, under the address of that page; the page itself
  comes from and goes back to the page allocator. A caller that waits in a pipe is continued in the
  definitions with suffix \<open>_resume\<close>.
\<close>

abbreviation (input) PIPESIZE :: u32 where "PIPESIZE \<equiv> 512"

record pipe =
  pdata :: "nat \<Rightarrow> u8"
  nread :: u32
  nwrite :: u32
  readopen :: bool
  writeopen :: bool

datatype fdtype = FD_NONE | FD_PIPE | FD_INODE | FD_DEVICE

record kfile =
  ftype :: fdtype
  fref :: int
  readable :: bool
  writable :: bool
  fpipe :: u64
  fip :: nat
  foff :: nat
  fmajor :: int

record ftstate = fsstate +
  pipes :: "u64 \<Rightarrow> pipe"
  ftable :: "nat \<Rightarrow> kfile"

definition get_pipe :: "u64 \<Rightarrow> ('x ftstate_scheme, pipe) thread" where
  "get_pipe pi = gets (\<lambda>s. pipes s pi)"

definition set_pipe :: "u64 \<Rightarrow> (pipe \<Rightarrow> pipe) \<Rightarrow> ('x ftstate_scheme, unit) thread" where
  "set_pipe pi f = modify (\<lambda>s. s\<lparr>pipes := (pipes s)(pi := f (pipes s pi))\<rparr>)"

definition get_file :: "nat \<Rightarrow> ('x ftstate_scheme, kfile) thread" where
  "get_file f = gets (\<lambda>s. ftable s f)"

definition set_file :: "nat \<Rightarrow> (kfile \<Rightarrow> kfile) \<Rightarrow> ('x ftstate_scheme, unit) thread" where
  "set_file f g = modify (\<lambda>s. s\<lparr>ftable := (ftable s)(f := g (ftable s f))\<rparr>)"

lemma pipe_file_exec [exec_simps]:
  "get_pipe pi s = Done (pipes s pi) s" "set_pipe pi f s = Done () (s\<lparr>pipes := (pipes s)(pi := f (pipes s pi))\<rparr>)"
  "get_file i s = Done (ftable s i) s" "set_file i g s = Done () (s\<lparr>ftable := (ftable s)(i := g (ftable s i))\<rparr>)"
  by (simp_all add: get_pipe_def set_pipe_def get_file_def set_file_def gets_def modify_def)

subsection \<open>Pipes\<close>

definition pipeclose :: "u64 \<Rightarrow> bool \<Rightarrow> ('x ftstate_scheme, unit) thread" where
  "pipeclose pi wrt =
     seq (acquire (Lk_pipe pi)) (
     seq (if wrt then
            seq (set_pipe pi (\<lambda>x. x\<lparr>writeopen := False\<rparr>)) (wakeup (Ch_nread pi))
          else
            seq (set_pipe pi (\<lambda>x. x\<lparr>readopen := False\<rparr>)) (wakeup (Ch_nwrite pi))) (
     bind (get_pipe pi) (\<lambda>x.
     if \<not> readopen x \<and> \<not> writeopen x then
       seq (release (Lk_pipe pi)) (kfree pi)
     else release (Lk_pipe pi))))"

definition pipewrite_done :: "u64 \<Rightarrow> nat \<Rightarrow> ('x ftstate_scheme, int) thread" where
  "pipewrite_done pi i = seq (wakeup (Ch_nread pi)) (seq (release (Lk_pipe pi)) (ret (int i)))"

text \<open>The loop of \<^verbatim>\<open>pipewrite\<close> of process \<open>p\<close> after \<open>i\<close> bytes, with \<open>k\<close> bytes left and the lock held.\<close>

primrec pipewrite_loop :: "nat \<Rightarrow> nat \<Rightarrow> u64 \<Rightarrow> u64 \<Rightarrow> nat \<Rightarrow> ('x ftstate_scheme, int) thread" where
  "pipewrite_loop 0 p pi addr i = pipewrite_done pi i"
| "pipewrite_loop (Suc k) p pi addr i =
     bind (get_pipe pi) (\<lambda>x.
     bind (if \<not> readopen x then ret True else bind (killed p) (\<lambda>d. ret (d \<noteq> 0))) (\<lambda>quit.
     if quit then seq (release (Lk_pipe pi)) (ret (- 1))
     else if nwrite x = nread x + PIPESIZE then
       seq (wakeup (Ch_nread pi)) (seq (sleep (Ch_nwrite pi) (Lk_pipe pi)) (ret 0))
     else
       bind (get_proc p) (\<lambda>q.
       bind (copyin (pagetable q) (\<lambda>_. 0) 0 (addr + of_nat i) 1) (\<lambda>(r, ch).
       if r = - 1 then pipewrite_done pi i
       else
         seq (set_pipe pi (\<lambda>x. x\<lparr>pdata := (pdata x)(ring_slot PIPESIZE (nwrite x) := ch 0), nwrite := nwrite x + 1\<rparr>))
             (pipewrite_loop k p pi addr (i + 1))))))"

definition pipewrite :: "u64 \<Rightarrow> u64 \<Rightarrow> int \<Rightarrow> ('x ftstate_scheme, int) thread" where
  "pipewrite pi addr n =
     bind myproc_ref (\<lambda>p.
     seq (acquire (Lk_pipe pi))
         (pipewrite_loop (nat n) p pi addr 0))"

definition pipewrite_resume :: "nat \<Rightarrow> nat \<Rightarrow> u64 \<Rightarrow> u64 \<Rightarrow> nat \<Rightarrow> ('x ftstate_scheme, int) thread" where
  "pipewrite_resume k p pi addr i =
     seq (sleep_resume p (Lk_pipe pi)) (pipewrite_loop (Suc k) p pi addr i)"

definition piperead_done :: "u64 \<Rightarrow> nat \<Rightarrow> ('x ftstate_scheme, int) thread" where
  "piperead_done pi i = seq (wakeup (Ch_nwrite pi)) (seq (release (Lk_pipe pi)) (ret (int i)))"

text \<open>The copy loop of \<^verbatim>\<open>piperead\<close>.\<close>

primrec piperead_copy :: "nat \<Rightarrow> nat \<Rightarrow> u64 \<Rightarrow> u64 \<Rightarrow> nat \<Rightarrow> ('x ftstate_scheme, int) thread" where
  "piperead_copy 0 p pi addr i = piperead_done pi i"
| "piperead_copy (Suc k) p pi addr i =
     bind (get_pipe pi) (\<lambda>x.
     if nread x = nwrite x then piperead_done pi i
     else
       let ch = pdata x (ring_slot PIPESIZE (nread x)) in
       seq (set_pipe pi (\<lambda>x. x\<lparr>nread := nread x + 1\<rparr>)) (
       bind (get_proc p) (\<lambda>q.
       bind (copyout (pagetable q) (addr + of_nat i) (\<lambda>_. ch) 0 1) (\<lambda>r.
       if r = - 1 then piperead_done pi i
       else piperead_copy k p pi addr (i + 1)))))"

text \<open>\<^verbatim>\<open>piperead\<close> from the test for an empty pipe on, with the lock held.\<close>

definition piperead_loop :: "nat \<Rightarrow> nat \<Rightarrow> u64 \<Rightarrow> u64 \<Rightarrow> ('x ftstate_scheme, int) thread" where
  "piperead_loop n p pi addr =
     bind (get_pipe pi) (\<lambda>x.
     if nread x = nwrite x \<and> writeopen x then
       bind (killed p) (\<lambda>d.
       if d \<noteq> 0 then seq (release (Lk_pipe pi)) (ret (- 1))
       else seq (sleep (Ch_nread pi) (Lk_pipe pi)) (ret 0))
     else piperead_copy n p pi addr 0)"

definition piperead :: "u64 \<Rightarrow> u64 \<Rightarrow> int \<Rightarrow> ('x ftstate_scheme, int) thread" where
  "piperead pi addr n =
     bind myproc_ref (\<lambda>p.
     seq (acquire (Lk_pipe pi))
         (piperead_loop (nat n) p pi addr))"

definition piperead_resume :: "nat \<Rightarrow> nat \<Rightarrow> u64 \<Rightarrow> u64 \<Rightarrow> ('x ftstate_scheme, int) thread" where
  "piperead_resume n p pi addr =
     seq (sleep_resume p (Lk_pipe pi)) (piperead_loop n p pi addr)"

subsection \<open>The file table\<close>

definition fileinit :: "('x ftstate_scheme, unit) thread" where
  "fileinit = initlock Lk_ftable ''ftable''"

definition filealloc :: "('x ftstate_scheme, nat option) thread" where
  "filealloc =
     seq (acquire Lk_ftable) (
     bind (gets ftable) (\<lambda>tab.
     case find (\<lambda>f. fref (tab f) = 0) [0..<NFILE] of
       Some f \<Rightarrow>
         seq (set_file f (\<lambda>x. x\<lparr>fref := 1\<rparr>)) (
         seq (release Lk_ftable)
             (ret (Some f)))
     | None \<Rightarrow>
         seq (release Lk_ftable)
             (ret None)))"

definition filedup :: "nat \<Rightarrow> ('x ftstate_scheme, nat) thread" where
  "filedup f =
     seq (acquire Lk_ftable) (
     bind (get_file f) (\<lambda>x.
     if fref x < 1 then panic ''filedup'' else
     seq (set_file f (\<lambda>x. x\<lparr>fref := fref x + 1\<rparr>)) (
     seq (release Lk_ftable)
         (ret f))))"

definition fileclose :: "nat \<Rightarrow> ('x ftstate_scheme, unit) thread" where
  "fileclose f =
     seq (acquire Lk_ftable) (
     bind (get_file f) (\<lambda>x.
     if fref x < 1 then panic ''fileclose'' else
     seq (set_file f (\<lambda>x. x\<lparr>fref := fref x - 1\<rparr>)) (
     bind (get_file f) (\<lambda>ff.
     if fref ff > 0 then release Lk_ftable
     else
       seq (set_file f (\<lambda>x. x\<lparr>fref := 0, ftype := FD_NONE\<rparr>)) (
       seq (release Lk_ftable) (
       if ftype ff = FD_PIPE then pipeclose (fpipe ff) (writable ff)
       else whenM (ftype ff = FD_INODE \<or> ftype ff = FD_DEVICE) (
         seq begin_op (
         seq (iput (fip ff))
             end_op))))))))"

text \<open>The bytes of a \<^verbatim>\<open>struct stat\<close>. The four bytes of padding before \<^verbatim>\<open>size\<close>, which C leaves unset, are 0.\<close>

definition encode_stat :: "stat \<Rightarrow> bytes" where
  "encode_stat st = wr 8 (st_size st) 16 (wr 2 (bits16 (st_nlink st)) 10 (wr 2 (bits16 (st_type st)) 8
     (wr 4 (st_ino st) 4 (wr 4 (st_dev st) 0 (\<lambda>_. 0)))))"

definition filestat :: "nat \<Rightarrow> u64 \<Rightarrow> ('x ftstate_scheme, int) thread" where
  "filestat f addr =
     bind myproc_ref (\<lambda>p.
     bind (get_file f) (\<lambda>x.
     if ftype x = FD_INODE \<or> ftype x = FD_DEVICE then
       seq (ilock (fip x)) (
       bind (get_inode (fip x)) (\<lambda>ip.
       seq (iunlock (fip x)) (
       bind (get_proc p) (\<lambda>q.
       bind (copyout (pagetable q) addr (encode_stat (stati ip)) 0 24) (\<lambda>r.
       ret (if r < 0 then - 1 else 0))))))
     else ret (- 1)))"

definition dev_read :: "devfn \<Rightarrow> u64 \<Rightarrow> int \<Rightarrow> ('x ftstate_scheme, int) thread" where
  "dev_read d addr n = (case d of Consoleread \<Rightarrow> consoleread True addr n | Consolewrite \<Rightarrow> consolewrite True addr n)"

definition fileread :: "nat \<Rightarrow> u64 \<Rightarrow> int \<Rightarrow> ('x ftstate_scheme, int) thread" where
  "fileread f addr n =
     bind (get_file f) (\<lambda>x.
     if \<not> readable x then ret (- 1)
     else case ftype x of
       FD_PIPE \<Rightarrow> piperead (fpipe x) addr n
     | FD_DEVICE \<Rightarrow>
         bind (gets (\<lambda>s. devsw_read s (nat (fmajor x)))) (\<lambda>d.
         if fmajor x < 0 \<or> fmajor x \<ge> int NDEV then ret (- 1)
         else case d of None \<Rightarrow> ret (- 1) | Some h \<Rightarrow> dev_read h addr n)
     | FD_INODE \<Rightarrow>
         seq (ilock (fip x)) (
         bind (readi (fip x) (To_user addr) (foff x) (bits32 n) (\<lambda>_. 0)) (\<lambda>(r, _).
         seq (whenM (r > 0) (set_file f (\<lambda>x. x\<lparr>foff := add32 (foff x) (nat r)\<rparr>))) (
         seq (iunlock (fip x))
             (ret r))))
     | FD_NONE \<Rightarrow> panic ''fileread'')"

text \<open>The loop of \<^verbatim>\<open>filewrite\<close> on an inode: a transaction for every few blocks.\<close>

abbreviation (input) max_write :: nat where "max_write \<equiv> ((MAXOPBLOCKS - 1 - 1 - 2) div 2) * BSIZE"

function filewrite_loop :: "nat \<Rightarrow> u64 \<Rightarrow> nat \<Rightarrow> nat \<Rightarrow> ('x ftstate_scheme, int) thread" where
  "filewrite_loop f addr n i =
     (if i < n then
        let n1 = min (n - i) max_write in
        seq begin_op (
        bind (get_file f) (\<lambda>x.
        seq (ilock (fip x)) (
        bind (writei (fip x) (From_user (addr + of_nat i)) (foff x) n1) (\<lambda>r.
        seq (whenM (r > 0) (set_file f (\<lambda>x. x\<lparr>foff := add32 (foff x) (nat r)\<rparr>))) (
        seq (iunlock (fip x)) (
        seq end_op (
        if r \<noteq> int n1 then ret (- 1)
        else filewrite_loop f addr n (i + n1))))))))
      else ret (int n))"
  by auto
termination
  by (relation "measure (\<lambda>(f, addr, n, i). n - i)") auto

declare filewrite_loop.simps [simp del]

definition filewrite :: "nat \<Rightarrow> u64 \<Rightarrow> int \<Rightarrow> ('x ftstate_scheme, int) thread" where
  "filewrite f addr n =
     bind (get_file f) (\<lambda>x.
     if \<not> writable x then ret (- 1)
     else case ftype x of
       FD_PIPE \<Rightarrow> pipewrite (fpipe x) addr n
     | FD_DEVICE \<Rightarrow>
         bind (gets (\<lambda>s. devsw_write s (nat (fmajor x)))) (\<lambda>d.
         if fmajor x < 0 \<or> fmajor x \<ge> int NDEV then ret (- 1)
         else case d of None \<Rightarrow> ret (- 1) | Some h \<Rightarrow> dev_read h addr n)
     | FD_INODE \<Rightarrow> if n < 0 then ret (- 1) else filewrite_loop f addr (nat n) 0
     | FD_NONE \<Rightarrow> panic ''filewrite'')"

definition pipealloc :: "('x ftstate_scheme, (nat \<times> nat) option) thread" where
  "pipealloc =
     bind filealloc (\<lambda>f0. case f0 of
       None \<Rightarrow> ret None
     | Some f0 \<Rightarrow>
         bind filealloc (\<lambda>f1. case f1 of
           None \<Rightarrow> seq (fileclose f0) (ret None)
         | Some f1 \<Rightarrow>
             bind kalloc (\<lambda>pi.
             if pi = 0 then seq (fileclose f0) (seq (fileclose f1) (ret None))
             else
               seq (set_pipe pi (\<lambda>x. x\<lparr>readopen := True, writeopen := True, nwrite := 0, nread := 0\<rparr>)) (
               seq (initlock (Lk_pipe pi) ''pipe'') (
               seq (set_file f0 (\<lambda>x. x\<lparr>ftype := FD_PIPE, readable := True, writable := False, fpipe := pi\<rparr>)) (
               seq (set_file f1 (\<lambda>x. x\<lparr>ftype := FD_PIPE, readable := False, writable := True, fpipe := pi\<rparr>))
                   (ret (Some (f0, f1)))))))))"

subsection \<open>A running kernel\<close>

text \<open>The state of a kernel at rest with process 1 running, no open files and no inode in use.\<close>

definition demo_fs :: fsstate where
  "demo_fs = ustate.extend demo_u (fsstate.fields
     \<lparr>sb_magic = 0x10203040, sb_size = 2000, sb_nblocks = 1954, sb_ninodes = 200, sb_nlog = 30, sb_logstart = 2, sb_inodestart = 32, sb_bmapstart = 45\<rparr>
     (\<lambda>_. \<lparr>idev = 0, inum = 0, iref = 0, ivalid = False, itype = 0, imajor = 0, iminor = 0, inlink = 0, isize = 0, iaddrs = (\<lambda>_. 0)\<rparr>))"

definition demo_ft :: ftstate where
  "demo_ft = fsstate.extend demo_fs (ftstate.fields
     (\<lambda>_. \<lparr>pdata = (\<lambda>_. 0), nread = 0, nwrite = 0, readopen = False, writeopen = False\<rparr>)
     (\<lambda>_. \<lparr>ftype = FD_NONE, fref = 0, readable = False, writable = False, fpipe = 0, fip = 0, foff = 0, fmajor = 0\<rparr>))"

end
