(* ===== verification/Exec.thy ===== *)
theory Exec
  imports Pipe
begin

unbundle bit_operations_syntax

text \<open>
  The life of a process: \<^verbatim>\<open>userinit\<close>, \<^verbatim>\<open>fork\<close> and \<^verbatim>\<open>exit\<close> of \<^verbatim>\<open>kernel/proc.c\<close>, and \<^verbatim>\<open>kernel/exec.c\<close>. The trap frame is a page of
  physical memory, accessed at the offsets of \<^verbatim>\<open>struct trapframe\<close>. The gotos of \<^verbatim>\<open>exec\<close> to its label \<^verbatim>\<open>bad\<close> are
  results of its parts that say so.
\<close>

definition tf_epc :: u64 where "tf_epc = 24"
definition tf_sp :: u64 where "tf_sp = 48"
definition tf_a0 :: u64 where "tf_a0 = 112"
definition tf_a1 :: u64 where "tf_a1 = 120"
definition tf_a7 :: u64 where "tf_a7 = 168"

definition set_tf :: "nat \<Rightarrow> u64 \<Rightarrow> u64 \<Rightarrow> ('x pkstate_scheme, unit) thread" where
  "set_tf p field v = bind (get_proc p) (\<lambda>q. set_mem (store64 (trapframe q + field) v))"

definition get_tf :: "nat \<Rightarrow> u64 \<Rightarrow> ('x pkstate_scheme, u64) thread" where
  "get_tf p field = bind (get_proc p) (\<lambda>q. gets (\<lambda>s. load64 (mem s) (trapframe q + field)))"

subsection \<open>The first process, fork and exit\<close>

definition initcode :: "u8 list" where
  "initcode = [
    0x17, 0x05, 0x00, 0x00, 0x13, 0x05, 0x45, 0x02,
    0x97, 0x05, 0x00, 0x00, 0x93, 0x85, 0x35, 0x02,
    0x93, 0x08, 0x70, 0x00, 0x73, 0x00, 0x00, 0x00,
    0x93, 0x08, 0x20, 0x00, 0x73, 0x00, 0x00, 0x00,
    0xef, 0xf0, 0x9f, 0xff, 0x2f, 0x69, 0x6e, 0x69,
    0x74, 0x00, 0x00, 0x24, 0x00, 0x00, 0x00, 0x00,
    0x00, 0x00, 0x00, 0x00]"

definition str_bytes :: "string \<Rightarrow> bytes" where
  "str_bytes cs = list_bytes (map of_char cs)"

definition userinit :: "('x ftstate_scheme, unit) thread" where
  "userinit =
     bind allocproc (\<lambda>r. case r of
       None \<Rightarrow> undefined_behaviour
     | Some p \<Rightarrow>
         seq (modify (\<lambda>s. s\<lparr>initproc := Some p\<rparr>)) (
         bind (get_proc p) (\<lambda>q.
         seq (uvmfirst (pagetable q) (list_bytes initcode) (length initcode)) (
         seq (set_proc p (\<lambda>q. q\<lparr>sz := PGSIZE\<rparr>)) (
         seq (set_tf p tf_epc 0) (
         seq (set_tf p tf_sp PGSIZE) (
         seq (set_proc p (\<lambda>q. q\<lparr>pname := safestrcpy (pname q) 0 (str_bytes ''initcode'') 0 16\<rparr>)) (
         bind (namei [47]) (\<lambda>d.
         seq (set_proc p (\<lambda>q. q\<lparr>cwd := d\<rparr>)) (
         seq (set_proc p (\<lambda>q. q\<lparr>pstate := RUNNABLE\<rparr>))
             (release (Lk_proc p))))))))))))"

definition fork :: "('x ftstate_scheme, int) thread" where
  "fork =
     bind myproc_ref (\<lambda>p.
     bind allocproc (\<lambda>r. case r of
       None \<Rightarrow> ret (- 1)
     | Some np \<Rightarrow>
         bind (get_proc p) (\<lambda>q.
         bind (get_proc np) (\<lambda>nq.
         bind (uvmcopy (pagetable q) (pagetable nq) (sz q)) (\<lambda>r.
         if r < 0 then
           seq (freeproc np) (
           seq (release (Lk_proc np))
               (ret (- 1)))
         else
           seq (set_proc np (\<lambda>nq. nq\<lparr>sz := sz q\<rparr>)) (
           seq (set_mem (\<lambda>m. blit 288 m (unat (trapframe q)) (unat (trapframe nq)) m)) (
           seq (set_tf np tf_a0 0) (
           seq (for_each [0..<NOFILE] (\<lambda>i.
                  case ofile q i of
                    None \<Rightarrow> ret ()
                  | Some f \<Rightarrow>
                      bind (filedup f) (\<lambda>f.
                      set_proc np (\<lambda>nq. nq\<lparr>ofile := (ofile nq)(i := Some f)\<rparr>)))) (
           bind (case cwd q of None \<Rightarrow> undefined_behaviour | Some d \<Rightarrow> idup d) (\<lambda>d.
           seq (set_proc np (\<lambda>nq. nq\<lparr>cwd := Some d\<rparr>)) (
           seq (set_proc np (\<lambda>nq. nq\<lparr>pname := safestrcpy (pname nq) 0 (pname q) 0 16\<rparr>)) (
           bind (get_proc np) (\<lambda>nq.
           seq (release (Lk_proc np)) (
           seq (acquire Lk_wait) (
           seq (set_proc np (\<lambda>nq. nq\<lparr>parent := Some p\<rparr>)) (
           seq (release Lk_wait) (
           seq (acquire (Lk_proc np)) (
           seq (set_proc np (\<lambda>nq. nq\<lparr>pstate := RUNNABLE\<rparr>)) (
           seq (release (Lk_proc np))
               (ret (pid nq)))))))))))))))))))))"

definition exit :: "int \<Rightarrow> ('x ftstate_scheme, 'a) thread" where
  "exit status =
     bind myproc_ref (\<lambda>p.
     bind (gets initproc) (\<lambda>ini.
     if ini = Some p then panic ''init exiting'' else
     seq (for_each [0..<NOFILE] (\<lambda>fd.
            bind (get_proc p) (\<lambda>q. case ofile q fd of
              None \<Rightarrow> ret ()
            | Some f \<Rightarrow>
                seq (fileclose f)
                    (set_proc p (\<lambda>q. q\<lparr>ofile := (ofile q)(fd := None)\<rparr>))))) (
     seq begin_op (
     bind (get_proc p) (\<lambda>q.
     seq (case cwd q of None \<Rightarrow> undefined_behaviour | Some d \<Rightarrow> iput d) (
     seq end_op (
     seq (set_proc p (\<lambda>q. q\<lparr>cwd := None\<rparr>)) (
     seq (acquire Lk_wait) (
     seq (reparent p) (
     bind (get_proc p) (\<lambda>q.
     seq (case parent q of None \<Rightarrow> ret () | Some pp \<Rightarrow> wakeup (Ch_proc pp)) (
     seq (acquire (Lk_proc p)) (
     seq (set_proc p (\<lambda>q. q\<lparr>xstate := status, pstate := ZOMBIE\<rparr>)) (
     seq (release Lk_wait) (
     seq sched
         (panic ''zombie exit''))))))))))))))))"

subsection \<open>exec\<close>

abbreviation (input) ELF_MAGIC :: nat where "ELF_MAGIC \<equiv> 0x464C457F"
abbreviation (input) ELF_PROG_LOAD :: nat where "ELF_PROG_LOAD \<equiv> 1"

record elfhdr =
  elf_magic :: nat
  elf_entry :: u64
  elf_phoff :: u64
  elf_phnum :: nat

record proghdr =
  ph_type :: nat
  ph_flags :: nat
  ph_off :: u64
  ph_vaddr :: u64
  ph_filesz :: u64
  ph_memsz :: u64

definition decode_elf :: "bytes \<Rightarrow> elfhdr" where
  "decode_elf d = \<lparr>elf_magic = rd 4 d 0, elf_entry = of_nat (rd 8 d 24), elf_phoff = of_nat (rd 8 d 32), elf_phnum = rd 2 d 56\<rparr>"

definition decode_ph :: "bytes \<Rightarrow> proghdr" where
  "decode_ph d = \<lparr>ph_type = rd 4 d 0, ph_flags = rd 4 d 4, ph_off = of_nat (rd 8 d 8), ph_vaddr = of_nat (rd 8 d 16),
     ph_filesz = of_nat (rd 8 d 32), ph_memsz = of_nat (rd 8 d 40)\<rparr>"

definition flags2perm :: "nat \<Rightarrow> u64" where
  "flags2perm flags =
     (let perm = (if bit flags 0 then PTE_X else 0) in
      if bit flags 1 then perm OR PTE_W else perm)"

definition loadseg :: "u64 \<Rightarrow> u64 \<Rightarrow> nat \<Rightarrow> nat \<Rightarrow> nat \<Rightarrow> ('x ftstate_scheme, int) thread" where
  "loadseg pt va ip offset len =
     bind (scan (map (\<lambda>k. 4096 * k) [0..<(len + 4095) div 4096]) (\<lambda>i.
             bind (walkaddr pt (va + of_nat i)) (\<lambda>pa.
             if pa = 0 then panic ''loadseg: address should exist'' else
             let n = (if len - i < 4096 then len - i else 4096) in
             bind (readi ip (To_kernel pa) (add32 offset i) n (\<lambda>_. 0)) (\<lambda>(r, _).
             ret (if r \<noteq> int n then Some (- 1) else None))))) (\<lambda>r.
     ret (case r of Some v \<Rightarrow> v | None \<Rightarrow> 0))"

text \<open>The program headers: the size of the image so far, and whether all went well.\<close>

primrec exec_segs :: "nat list \<Rightarrow> u64 \<Rightarrow> nat \<Rightarrow> elfhdr \<Rightarrow> u64 \<Rightarrow> ('x ftstate_scheme, bool \<times> u64) thread" where
  "exec_segs [] pt ip elf usz = ret (True, usz)"
| "exec_segs (i # rest) pt ip elf usz =
     bind (readi ip (To_local 0) ((unat (elf_phoff elf) + 56 * i) mod 2 ^ 32) 56 (\<lambda>_. 0)) (\<lambda>(r, d).
     let ph = decode_ph d in
     if r \<noteq> 56 then ret (False, usz)
     else if ph_type ph \<noteq> ELF_PROG_LOAD then exec_segs rest pt ip elf usz
     else if ph_memsz ph < ph_filesz ph then ret (False, usz)
     else if ph_vaddr ph + ph_memsz ph < ph_vaddr ph then ret (False, usz)
     else if ph_vaddr ph mod PGSIZE \<noteq> 0 then ret (False, usz)
     else
       bind (uvmalloc pt usz (ph_vaddr ph + ph_memsz ph) (flags2perm (ph_flags ph))) (\<lambda>sz1.
       if sz1 = 0 then ret (False, usz) else
       bind (loadseg pt (ph_vaddr ph) ip (unat (ph_off ph) mod 2 ^ 32) (unat (ph_filesz ph) mod 2 ^ 32)) (\<lambda>r.
       if r < 0 then ret (False, sz1)
       else exec_segs rest pt ip elf sz1)))"

text \<open>The argument strings, pushed on the new stack; \<open>None\<close> is a jump to \<^verbatim>\<open>bad\<close>.\<close>

primrec exec_args :: "u64 list \<Rightarrow> u64 \<Rightarrow> u64 \<Rightarrow> u64 \<Rightarrow> u64 list \<Rightarrow> ('x ftstate_scheme, (u64 \<times> u64 list) option) thread" where
  "exec_args [] pt stackbase sp ustack = ret (Some (sp, ustack))"
| "exec_args (a # argv) pt stackbase sp ustack =
     (if length ustack \<ge> MAXARG then ret None else
      bind (gets mem) (\<lambda>m. case strlen m (unat a) of
        None \<Rightarrow> spin
      | Some n \<Rightarrow>
          let sp = sp - (of_nat n + 1); sp = sp - sp mod 16 in
          if sp < stackbase then ret None else
          bind (copyout pt sp m (unat a) (n + 1)) (\<lambda>r.
          if r < 0 then ret None
          else exec_args argv pt stackbase sp (ustack @ [sp]))))"

definition words_bytes :: "u64 list \<Rightarrow> bytes" where
  "words_bytes ws = (\<lambda>i. if i div 8 < length ws then byte_of (i mod 8) (unat (ws ! (i div 8))) else 0)"

text \<open>The part of the path after its last slash.\<close>

definition last_elem :: "u8 list \<Rightarrow> u8 list" where
  "last_elem pth = rev (takeWhile (\<lambda>c. c \<noteq> 47) (rev pth))"

definition exec_bad :: "u64 \<Rightarrow> u64 \<Rightarrow> nat option \<Rightarrow> ('x ftstate_scheme, int) thread" where
  "exec_bad pt usz ip =
     seq (whenM (pt \<noteq> 0) (proc_freepagetable pt usz)) (
     seq (case ip of None \<Rightarrow> ret () | Some k \<Rightarrow> seq (iunlockput k) end_op)
         (ret (- 1)))"

text \<open>From the stack on: the image is loaded, the file is closed.\<close>

definition exec_stack :: "nat \<Rightarrow> elfhdr \<Rightarrow> u8 list \<Rightarrow> u64 list \<Rightarrow> u64 \<Rightarrow> u64 \<Rightarrow> ('x ftstate_scheme, int) thread" where
  "exec_stack p elf pth argv pt usz =
     bind (get_proc p) (\<lambda>q.
     let oldsz = sz q; usz = PGROUNDUP usz in
     bind (uvmalloc pt usz (usz + (USERSTACK + 1) * PGSIZE) PTE_W) (\<lambda>sz1.
     if sz1 = 0 then exec_bad pt usz None else
     seq (uvmclear pt (sz1 - (USERSTACK + 1) * PGSIZE)) (
     let stackbase = sz1 - USERSTACK * PGSIZE in
     bind (exec_args argv pt stackbase sz1 []) (\<lambda>r. case r of
       None \<Rightarrow> exec_bad pt sz1 None
     | Some (sp, ustack) \<Rightarrow>
         let argc = length ustack; sp = sp - (of_nat argc + 1) * 8; sp = sp - sp mod 16 in
         if sp < stackbase then exec_bad pt sz1 None else
         bind (copyout pt sp (words_bytes (ustack @ [0])) 0 ((argc + 1) * 8)) (\<lambda>r.
         if r < 0 then exec_bad pt sz1 None else
         seq (set_tf p tf_a1 sp) (
         seq (set_proc p (\<lambda>q. q\<lparr>pname := safestrcpy (pname q) 0 (list_bytes (last_elem pth)) 0 16\<rparr>)) (
         bind (get_proc p) (\<lambda>q.
         seq (set_proc p (\<lambda>q. q\<lparr>pagetable := pt, sz := sz1\<rparr>)) (
         seq (set_tf p tf_epc (elf_entry elf)) (
         seq (set_tf p tf_sp sp) (
         seq (proc_freepagetable (pagetable q) oldsz)
             (ret (int argc)))))))))))))"

definition exec :: "u8 list \<Rightarrow> u64 list \<Rightarrow> ('x ftstate_scheme, int) thread" where
  "exec pth argv =
     bind myproc_ref (\<lambda>p.
     seq begin_op (
     bind (namei pth) (\<lambda>r. case r of
       None \<Rightarrow> seq end_op (ret (- 1))
     | Some ip \<Rightarrow>
         seq (ilock ip) (
         bind (readi ip (To_local 0) 0 64 (\<lambda>_. 0)) (\<lambda>(r, d).
         let elf = decode_elf d in
         if r \<noteq> 64 \<or> elf_magic elf \<noteq> ELF_MAGIC then exec_bad 0 0 (Some ip) else
         bind (proc_pagetable p) (\<lambda>pt.
         if pt = 0 then exec_bad 0 0 (Some ip) else
         bind (exec_segs [0..<elf_phnum elf] pt ip elf 0) (\<lambda>(ok, usz).
         if \<not> ok then exec_bad pt usz (Some ip) else
         seq (iunlockput ip) (
         seq end_op
             (exec_stack p elf pth argv pt usz)))))))))"

end
