(* ===== verification/Sysfile.thy ===== *)
theory Sysfile
  imports Exec
begin

unbundle bit_operations_syntax

text \<open>
  The argument fetching of \<^verbatim>\<open>kernel/syscall.c\<close> and all of \<^verbatim>\<open>kernel/sysfile.c\<close>. System calls return 64-bit words.
  Buffers for paths are byte arrays; \<open>cstr MAXPATH\<close> reads the string in them.
\<close>

subsection \<open>Arguments of system calls\<close>

definition fetchaddr :: "u64 \<Rightarrow> ('x ftstate_scheme, int \<times> u64) thread" where
  "fetchaddr addr =
     bind myproc_ref (\<lambda>p.
     bind (get_proc p) (\<lambda>q.
     if addr \<ge> sz q \<or> addr + 8 > sz q then ret (- 1, 0) else
     bind (copyin (pagetable q) (\<lambda>_. 0) 0 addr 8) (\<lambda>(r, d).
     ret (if r \<noteq> 0 then - 1 else 0, of_nat (rd 8 d 0)))))"

definition fetchstr :: "u64 \<Rightarrow> bytes \<Rightarrow> nat \<Rightarrow> ('x ftstate_scheme, int \<times> bytes) thread" where
  "fetchstr addr buf maxlen =
     bind myproc_ref (\<lambda>p.
     bind (get_proc p) (\<lambda>q.
     bind (copyinstr (pagetable q) buf 0 addr maxlen) (\<lambda>(r, d).
     if r < 0 then ret (- 1, d)
     else case strlen d 0 of None \<Rightarrow> spin | Some n \<Rightarrow> ret (int n, d))))"

definition argraw :: "nat \<Rightarrow> ('x ftstate_scheme, u64) thread" where
  "argraw n =
     bind myproc_ref (\<lambda>p.
     if n \<le> 5 then get_tf p (tf_a0 + 8 * of_nat n) else panic ''argraw'')"

definition argint :: "nat \<Rightarrow> ('x ftstate_scheme, int) thread" where
  "argint n = bind (argraw n) (\<lambda>v. ret (s32 (unat v mod 2 ^ 32)))"

definition argaddr :: "nat \<Rightarrow> ('x ftstate_scheme, u64) thread" where
  "argaddr n = argraw n"

definition argstr :: "nat \<Rightarrow> nat \<Rightarrow> ('x ftstate_scheme, int \<times> bytes) thread" where
  "argstr n maxlen = bind (argaddr n) (\<lambda>addr. fetchstr addr (\<lambda>_. 0) maxlen)"

text \<open>The descriptor and the file, or \<open>None\<close>.\<close>

definition argfd :: "nat \<Rightarrow> ('x ftstate_scheme, (nat \<times> nat) option) thread" where
  "argfd n =
     bind (argint n) (\<lambda>fd.
     if fd < 0 \<or> fd \<ge> int NOFILE then ret None else
     bind myproc_ref (\<lambda>p.
     bind (get_proc p) (\<lambda>q. case ofile q (nat fd) of
       None \<Rightarrow> ret None
     | Some f \<Rightarrow> ret (Some (nat fd, f)))))"

definition set_ofile :: "nat \<Rightarrow> nat \<Rightarrow> nat option \<Rightarrow> ('x pkstate_scheme, unit) thread" where
  "set_ofile p fd f = set_proc p (\<lambda>q. q\<lparr>ofile := (ofile q)(fd := f)\<rparr>)"

definition fdalloc :: "nat \<Rightarrow> ('x ftstate_scheme, int) thread" where
  "fdalloc f =
     bind myproc_ref (\<lambda>p.
     bind (get_proc p) (\<lambda>q. case find (\<lambda>fd. ofile q fd = None) [0..<NOFILE] of
       Some fd \<Rightarrow> seq (set_ofile p fd (Some f)) (ret (int fd))
     | None \<Rightarrow> ret (- 1)))"

subsection \<open>Calls on open files\<close>

definition sys_dup :: "('x ftstate_scheme, u64) thread" where
  "sys_dup =
     bind (argfd 0) (\<lambda>r. case r of
       None \<Rightarrow> ret (- 1)
     | Some (_, f) \<Rightarrow>
         bind (fdalloc f) (\<lambda>fd.
         if fd < 0 then ret (- 1) else
         bind (filedup f) (\<lambda>_. ret (of_int fd))))"

definition sys_read :: "('x ftstate_scheme, u64) thread" where
  "sys_read =
     bind (argaddr 1) (\<lambda>p.
     bind (argint 2) (\<lambda>n.
     bind (argfd 0) (\<lambda>r. case r of
       None \<Rightarrow> ret (- 1)
     | Some (_, f) \<Rightarrow> bind (fileread f p n) (\<lambda>v. ret (of_int v)))))"

definition sys_write :: "('x ftstate_scheme, u64) thread" where
  "sys_write =
     bind (argaddr 1) (\<lambda>p.
     bind (argint 2) (\<lambda>n.
     bind (argfd 0) (\<lambda>r. case r of
       None \<Rightarrow> ret (- 1)
     | Some (_, f) \<Rightarrow> bind (filewrite f p n) (\<lambda>v. ret (of_int v)))))"

definition sys_close :: "('x ftstate_scheme, u64) thread" where
  "sys_close =
     bind (argfd 0) (\<lambda>r. case r of
       None \<Rightarrow> ret (- 1)
     | Some (fd, f) \<Rightarrow>
         bind myproc_ref (\<lambda>p.
         seq (set_ofile p fd None) (
         seq (fileclose f)
             (ret 0))))"

definition sys_fstat :: "('x ftstate_scheme, u64) thread" where
  "sys_fstat =
     bind (argaddr 1) (\<lambda>st.
     bind (argfd 0) (\<lambda>r. case r of
       None \<Rightarrow> ret (- 1)
     | Some (_, f) \<Rightarrow> bind (filestat f st) (\<lambda>v. ret (of_int v))))"

subsection \<open>Links and directories\<close>

definition link_bad :: "nat \<Rightarrow> ('x ftstate_scheme, u64) thread" where
  "link_bad ip =
     seq (ilock ip) (
     seq (set_inode ip (\<lambda>x. x\<lparr>inlink := s16 (bits16 (inlink x - 1))\<rparr>)) (
     seq (iupdate ip) (
     seq (iunlockput ip) (
     seq end_op
         (ret (- 1))))))"

definition sys_link :: "('x ftstate_scheme, u64) thread" where
  "sys_link =
     bind (argstr 0 MAXPATH) (\<lambda>(r, old).
     if r < 0 then ret (- 1) else
     bind (argstr 1 MAXPATH) (\<lambda>(r, new).
     if r < 0 then ret (- 1) else
     seq begin_op (
     bind (namei (cstr MAXPATH old 0)) (\<lambda>r. case r of
       None \<Rightarrow> seq end_op (ret (- 1))
     | Some ip \<Rightarrow>
         seq (ilock ip) (
         bind (get_inode ip) (\<lambda>x.
         if itype x = T_DIR then
           seq (iunlockput ip) (
           seq end_op
               (ret (- 1)))
         else
           seq (set_inode ip (\<lambda>x. x\<lparr>inlink := s16 (bits16 (inlink x + 1))\<rparr>)) (
           seq (iupdate ip) (
           seq (iunlock ip) (
           bind (nameiparent (cstr MAXPATH new 0) (\<lambda>_. 0)) (\<lambda>(r, name). case r of
             None \<Rightarrow> link_bad ip
           | Some dp \<Rightarrow>
               seq (ilock dp) (
               bind (get_inode dp) (\<lambda>d.
               bind (get_inode ip) (\<lambda>x.
               bind (if idev d \<noteq> idev x then ret (- 1) else dirlink dp name (inum x)) (\<lambda>r.
               if r < 0 then seq (iunlockput dp) (link_bad ip)
               else
                 seq (iunlockput dp) (
                 seq (iput ip) (
                 seq end_op
                     (ret 0)))))))))))))))))"

definition isdirempty :: "nat \<Rightarrow> ('x ftstate_scheme, bool) thread" where
  "isdirempty dp =
     bind (get_inode dp) (\<lambda>d.
     bind (scan (filter (\<lambda>off. 32 \<le> off) (dir_offsets (isize d))) (\<lambda>off.
             bind (readi dp (To_local 0) off 16 (\<lambda>_. 0)) (\<lambda>(r, de).
             if r \<noteq> 16 then panic ''isdirempty: readi''
             else ret (if rd 2 de 0 \<noteq> 0 then Some () else None)))) (\<lambda>r.
     ret (r = None)))"

definition unlink_bad :: "nat \<Rightarrow> ('x ftstate_scheme, u64) thread" where
  "unlink_bad dp =
     seq (iunlockput dp) (
     seq end_op
         (ret (- 1)))"

definition sys_unlink :: "('x ftstate_scheme, u64) thread" where
  "sys_unlink =
     bind (argstr 0 MAXPATH) (\<lambda>(r, pth).
     if r < 0 then ret (- 1) else
     seq begin_op (
     bind (nameiparent (cstr MAXPATH pth 0) (\<lambda>_. 0)) (\<lambda>(r, name). case r of
       None \<Rightarrow> seq end_op (ret (- 1))
     | Some dp \<Rightarrow>
         seq (ilock dp) (
         if namecmp name 0 (str_bytes ''.'') 0 = 0 \<or> namecmp name 0 (str_bytes ''..'') 0 = 0 then unlink_bad dp else
         bind (dirlookup dp name) (\<lambda>r. case r of
           None \<Rightarrow> unlink_bad dp
         | Some (ip, off) \<Rightarrow>
             seq (ilock ip) (
             bind (get_inode ip) (\<lambda>x.
             if inlink x < 1 then panic ''unlink: nlink < 1'' else
             bind (if itype x = T_DIR then isdirempty ip else ret True) (\<lambda>empty.
             if \<not> empty then seq (iunlockput ip) (unlink_bad dp) else
             bind (writei dp (From_local (\<lambda>_. 0) 0) off 16) (\<lambda>w.
             if w \<noteq> 16 then panic ''unlink: writei'' else
             seq (whenM (itype x = T_DIR) (
                    seq (set_inode dp (\<lambda>d. d\<lparr>inlink := s16 (bits16 (inlink d - 1))\<rparr>))
                        (iupdate dp))) (
             seq (iunlockput dp) (
             seq (set_inode ip (\<lambda>x. x\<lparr>inlink := s16 (bits16 (inlink x - 1))\<rparr>)) (
             seq (iupdate ip) (
             seq (iunlockput ip) (
             seq end_op
                 (ret 0)))))))))))))))"

definition create_fail :: "nat \<Rightarrow> nat \<Rightarrow> ('x ftstate_scheme, nat option) thread" where
  "create_fail dp ip =
     seq (set_inode ip (\<lambda>x. x\<lparr>inlink := 0\<rparr>)) (
     seq (iupdate ip) (
     seq (iunlockput ip) (
     seq (iunlockput dp)
         (ret None))))"

definition create :: "u8 list \<Rightarrow> int \<Rightarrow> int \<Rightarrow> int \<Rightarrow> ('x ftstate_scheme, nat option) thread" where
  "create pth type major minor =
     bind (nameiparent pth (\<lambda>_. 0)) (\<lambda>(r, name). case r of
       None \<Rightarrow> ret None
     | Some dp \<Rightarrow>
         seq (ilock dp) (
         bind (dirlookup dp name) (\<lambda>r. case r of
           Some (ip, _) \<Rightarrow>
             seq (iunlockput dp) (
             seq (ilock ip) (
             bind (get_inode ip) (\<lambda>x.
             if type = T_FILE \<and> (itype x = T_FILE \<or> itype x = T_DEVICE) then ret (Some ip)
             else seq (iunlockput ip) (ret None))))
         | None \<Rightarrow>
             bind (get_inode dp) (\<lambda>d.
             bind (ialloc (idev d) type) (\<lambda>r. case r of
               None \<Rightarrow> seq (iunlockput dp) (ret None)
             | Some ip \<Rightarrow>
                 seq (ilock ip) (
                 seq (set_inode ip (\<lambda>x. x\<lparr>imajor := major, iminor := minor, inlink := 1\<rparr>)) (
                 seq (iupdate ip) (
                 bind (get_inode ip) (\<lambda>x.
                 bind (if type = T_DIR then
                         bind (dirlink ip (str_bytes ''.'') (inum x)) (\<lambda>r.
                         if r < 0 then ret r else dirlink ip (str_bytes ''..'') (inum d))
                       else ret 0) (\<lambda>r.
                 if r < 0 then create_fail dp ip else
                 bind (dirlink dp name (inum x)) (\<lambda>r.
                 if r < 0 then create_fail dp ip else
                 seq (whenM (type = T_DIR) (
                        seq (set_inode dp (\<lambda>d. d\<lparr>inlink := s16 (bits16 (inlink d + 1))\<rparr>))
                            (iupdate dp))) (
                 seq (iunlockput dp)
                     (ret (Some ip))))))))))))))"

subsection \<open>open and friends\<close>

text \<open>The second half of \<^verbatim>\<open>sys_open\<close>, with the inode locked.\<close>

definition open_inode :: "u32 \<Rightarrow> nat \<Rightarrow> ('x ftstate_scheme, u64) thread" where
  "open_inode omode ip =
     bind (get_inode ip) (\<lambda>x.
     if itype x = T_DEVICE \<and> (imajor x < 0 \<or> imajor x \<ge> int NDEV) then
       seq (iunlockput ip) (
       seq end_op
           (ret (- 1)))
     else
       bind filealloc (\<lambda>r. case r of
         None \<Rightarrow>
           seq (iunlockput ip) (
           seq end_op
               (ret (- 1)))
       | Some f \<Rightarrow>
           bind (fdalloc f) (\<lambda>fd.
           if fd < 0 then
             seq (fileclose f) (
             seq (iunlockput ip) (
             seq end_op
                 (ret (- 1))))
           else
             seq (if itype x = T_DEVICE
                  then set_file f (\<lambda>y. y\<lparr>ftype := FD_DEVICE, fmajor := imajor x\<rparr>)
                  else set_file f (\<lambda>y. y\<lparr>ftype := FD_INODE, foff := 0\<rparr>)) (
             seq (set_file f (\<lambda>y. y\<lparr>fip := ip, readable := omode AND O_WRONLY = 0,
                    writable := omode AND O_WRONLY \<noteq> 0 \<or> omode AND O_RDWR \<noteq> 0\<rparr>)) (
             seq (whenM (omode AND O_TRUNC \<noteq> 0 \<and> itype x = T_FILE) (itrunc ip)) (
             seq (iunlock ip) (
             seq end_op
                 (ret (of_int fd)))))))))"

definition sys_open :: "('x ftstate_scheme, u64) thread" where
  "sys_open =
     bind (argint 1) (\<lambda>mode.
     let omode = of_int mode in
     bind (argstr 0 MAXPATH) (\<lambda>(n, pth).
     if n < 0 then ret (- 1) else
     seq begin_op (
     if omode AND O_CREATE \<noteq> 0 then
       bind (create (cstr MAXPATH pth 0) T_FILE 0 0) (\<lambda>r. case r of
         None \<Rightarrow> seq end_op (ret (- 1))
       | Some ip \<Rightarrow> open_inode omode ip)
     else
       bind (namei (cstr MAXPATH pth 0)) (\<lambda>r. case r of
         None \<Rightarrow> seq end_op (ret (- 1))
       | Some ip \<Rightarrow>
           seq (ilock ip) (
           bind (get_inode ip) (\<lambda>x.
           if itype x = T_DIR \<and> omode \<noteq> O_RDONLY then
             seq (iunlockput ip) (
             seq end_op
                 (ret (- 1)))
           else open_inode omode ip))))))"

definition finish_create :: "nat option \<Rightarrow> ('x ftstate_scheme, u64) thread" where
  "finish_create r = (case r of
     None \<Rightarrow> seq end_op (ret (- 1))
   | Some ip \<Rightarrow>
       seq (iunlockput ip) (
       seq end_op
           (ret 0)))"

definition sys_mkdir :: "('x ftstate_scheme, u64) thread" where
  "sys_mkdir =
     seq begin_op (
     bind (argstr 0 MAXPATH) (\<lambda>(r, pth).
     if r < 0 then finish_create None
     else bind (create (cstr MAXPATH pth 0) T_DIR 0 0) finish_create))"

definition sys_mknod :: "('x ftstate_scheme, u64) thread" where
  "sys_mknod =
     seq begin_op (
     bind (argint 1) (\<lambda>major.
     bind (argint 2) (\<lambda>minor.
     bind (argstr 0 MAXPATH) (\<lambda>(r, pth).
     if r < 0 then finish_create None
     else bind (create (cstr MAXPATH pth 0) T_DEVICE (s16 (bits16 major)) (s16 (bits16 minor))) finish_create))))"

definition sys_chdir :: "('x ftstate_scheme, u64) thread" where
  "sys_chdir =
     bind myproc_ref (\<lambda>p.
     seq begin_op (
     bind (argstr 0 MAXPATH) (\<lambda>(r, pth).
     if r < 0 then seq end_op (ret (- 1)) else
     bind (namei (cstr MAXPATH pth 0)) (\<lambda>r. case r of
       None \<Rightarrow> seq end_op (ret (- 1))
     | Some ip \<Rightarrow>
         seq (ilock ip) (
         bind (get_inode ip) (\<lambda>x.
         if itype x \<noteq> T_DIR then
           seq (iunlockput ip) (
           seq end_op
               (ret (- 1)))
         else
           seq (iunlock ip) (
           bind (get_proc p) (\<lambda>q.
           seq (case cwd q of None \<Rightarrow> undefined_behaviour | Some d \<Rightarrow> iput d) (
           seq end_op (
           seq (set_proc p (\<lambda>q. q\<lparr>cwd := Some ip\<rparr>))
               (ret 0)))))))))))"

text \<open>The argument vector of \<^verbatim>\<open>sys_exec\<close>: the pages it has filled so far, and whether all went well.\<close>

primrec exec_argv :: "nat list \<Rightarrow> u64 \<Rightarrow> u64 list \<Rightarrow> ('x ftstate_scheme, bool \<times> u64 list) thread" where
  "exec_argv [] uargv argv = ret (False, argv)"
| "exec_argv (i # rest) uargv argv =
     bind (fetchaddr (uargv + 8 * of_nat i)) (\<lambda>(r, uarg).
     if r < 0 then ret (False, argv)
     else if uarg = 0 then ret (True, argv)
     else
       bind kalloc (\<lambda>a.
       if a = 0 then ret (False, argv) else
       bind (gets mem) (\<lambda>m.
       bind (fetchstr uarg (\<lambda>k. m (unat a + k)) 4096) (\<lambda>(r, d).
       seq (set_mem (blit 4096 d 0 (unat a))) (
       if r < 0 then ret (False, argv @ [a])
       else exec_argv rest uargv (argv @ [a]))))))"

definition sys_exec :: "('x ftstate_scheme, u64) thread" where
  "sys_exec =
     bind (argaddr 1) (\<lambda>uargv.
     bind (argstr 0 MAXPATH) (\<lambda>(r, pth).
     if r < 0 then ret (- 1) else
     bind (exec_argv [0..<MAXARG] uargv []) (\<lambda>(ok, argv).
     bind (if ok then exec (cstr MAXPATH pth 0) argv else ret (- 1)) (\<lambda>v.
     seq (for_each argv kfree)
         (ret (of_int v))))))"

definition sys_pipe :: "('x ftstate_scheme, u64) thread" where
  "sys_pipe =
     bind myproc_ref (\<lambda>p.
     bind (argaddr 0) (\<lambda>fdarray.
     bind pipealloc (\<lambda>r. case r of
       None \<Rightarrow> ret (- 1)
     | Some (rfile, wfile) \<Rightarrow>
         bind (fdalloc rfile) (\<lambda>fd0.
         bind (if fd0 < 0 then ret (- 1) else fdalloc wfile) (\<lambda>fd1.
         if fd0 < 0 \<or> fd1 < 0 then
           seq (whenM (fd0 \<ge> 0) (set_ofile p (nat fd0) None)) (
           seq (fileclose rfile) (
           seq (fileclose wfile)
               (ret (- 1))))
         else
           bind (get_proc p) (\<lambda>q.
           bind (copyout (pagetable q) fdarray (int_bytes fd0) 0 4) (\<lambda>r0.
           bind (if r0 < 0 then ret r0 else copyout (pagetable q) (fdarray + 4) (int_bytes fd1) 0 4) (\<lambda>r1.
           if r1 < 0 then
             seq (set_ofile p (nat fd0) None) (
             seq (set_ofile p (nat fd1) None) (
             seq (fileclose rfile) (
             seq (fileclose wfile)
                 (ret (- 1)))))
           else ret 0))))))))"

end
