(* ===== verification/Virtio.thy ===== *)
theory Virtio
  imports Sysfile
begin

unbundle bit_operations_syntax

text \<open>
  \<^verbatim>\<open>kernel/virtio_disk.c\<close>, the driver of the virtio disk. Descriptors, rings and request headers are tables of
  the driver's state; an address in a descriptor names the object it points to. The registers of the
  device are a table of the values it reads as, and the writes to them are recorded. The device itself is
  not under \<^verbatim>\<open>src\<close>: what it does with a request that is on the available ring and of which it was notified is the hypothesis
  \<open>device_served\<close>, which says what the virtio specification demands. A caller that waits for descriptors or for the completion of its request is
  continued in the definitions with suffix \<open>_resume\<close>.
\<close>

type_synonym u16 = "16 word"

abbreviation (input) NUM :: nat where "NUM \<equiv> 8"

datatype daddr = A_null | A_ops nat | A_data nat | A_status nat

record virtq_desc =
  d_addr :: daddr
  d_len :: nat
  d_flags :: u16
  d_next :: nat

record virtio_blk_req =
  req_type :: nat
  req_sector :: nat

record vdisk =
  vd_desc :: "nat \<Rightarrow> virtq_desc"
  avail_ring :: "nat \<Rightarrow> nat"
  avail_idx :: u16
  used_ring :: "nat \<Rightarrow> nat"
  used_ring_idx :: u16
  vd_free :: "nat \<Rightarrow> bool"
  used_idx :: u16
  info_b :: "nat \<Rightarrow> nat option"
  info_status :: "nat \<Rightarrow> u8"
  ops :: "nat \<Rightarrow> virtio_blk_req"
  desc_page :: u64
  avail_page :: u64
  used_page :: u64
  vreg :: "nat \<Rightarrow> u32"
  vreg_writes :: "(nat \<times> u32) list"

record vstate = ftstate +
  vdisk :: vdisk

definition get_vd :: "('x vstate_scheme, vdisk) thread" where
  "get_vd = gets vdisk"

definition set_vd :: "(vdisk \<Rightarrow> vdisk) \<Rightarrow> ('x vstate_scheme, unit) thread" where
  "set_vd f = modify (\<lambda>s. s\<lparr>vdisk := f (vdisk s)\<rparr>)"

definition set_desc :: "nat \<Rightarrow> (virtq_desc \<Rightarrow> virtq_desc) \<Rightarrow> ('x vstate_scheme, unit) thread" where
  "set_desc i f = set_vd (\<lambda>d. d\<lparr>vd_desc := (vd_desc d)(i := f (vd_desc d i))\<rparr>)"

definition read_R :: "nat \<Rightarrow> ('x vstate_scheme, u32) thread" where
  "read_R r = bind get_vd (\<lambda>d. ret (vreg d r))"

definition write_R :: "nat \<Rightarrow> u32 \<Rightarrow> ('x vstate_scheme, unit) thread" where
  "write_R r v = set_vd (\<lambda>d. d\<lparr>vreg_writes := vreg_writes d @ [(r, v)]\<rparr>)"

lemma vd_exec [exec_simps]:
  "get_vd s = Done (vdisk s) s" "set_vd f s = Done () (s\<lparr>vdisk := f (vdisk s)\<rparr>)"
  "set_desc i g s = Done () (s\<lparr>vdisk := (vdisk s)\<lparr>vd_desc := (vd_desc (vdisk s))(i := g (vd_desc (vdisk s) i))\<rparr>\<rparr>)"
  by (simp_all add: get_vd_def set_vd_def set_desc_def gets_def modify_def)

subsection \<open>Initialization\<close>

text \<open>The seven feature bits that the driver turns down.\<close>

definition refused_features :: "nat list" where
  "refused_features = [5, 7, 11, 12, 27, 29, 28]"

definition low32 :: "u64 \<Rightarrow> u32" where
  "low32 a = of_nat (unat a)"

definition high32 :: "u64 \<Rightarrow> u32" where
  "high32 a = of_nat (unat (drop_bit 32 a))"

definition virtio_disk_init :: "('x vstate_scheme, unit) thread" where
  "virtio_disk_init =
     seq (initlock Lk_vdisk ''virtio_disk'') (
     bind (read_R 0x000) (\<lambda>magic.
     bind (read_R 0x004) (\<lambda>version.
     bind (read_R 0x008) (\<lambda>device.
     bind (read_R 0x00c) (\<lambda>vendor.
     if magic \<noteq> 0x74726976 \<or> version \<noteq> 2 \<or> device \<noteq> 2 \<or> vendor \<noteq> 0x554d4551
     then panic ''could not find virtio disk'' else
     seq (write_R 0x070 0) (
     seq (write_R 0x070 1) (
     seq (write_R 0x070 (1 OR 2)) (
     bind (read_R 0x010) (\<lambda>features.
     seq (write_R 0x020 (fold (\<lambda>b f. f AND NOT (push_bit b 1)) refused_features features)) (
     seq (write_R 0x070 (1 OR 2 OR 8)) (
     bind (read_R 0x070) (\<lambda>status.
     if status AND 8 = 0 then panic ''virtio disk FEATURES_OK unset'' else
     seq (write_R 0x030 0) (
     bind (read_R 0x044) (\<lambda>ready.
     if ready \<noteq> 0 then panic ''virtio disk should not be ready'' else
     bind (read_R 0x034) (\<lambda>maxq.
     if maxq = 0 then panic ''virtio disk has no queue 0''
     else if maxq < of_nat NUM then panic ''virtio disk max queue too short'' else
     bind kalloc (\<lambda>desc.
     bind kalloc (\<lambda>avail.
     bind kalloc (\<lambda>used.
     if desc = 0 \<or> avail = 0 \<or> used = 0 then panic ''virtio disk kalloc'' else
     seq (set_mem (\<lambda>m. memset (memset (memset m (unat desc) 0 4096) (unat avail) 0 4096) (unat used) 0 4096)) (
     seq (set_vd (\<lambda>d. d\<lparr>desc_page := desc, avail_page := avail, used_page := used,
            vd_desc := (\<lambda>_. \<lparr>d_addr = A_null, d_len = 0, d_flags = 0, d_next = 0\<rparr>), avail_ring := (\<lambda>_. 0), avail_idx := 0,
            used_ring := (\<lambda>_. 0), used_ring_idx := 0\<rparr>)) (
     seq (write_R 0x038 (of_nat NUM)) (
     seq (write_R 0x080 (low32 desc)) (
     seq (write_R 0x084 (high32 desc)) (
     seq (write_R 0x090 (low32 avail)) (
     seq (write_R 0x094 (high32 avail)) (
     seq (write_R 0x0a0 (low32 used)) (
     seq (write_R 0x0a4 (high32 used)) (
     seq (write_R 0x044 1) (
     seq (set_vd (\<lambda>d. d\<lparr>vd_free := (\<lambda>i. if i < NUM then True else vd_free d i)\<rparr>))
         (write_R 0x070 (status OR 4))))))))))))))))))))))))))))))"

subsection \<open>Descriptors\<close>

definition alloc_desc :: "('x vstate_scheme, nat option) thread" where
  "alloc_desc =
     bind get_vd (\<lambda>d. case find (vd_free d) [0..<NUM] of
       Some i \<Rightarrow> seq (set_vd (\<lambda>d. d\<lparr>vd_free := (vd_free d)(i := False)\<rparr>)) (ret (Some i))
     | None \<Rightarrow> ret None)"

definition free_desc :: "nat \<Rightarrow> ('x vstate_scheme, unit) thread" where
  "free_desc i =
     bind get_vd (\<lambda>d.
     if i \<ge> NUM then panic ''free_desc 1''
     else if vd_free d i then panic ''free_desc 2'' else
     seq (set_desc i (\<lambda>_. \<lparr>d_addr = A_null, d_len = 0, d_flags = 0, d_next = 0\<rparr>)) (
     seq (set_vd (\<lambda>d. d\<lparr>vd_free := (vd_free d)(i := True)\<rparr>))
         (wakeup Ch_disk_free)))"

text \<open>Every round frees a descriptor that was not free, so \<open>NUM + 1\<close> rounds are enough.\<close>

primrec free_chain_loop :: "nat \<Rightarrow> nat \<Rightarrow> ('x vstate_scheme, unit) thread" where
  "free_chain_loop 0 i = spin"
| "free_chain_loop (Suc k) i =
     bind get_vd (\<lambda>d.
     seq (free_desc i) (
     if bit (d_flags (vd_desc d i)) 0 then free_chain_loop k (d_next (vd_desc d i)) else ret ()))"

definition free_chain :: "nat \<Rightarrow> ('x vstate_scheme, unit) thread" where
  "free_chain i = free_chain_loop (NUM + 1) i"

definition alloc3_desc :: "('x vstate_scheme, (nat \<times> nat \<times> nat) option) thread" where
  "alloc3_desc =
     bind alloc_desc (\<lambda>i0. case i0 of
       None \<Rightarrow> ret None
     | Some i0 \<Rightarrow>
         bind alloc_desc (\<lambda>i1. case i1 of
           None \<Rightarrow> seq (free_desc i0) (ret None)
         | Some i1 \<Rightarrow>
             bind alloc_desc (\<lambda>i2. case i2 of
               None \<Rightarrow> seq (free_desc i0) (seq (free_desc i1) (ret None))
             | Some i2 \<Rightarrow> ret (Some (i0, i1, i2)))))"

subsection \<open>Requests\<close>

definition virtio_submit :: "nat \<Rightarrow> bool \<Rightarrow> nat \<times> nat \<times> nat \<Rightarrow> ('x vstate_scheme, unit) thread" where
  "virtio_submit b wrt = (\<lambda>(i0, i1, i2).
     bind (get_buf b) (\<lambda>x.
     seq (set_vd (\<lambda>d. d\<lparr>ops := (ops d)(i0 := \<lparr>req_type = (if wrt then 1 else 0), req_sector = (bblockno x * 2) mod 2 ^ 32\<rparr>)\<rparr>)) (
     seq (set_desc i0 (\<lambda>_. \<lparr>d_addr = A_ops i0, d_len = 16, d_flags = 1, d_next = i1\<rparr>)) (
     seq (set_desc i1 (\<lambda>_. \<lparr>d_addr = A_data b, d_len = BSIZE, d_flags = (if wrt then 0 else 2) OR 1, d_next = i2\<rparr>)) (
     seq (set_vd (\<lambda>d. d\<lparr>info_status := (info_status d)(i0 := 0xff)\<rparr>)) (
     seq (set_desc i2 (\<lambda>_. \<lparr>d_addr = A_status i0, d_len = 1, d_flags = 2, d_next = 0\<rparr>)) (
     seq (set_buf b (\<lambda>x. x\<lparr>bdisk := True\<rparr>)) (
     seq (set_vd (\<lambda>d. d\<lparr>info_b := (info_b d)(i0 := Some b)\<rparr>)) (
     seq (set_vd (\<lambda>d. d\<lparr>avail_ring := (avail_ring d)(unat (avail_idx d mod of_nat NUM) := i0)\<rparr>)) (
     seq (set_vd (\<lambda>d. d\<lparr>avail_idx := avail_idx d + 1\<rparr>))
         (write_R 0x050 0)))))))))))"

text \<open>Waiting for the request, with the lock held, and what follows.\<close>

definition virtio_wait :: "nat \<Rightarrow> nat \<Rightarrow> ('x vstate_scheme, unit) thread" where
  "virtio_wait b i0 =
     bind (get_buf b) (\<lambda>x.
     if bdisk x then sleep (Ch_buf b) Lk_vdisk
     else
       seq (set_vd (\<lambda>d. d\<lparr>info_b := (info_b d)(i0 := None)\<rparr>)) (
       seq (free_chain i0)
           (release Lk_vdisk)))"

definition virtio_wait_resume :: "nat \<Rightarrow> nat \<Rightarrow> nat \<Rightarrow> ('x vstate_scheme, unit) thread" where
  "virtio_wait_resume p b i0 = seq (sleep_resume p Lk_vdisk) (virtio_wait b i0)"

definition virtio_disk_rw_loop :: "nat \<Rightarrow> bool \<Rightarrow> ('x vstate_scheme, unit) thread" where
  "virtio_disk_rw_loop b wrt =
     bind alloc3_desc (\<lambda>r. case r of
       None \<Rightarrow> sleep Ch_disk_free Lk_vdisk
     | Some idx \<Rightarrow>
         seq (virtio_submit b wrt idx)
             (virtio_wait b (fst idx)))"

definition virtio_disk_rw :: "nat \<Rightarrow> bool \<Rightarrow> ('x vstate_scheme, unit) thread" where
  "virtio_disk_rw b wrt = seq (acquire Lk_vdisk) (virtio_disk_rw_loop b wrt)"

definition virtio_disk_rw_resume :: "nat \<Rightarrow> nat \<Rightarrow> bool \<Rightarrow> ('x vstate_scheme, unit) thread" where
  "virtio_disk_rw_resume p b wrt = seq (sleep_resume p Lk_vdisk) (virtio_disk_rw_loop b wrt)"

text \<open>The loop over the used ring: the distance of the two indices is the number of rounds.\<close>

primrec virtio_intr_loop :: "nat \<Rightarrow> ('x vstate_scheme, unit) thread" where
  "virtio_intr_loop 0 = spin"
| "virtio_intr_loop (Suc k) =
     bind get_vd (\<lambda>d.
     if used_idx d = used_ring_idx d then ret () else
     let i = used_ring d (unat (used_idx d mod of_nat NUM)) in
     if info_status d i \<noteq> 0 then panic ''virtio_disk_intr status'' else
     case info_b d i of
       None \<Rightarrow> undefined_behaviour
     | Some b \<Rightarrow>
         seq (set_buf b (\<lambda>x. x\<lparr>bdisk := False\<rparr>)) (
         seq (wakeup (Ch_buf b)) (
         seq (set_vd (\<lambda>d. d\<lparr>used_idx := used_idx d + 1\<rparr>))
             (virtio_intr_loop k))))"

definition virtio_disk_intr :: "('x vstate_scheme, unit) thread" where
  "virtio_disk_intr =
     seq (acquire Lk_vdisk) (
     bind (read_R 0x060) (\<lambda>v.
     seq (write_R 0x064 (v AND 3)) (
     bind get_vd (\<lambda>d.
     seq (virtio_intr_loop (Suc (unat (used_ring_idx d - used_idx d))))
         (release Lk_vdisk)))))"

end
