(* ===== verification/Trap.thy ===== *)
theory Trap
  imports Virtio
begin

unbundle bit_operations_syntax

text \<open>
  The entries of the kernel: \<^verbatim>\<open>kernel/sysproc.c\<close>, the dispatcher of \<^verbatim>\<open>syscall.c\<close>, \<^verbatim>\<open>trap.c\<close>, \<^verbatim>\<open>plic.c\<close>, \<^verbatim>\<open>start.c\<close>, \<^verbatim>\<open>main.c\<close> and
  \<^verbatim>\<open>forkret\<close> and the loop of \<^verbatim>\<open>scheduler\<close> of \<^verbatim>\<open>proc.c\<close>. Every hart has its control and status registers; the interrupt enable bit of
  \<^verbatim>\<open>sstatus\<close> is the one that \<^verbatim>\<open>intr_on\<close> and \<^verbatim>\<open>intr_off\<close> change, and the register \<^verbatim>\<open>satp\<close> and the thread pointer \<^verbatim>\<open>tp\<close> are those of
  the earlier theories. Addresses the linker chooses are components of the state. A thread that gave up
  the processor inside a trap goes on in the definitions with suffix \<open>_resume\<close>.
\<close>

datatype csr =
  Mhartid | Mstatus | Mepc | Sstatus | Sie | Mie | Sepc | Medeleg | Mideleg | Stvec | Stimecmp | Menvcfg | Pmpcfg0 | Pmpaddr0
| Scause | Stval | Mcounteren | Time

record trstate = vstate +
  csrs :: "nat \<Rightarrow> csr \<Rightarrow> u64"
  plic_reg :: "u64 \<Rightarrow> u32"
  plic_writes :: "(u64 \<times> u32) list"
  forkret_first :: bool
  started :: bool
  link_etext :: u64
  link_kernelvec :: u64
  link_uservec :: u64
  link_userret :: u64
  link_usertrap :: u64
  link_main :: u64

definition r_csr :: "csr \<Rightarrow> ('x trstate_scheme, u64) thread" where
  "r_csr c = gets (\<lambda>s. csrs s (hart (mach s)) c)"

definition w_csr :: "csr \<Rightarrow> u64 \<Rightarrow> ('x trstate_scheme, unit) thread" where
  "w_csr c v = modify (\<lambda>s. s\<lparr>csrs := (csrs s)(hart (mach s) := (csrs s (hart (mach s)))(c := v))\<rparr>)"

abbreviation (input) SSTATUS_SPP :: u64 where "SSTATUS_SPP \<equiv> 0x100"
abbreviation (input) SSTATUS_SPIE :: u64 where "SSTATUS_SPIE \<equiv> 0x20"
abbreviation (input) SSTATUS_SIE :: u64 where "SSTATUS_SIE \<equiv> 2"

definition r_sstatus :: "('x trstate_scheme, u64) thread" where
  "r_sstatus = bind (r_csr Sstatus) (\<lambda>v. bind intr_get (\<lambda>i.
     ret (if i then v OR SSTATUS_SIE else v AND NOT SSTATUS_SIE)))"

definition w_sstatus :: "u64 \<Rightarrow> ('x trstate_scheme, unit) thread" where
  "w_sstatus v = seq (w_csr Sstatus v) (set_mycpu (\<lambda>c. c\<lparr>sie := bit v 1\<rparr>))"

definition r_satp :: "('x trstate_scheme, u64) thread" where
  "r_satp = gets (\<lambda>s. satp s (hart (mach s)))"

lemma csr_exec [exec_simps]:
  "r_csr c s = Done (csrs s (hart (mach s)) c) s"
  "w_csr c v s = Done () (s\<lparr>csrs := (csrs s)(hart (mach s) := (csrs s (hart (mach s)))(c := v))\<rparr>)"
  "r_satp s = Done (satp s (hart (mach s))) s"
  by (simp_all add: r_csr_def w_csr_def r_satp_def gets_def modify_def)

subsection \<open>sysproc.c\<close>

definition sys_exit :: "('x vstate_scheme, u64) thread" where
  "sys_exit = bind (argint 0) (\<lambda>n. exit n)"

definition sys_getpid :: "('x vstate_scheme, u64) thread" where
  "sys_getpid = bind myproc_ref (\<lambda>p. bind (get_proc p) (\<lambda>q. ret (of_int (pid q))))"

definition sys_fork :: "('x vstate_scheme, u64) thread" where
  "sys_fork = bind fork (\<lambda>r. ret (of_int r))"

definition sys_wait :: "('x vstate_scheme, u64) thread" where
  "sys_wait = bind (argaddr 0) (\<lambda>p. bind (wait p) (\<lambda>r. ret (of_int r)))"

definition sys_sbrk :: "('x vstate_scheme, u64) thread" where
  "sys_sbrk =
     bind (argint 0) (\<lambda>n.
     bind myproc_ref (\<lambda>p.
     bind (get_proc p) (\<lambda>q.
     bind (growproc n) (\<lambda>r.
     if r < 0 then ret (- 1) else ret (sz q)))))"

definition sys_sleep_loop :: "int \<Rightarrow> u32 \<Rightarrow> ('x vstate_scheme, u64) thread" where
  "sys_sleep_loop n ticks0 =
     bind (gets ticks) (\<lambda>now.
     if now - ticks0 < of_int n then
       bind myproc_ref (\<lambda>p.
       bind (killed p) (\<lambda>k.
       if k \<noteq> 0 then seq (release Lk_ticks) (ret (- 1))
       else seq (sleep Ch_ticks Lk_ticks) (ret 0)))
     else seq (release Lk_ticks) (ret 0))"

definition sys_sleep :: "('x vstate_scheme, u64) thread" where
  "sys_sleep =
     bind (argint 0) (\<lambda>n.
     let n = (if n < 0 then 0 else n) in
     seq (acquire Lk_ticks) (
     bind (gets ticks) (\<lambda>ticks0. sys_sleep_loop n ticks0)))"

definition sys_sleep_resume :: "nat \<Rightarrow> int \<Rightarrow> u32 \<Rightarrow> ('x vstate_scheme, u64) thread" where
  "sys_sleep_resume p n ticks0 = seq (sleep_resume p Lk_ticks) (sys_sleep_loop n ticks0)"

definition sys_kill :: "('x vstate_scheme, u64) thread" where
  "sys_kill = bind (argint 0) (\<lambda>n. bind (kill n) (\<lambda>r. ret (of_int r)))"

definition sys_uptime :: "('x vstate_scheme, u64) thread" where
  "sys_uptime =
     seq (acquire Lk_ticks) (
     bind (gets ticks) (\<lambda>xticks.
     seq (release Lk_ticks)
         (ret (of_nat (unat xticks)))))"

subsection \<open>The system call dispatcher\<close>

definition syscalls :: "nat \<Rightarrow> ('x vstate_scheme, u64) thread" where
  "syscalls num = [sys_fork, sys_exit, sys_wait, sys_pipe, sys_read, sys_kill, sys_exec, sys_fstat, sys_chdir, sys_dup,
     sys_getpid, sys_sbrk, sys_sleep, sys_uptime, sys_open, sys_write, sys_mknod, sys_unlink, sys_link, sys_mkdir, sys_close]
     ! (num - 1)"

definition name_chars :: "bytes \<Rightarrow> u8 list" where
  "name_chars b = takeWhile (\<lambda>c. c \<noteq> 0) (map b [0..<16])"

definition syscall :: "('x vstate_scheme, unit) thread" where
  "syscall =
     bind myproc_ref (\<lambda>p.
     bind (get_tf p tf_a7) (\<lambda>a7.
     let num = s32 (unat a7 mod 2 ^ 32) in
     if num > 0 \<and> num < 22 then
       bind (syscalls (nat num)) (\<lambda>v. set_tf p tf_a0 v)
     else
       bind (get_proc p) (\<lambda>q.
       seq (printf (''%d %s: unknown sys call %d'' @ newline)
              [Arg_int (of_int (pid q)), Arg_str (Some (name_chars (pname q))), Arg_int (of_int num)])
           (set_tf p tf_a0 (- 1)))))"

text \<open>A system call that slept stores its result when it returns.\<close>

definition syscall_resume :: "nat \<Rightarrow> ('x vstate_scheme, u64) thread \<Rightarrow> ('x vstate_scheme, unit) thread" where
  "syscall_resume p rest = bind rest (\<lambda>v. set_tf p tf_a0 v)"

subsection \<open>plic.c\<close>


definition PLIC_SENABLE :: "nat \<Rightarrow> u64" where
  "PLIC_SENABLE h = PLIC + 0x2080 + of_nat h * 0x100"

definition PLIC_SPRIORITY :: "nat \<Rightarrow> u64" where
  "PLIC_SPRIORITY h = PLIC + 0x201000 + of_nat h * 0x2000"

definition PLIC_SCLAIM :: "nat \<Rightarrow> u64" where
  "PLIC_SCLAIM h = PLIC + 0x201004 + of_nat h * 0x2000"

definition w_plic :: "u64 \<Rightarrow> u32 \<Rightarrow> ('x trstate_scheme, unit) thread" where
  "w_plic a v = modify (\<lambda>s. s\<lparr>plic_writes := plic_writes s @ [(a, v)]\<rparr>)"

definition plicinit :: "('x trstate_scheme, unit) thread" where
  "plicinit =
     seq (w_plic (PLIC + of_nat UART0_IRQ * 4) 1)
         (w_plic (PLIC + of_nat VIRTIO0_IRQ * 4) 1)"

definition plicinithart :: "('x trstate_scheme, unit) thread" where
  "plicinithart =
     bind cpuid (\<lambda>h.
     seq (w_plic (PLIC_SENABLE h) (push_bit UART0_IRQ 1 OR push_bit VIRTIO0_IRQ 1))
         (w_plic (PLIC_SPRIORITY h) 0))"

definition plic_claim :: "('x trstate_scheme, int) thread" where
  "plic_claim =
     bind cpuid (\<lambda>h.
     bind (gets (\<lambda>s. plic_reg s (PLIC_SCLAIM h))) (\<lambda>irq.
     ret (s32 (unat irq))))"

definition plic_complete :: "int \<Rightarrow> ('x trstate_scheme, unit) thread" where
  "plic_complete irq = bind cpuid (\<lambda>h. w_plic (PLIC_SCLAIM h) (of_int irq))"

subsection \<open>Interrupts\<close>

definition clockintr :: "('x trstate_scheme, unit) thread" where
  "clockintr =
     bind cpuid (\<lambda>h.
     seq (whenM (h = 0) (
            seq (acquire Lk_ticks) (
            seq (modify (\<lambda>s. s\<lparr>ticks := ticks s + 1\<rparr>)) (
            seq (wakeup Ch_ticks)
                (release Lk_ticks))))) (
     bind (r_csr Time) (\<lambda>t. w_csr Stimecmp (t + 1000000))))"

definition devintr :: "('x trstate_scheme, nat) thread" where
  "devintr =
     bind (r_csr Scause) (\<lambda>scause.
     if scause = 0x8000000000000009 then
       bind plic_claim (\<lambda>irq.
       seq (if irq = int UART0_IRQ then uartintr
            else if irq = int VIRTIO0_IRQ then virtio_disk_intr
            else if irq \<noteq> 0 then seq (printf (''unexpected interrupt irq=%d'' @ newline) [Arg_int (of_int irq)]) (ret ())
            else ret ()) (
       seq (whenM (irq \<noteq> 0) (plic_complete irq))
           (ret 1)))
     else if scause = 0x8000000000000005 then seq clockintr (ret 2)
     else ret 0)"

subsection \<open>Traps from user space\<close>

definition trapinit :: "('x trstate_scheme, unit) thread" where
  "trapinit = initlock Lk_ticks ''time''"

definition trapinithart :: "('x trstate_scheme, unit) thread" where
  "trapinithart = bind (gets link_kernelvec) (w_csr Stvec)"

text \<open>The return to user space ends in the jump to the trampoline with the user page table as its argument, which is the result.\<close>

definition usertrapret :: "('x trstate_scheme, u64 \<times> u64) thread" where
  "usertrapret =
     bind myproc_ref (\<lambda>p.
     seq intr_off (
     bind (gets (\<lambda>s. TRAMPOLINE + (link_uservec s - link_trampoline s))) (\<lambda>trampoline_uservec.
     seq (w_csr Stvec trampoline_uservec) (
     bind (get_proc p) (\<lambda>q.
     bind r_satp (\<lambda>k.
     seq (set_tf p 0 k) (
     seq (set_tf p 8 (kstack q + PGSIZE)) (
     bind (gets link_usertrap) (\<lambda>ut.
     seq (set_tf p 16 ut) (
     bind cpuid (\<lambda>h.
     seq (set_tf p 32 (of_nat h)) (
     bind r_sstatus (\<lambda>x.
     seq (w_sstatus ((x AND NOT SSTATUS_SPP) OR SSTATUS_SPIE)) (
     bind (get_tf p tf_epc) (\<lambda>epc.
     seq (w_csr Sepc epc) (
     bind (gets (\<lambda>s. TRAMPOLINE + (link_userret s - link_trampoline s))) (\<lambda>trampoline_userret.
     ret (trampoline_userret, MAKE_SATP (pagetable q)))))))))))))))))))"

text \<open>What follows the handling of the trap: the check of \<^verbatim>\<open>killed\<close>, the yield after a timer interrupt, the return.\<close>

definition usertrap_finish :: "nat \<Rightarrow> nat \<Rightarrow> ('x trstate_scheme, u64 \<times> u64) thread" where
  "usertrap_finish p which_dev =
     bind (killed p) (\<lambda>k.
     seq (whenM (k \<noteq> 0) (exit (- 1))) (
     seq (whenM (which_dev = 2) yield)
         usertrapret))"

definition usertrap :: "('x trstate_scheme, u64 \<times> u64) thread" where
  "usertrap =
     bind r_sstatus (\<lambda>x. if x AND SSTATUS_SPP \<noteq> 0 then panic ''usertrap: not from user mode'' else
     seq (bind (gets link_kernelvec) (w_csr Stvec)) (
     bind myproc_ref (\<lambda>p.
     bind (r_csr Sepc) (\<lambda>sepc.
     seq (set_tf p tf_epc sepc) (
     bind (r_csr Scause) (\<lambda>scause.
     if scause = 8 then
       bind (killed p) (\<lambda>k.
       seq (whenM (k \<noteq> 0) (exit (- 1))) (
       bind (get_tf p tf_epc) (\<lambda>epc.
       seq (set_tf p tf_epc (epc + 4)) (
       seq intr_on (
       seq syscall
           (usertrap_finish p 0))))))
     else
       bind devintr (\<lambda>which_dev.
       if which_dev \<noteq> 0 then usertrap_finish p which_dev else
       bind (get_proc p) (\<lambda>q.
       bind (r_csr Scause) (\<lambda>scause.
       seq (printf (''usertrap(): unexpected scause 0x%lx pid=%d'' @ newline) [Arg_int scause, Arg_int (of_int (pid q))]) (
       bind (r_csr Sepc) (\<lambda>sepc.
       bind (r_csr Stval) (\<lambda>stval.
       seq (printf (''            sepc=0x%lx stval=0x%lx'' @ newline) [Arg_int sepc, Arg_int stval]) (
       seq (setkilled p)
           (usertrap_finish p 0))))))))))))))"

definition usertrap_yield_resume :: "nat \<Rightarrow> ('x trstate_scheme, u64 \<times> u64) thread" where
  "usertrap_yield_resume p = seq (yield_resume p) usertrapret"

definition usertrap_syscall_resume :: "nat \<Rightarrow> ('x trstate_scheme, u64) thread \<Rightarrow> ('x trstate_scheme, u64 \<times> u64) thread" where
  "usertrap_syscall_resume p rest = seq (bind rest (\<lambda>v. set_tf p tf_a0 v)) (usertrap_finish p 0)"

definition forkret :: "('x trstate_scheme, u64 \<times> u64) thread" where
  "forkret =
     bind myproc_ref (\<lambda>p.
     seq (release (Lk_proc p)) (
     bind (gets forkret_first) (\<lambda>first.
     seq (whenM first (
            seq (fsinit 1)
                (modify (\<lambda>s. s\<lparr>forkret_first := False\<rparr>))))
         usertrapret)))"

subsection \<open>Traps from the kernel\<close>

definition kerneltrap_end :: "u64 \<Rightarrow> u64 \<Rightarrow> ('x trstate_scheme, unit) thread" where
  "kerneltrap_end sepc sstatus = seq (w_csr Sepc sepc) (w_sstatus sstatus)"

definition kerneltrap :: "('x trstate_scheme, unit) thread" where
  "kerneltrap =
     bind (r_csr Sepc) (\<lambda>sepc.
     bind r_sstatus (\<lambda>sstatus.
     bind (r_csr Scause) (\<lambda>scause.
     if sstatus AND SSTATUS_SPP = 0 then panic ''kerneltrap: not from supervisor mode'' else
     bind intr_get (\<lambda>i. if i then panic ''kerneltrap: interrupts enabled'' else
     bind devintr (\<lambda>which_dev.
     if which_dev = 0 then
       bind (r_csr Sepc) (\<lambda>pc.
       bind (r_csr Stval) (\<lambda>stval.
       seq (printf (''scause=0x%lx sepc=0x%lx stval=0x%lx'' @ newline) [Arg_int scause, Arg_int pc, Arg_int stval])
           (panic ''kerneltrap'')))
     else
       bind myproc (\<lambda>me.
       seq (whenM (which_dev = 2 \<and> me \<noteq> None) yield)
           (kerneltrap_end sepc sstatus)))))))"

definition kerneltrap_resume :: "nat \<Rightarrow> u64 \<Rightarrow> u64 \<Rightarrow> ('x trstate_scheme, unit) thread" where
  "kerneltrap_resume p sepc sstatus = seq (yield_resume p) (kerneltrap_end sepc sstatus)"

subsection \<open>Booting\<close>

definition timerinit :: "('x trstate_scheme, unit) thread" where
  "timerinit =
     bind (r_csr Mie) (\<lambda>m. seq (w_csr Mie (m OR 0x20)) (
     bind (r_csr Menvcfg) (\<lambda>e. seq (w_csr Menvcfg (e OR push_bit 63 1)) (
     bind (r_csr Mcounteren) (\<lambda>c. seq (w_csr Mcounteren (c OR 2)) (
     bind (r_csr Time) (\<lambda>t. w_csr Stimecmp (t + 1000000))))))))"

definition w_tp :: "nat \<Rightarrow> ('x kstate_scheme, unit) thread" where
  "w_tp h = modify (\<lambda>s. s\<lparr>mach := (mach s)\<lparr>hart := h\<rparr>\<rparr>)"

text \<open>\<^verbatim>\<open>start\<close> runs in machine mode on the hart with the given number, which its thread pointer does not yet hold.\<close>

definition on_boot_hart :: "nat \<Rightarrow> ('x kstate_scheme, 'a) thread \<Rightarrow> ('x kstate_scheme, 'a) thread" where
  "on_boot_hart h m = seq (w_tp h) m"

definition start :: "nat \<Rightarrow> ('x trstate_scheme, unit) thread" where
  "start h = on_boot_hart h (
     bind (r_csr Mstatus) (\<lambda>x.
     seq (w_csr Mstatus ((x AND NOT (push_bit 11 3)) OR push_bit 11 1)) (
     bind (gets link_main) (\<lambda>mn.
     seq (w_csr Mepc mn) (
     seq (modify (\<lambda>s. s\<lparr>satp := (satp s)(hart (mach s) := 0)\<rparr>)) (
     seq (w_csr Medeleg 0xffff) (
     seq (w_csr Mideleg 0xffff) (
     bind (r_csr Sie) (\<lambda>e.
     seq (w_csr Sie (e OR 0x200 OR 0x20 OR 2)) (
     seq (w_csr Pmpaddr0 0x3fffffffffffff) (
     seq (w_csr Pmpcfg0 0xf) (
     seq timerinit (
     bind (r_csr Mhartid) (\<lambda>hid.
     w_tp (unat hid)))))))))))))))"

text \<open>
  The scheduler: one pass over the table, from a slot on. With nothing found it waits for an interrupt;
  after a pass that found a process it begins another.
\<close>

definition scheduler_wait :: "('x pkstate_scheme, unit) thread" where
  "scheduler_wait = seq intr_on spin"

definition scheduler_pass :: "nat \<Rightarrow> ('x pkstate_scheme, unit) thread \<Rightarrow> ('x pkstate_scheme, unit) thread" where
  "scheduler_pass from after =
     bind (scheduler_scan from) (\<lambda>r. case r of
       Some p \<Rightarrow> (\<lambda>s. Swtch s)
     | None \<Rightarrow> after)"

definition scheduler :: "('x pkstate_scheme, unit) thread" where
  "scheduler = seq scheduler_start (scheduler_pass 0 scheduler_wait)"

definition scheduler_resume :: "nat \<Rightarrow> ('x pkstate_scheme, unit) thread" where
  "scheduler_resume p =
     seq (scheduler_back p)
         (scheduler_pass (Suc p) (seq intr_on (scheduler_pass 0 scheduler_wait)))"

definition main :: "('x trstate_scheme, unit) thread" where
  "main =
     bind cpuid (\<lambda>h.
     seq (if h = 0 then
       seq consoleinit (
       seq printfinit (
       bind (printf newline []) (\<lambda>_.
       bind (printf (''xv6 kernel is booting'' @ newline) []) (\<lambda>_.
       bind (printf newline []) (\<lambda>_.
       seq kinit (
       bind (gets link_etext) (\<lambda>etext.
       bind (gets link_trampoline) (\<lambda>tramp.
       seq (kvminit etext tramp) (
       seq kvminithart (
       seq procinit (
       seq trapinit (
       seq trapinithart (
       seq plicinit (
       seq plicinithart (
       seq binit (
       seq iinit (
       seq fileinit (
       seq virtio_disk_init (
       seq userinit
           (modify (\<lambda>s. s\<lparr>started := True\<rparr>)))))))))))))))))))))
     else
       bind (gets started) (\<lambda>st.
       if \<not> st then spin else
       bind cpuid (\<lambda>h.
       bind (printf (''hart %d starting'' @ newline) [Arg_int (of_nat h)]) (\<lambda>_.
       seq kvminithart (
       seq trapinithart
           plicinithart)))))
     scheduler)"

end
