(* ===== verification/Virtio_Spec.thy ===== *)
theory Virtio_Spec
  imports Virtio
begin

unbundle bit_operations_syntax

text \<open>
  What the disk driver guarantees: the requests it hands to the device, and that a request, its service by
  the device, the interrupt and the resumption of the caller together are the transfer of one block that
  the buffer cache relies on.
\<close>

subsection \<open>Descriptors\<close>

definition free_descs :: "vdisk \<Rightarrow> nat list" where
  "free_descs d = filter (vd_free d) [0..<NUM]"

lemma find_filter: "find P xs = (case filter P xs of [] \<Rightarrow> None | x # _ \<Rightarrow> Some x)"
  by (induction xs) auto

lemma filter_upd: "distinct xs \<Longrightarrow> filter P xs = i # ys \<Longrightarrow> filter (P(i := False)) xs = ys"
proof (induction xs)
  case (Cons x xs)
  show ?case
  proof (cases "P x")
    case True
    then have "i = x" "ys = filter P xs" "x \<notin> set xs" using Cons.prems by auto
    then show ?thesis by (auto simp: True intro!: filter_cong)
  next
    case False
    then show ?thesis using Cons by auto
  qed
qed simp

lemma alloc_desc_exec:
  assumes "free_descs (vdisk s) = i # is"
  shows "alloc_desc s = Done (Some i) (s\<lparr>vdisk := (vdisk s)\<lparr>vd_free := (vd_free (vdisk s))(i := False)\<rparr>\<rparr>)"
    "free_descs ((vdisk s)\<lparr>vd_free := (vd_free (vdisk s))(i := False)\<rparr>) = is"
    "i < NUM" "vd_free (vdisk s) i" "i \<notin> set is"
proof -
  have f: "find (vd_free (vdisk s)) [0..<NUM] = Some i"
    using assms by (simp only: find_filter free_descs_def list.case)
  then show "alloc_desc s = Done (Some i) (s\<lparr>vdisk := (vdisk s)\<lparr>vd_free := (vd_free (vdisk s))(i := False)\<rparr>\<rparr>)"
    by (simp only: alloc_desc_def bind_exec vd_exec option.case outcome.case seq_exec ret_exec)
  show "free_descs ((vdisk s)\<lparr>vd_free := (vd_free (vdisk s))(i := False)\<rparr>) = is"
    using filter_upd [of "[0..<NUM]" "vd_free (vdisk s)"] assms by (simp only: free_descs_def) simp
  have "distinct (free_descs (vdisk s))" by (simp add: free_descs_def del: upt_rec_numeral)
  then show "i \<notin> set is" using assms by simp
  have "i \<in> set (free_descs (vdisk s))" using assms by simp
  then show "i < NUM" "vd_free (vdisk s) i" by (auto simp: free_descs_def simp del: upt_rec_numeral)
qed

lemma alloc3_desc_exec:
  assumes "free_descs (vdisk s) = i0 # i1 # i2 # rest"
  shows "alloc3_desc s = Done (Some (i0, i1, i2))
      (s\<lparr>vdisk := (vdisk s)\<lparr>vd_free := (vd_free (vdisk s))(i0 := False, i1 := False, i2 := False)\<rparr>\<rparr>)"
    "distinct [i0, i1, i2]" "{i0, i1, i2} \<subseteq> {i. i < NUM \<and> vd_free (vdisk s) i}"
proof -
  let ?s1 = "s\<lparr>vdisk := (vdisk s)\<lparr>vd_free := (vd_free (vdisk s))(i0 := False)\<rparr>\<rparr>"
  let ?s2 = "?s1\<lparr>vdisk := (vdisk ?s1)\<lparr>vd_free := (vd_free (vdisk ?s1))(i1 := False)\<rparr>\<rparr>"
  note a0 = alloc_desc_exec [OF assms]
  have f1: "free_descs (vdisk ?s1) = i1 # i2 # rest" using a0(2) by simp
  note a1 = alloc_desc_exec [OF f1]
  have f2: "free_descs (vdisk ?s2) = i2 # rest" using a1(2) by simp
  note a2 = alloc_desc_exec [OF f2]
  show "alloc3_desc s = Done (Some (i0, i1, i2))
      (s\<lparr>vdisk := (vdisk s)\<lparr>vd_free := (vd_free (vdisk s))(i0 := False, i1 := False, i2 := False)\<rparr>\<rparr>)"
    by (simp add: alloc3_desc_def bind_exec a0(1) a1(1) a2(1) [simplified] ret_exec)
  show "distinct [i0, i1, i2]" "{i0, i1, i2} \<subseteq> {i. i < NUM \<and> vd_free (vdisk s) i}"
    using a0(3-5) a1(3-5) a2(3-5) by (auto split: if_splits)
qed

subsection \<open>Requests\<close>

text \<open>The descriptor tables after a request for a buffer has been made with the given descriptors.\<close>

definition requested :: "nat \<Rightarrow> bool \<Rightarrow> nat \<Rightarrow> nat \<Rightarrow> nat \<Rightarrow> nat \<Rightarrow> vdisk \<Rightarrow> vdisk" where
  "requested b wrt n i0 i1 i2 d = d\<lparr>
     vd_free := (vd_free d)(i0 := False, i1 := False, i2 := False),
     ops := (ops d)(i0 := \<lparr>req_type = (if wrt then 1 else 0), req_sector = (n * 2) mod 2 ^ 32\<rparr>),
     vd_desc := (vd_desc d)(
       i0 := \<lparr>d_addr = A_ops i0, d_len = 16, d_flags = 1, d_next = i1\<rparr>,
       i1 := \<lparr>d_addr = A_data b, d_len = BSIZE, d_flags = (if wrt then 0 else 2) OR 1, d_next = i2\<rparr>,
       i2 := \<lparr>d_addr = A_status i0, d_len = 1, d_flags = 2, d_next = 0\<rparr>),
     info_status := (info_status d)(i0 := 0xff),
     info_b := (info_b d)(i0 := Some b),
     avail_ring := (avail_ring d)(unat (avail_idx d mod of_nat NUM) := i0),
     avail_idx := avail_idx d + 1,
     vreg_writes := vreg_writes d @ [(0x050, 0)]\<rparr>"

lemma virtio_submit_exec:
  fixes s :: "'x vstate_scheme"
  assumes "distinct [i0, i1, i2]"
  shows "virtio_submit b wrt (i0, i1, i2) (s\<lparr>vdisk := d\<lparr>vd_free := (vd_free d)(i0 := False, i1 := False, i2 := False)\<rparr>\<rparr>) =
    Done () (s\<lparr>bufs := (bufs s)(b := (bufs s b)\<lparr>bdisk := True\<rparr>), vdisk := requested b wrt (bblockno (bufs s b)) i0 i1 i2 d\<rparr>)"
  by (cases s; cases d) (simp add: virtio_submit_def write_R_def exec_simps requested_def)

lemma virtio_disk_rw_sleeps:
  fixes s :: "'x vstate_scheme"
  assumes q: "quiet p s" "noff (this_cpu (mach s)) = 0" and f: "free_descs (vdisk s) = i0 # i1 # i2 # rest"
  shows "virtio_disk_rw b wrt s = Swtch (s\<lparr>
    bufs := (bufs s)(b := (bufs s b)\<lparr>bdisk := True\<rparr>),
    vdisk := requested b wrt (bblockno (bufs s b)) i0 i1 i2 (vdisk s),
    mach := acq (Lk_proc p) (mach s),
    procs := (procs s)(p := (procs s p)\<lparr>chan := Some (Ch_buf b), pstate := SLEEPING, k_intena := sie (this_cpu (mach s))\<rparr>)\<rparr>)"
proof -
  let ?a = "s\<lparr>mach := acq Lk_vdisk (mach s)\<rparr>"
  let ?r = "?a\<lparr>bufs := (bufs s)(b := (bufs s b)\<lparr>bdisk := True\<rparr>), vdisk := requested b wrt (bblockno (bufs s b)) i0 i1 i2 (vdisk s)\<rparr>"
  have fa: "free_descs (vdisk ?a) = i0 # i1 # i2 # rest" using f by simp
  note al = alloc3_desc_exec [OF fa]
  have sub: "virtio_submit b wrt (i0, i1, i2) (?a\<lparr>vdisk := (vdisk ?a)\<lparr>vd_free := (vd_free (vdisk ?a))(i0 := False, i1 := False, i2 := False)\<rparr>\<rparr>) = Done () ?r"
    using virtio_submit_exec [OF al(2), where s = ?a and d = "vdisk ?a"] by simp
  have "virtio_disk_rw b wrt s = virtio_disk_rw_loop b wrt ?a"
    using quietD [OF q(1)] by (simp add: virtio_disk_rw_def exec_simps)
  also have "\<dots> = virtio_wait b i0 ?r"
    unfolding virtio_disk_rw_loop_def by (simp only: bind_exec al(1) outcome.case option.case seq_exec sub fst_conv)
  also have "\<dots> = sleep (Ch_buf b) Lk_vdisk ?r"
    by (simp add: virtio_wait_def exec_simps)
  also have "\<dots> = Swtch (?r\<lparr>mach := rel Lk_vdisk (acq (Lk_proc p) (settle (mach ?r))),
      procs := (procs ?r)(p := (procs ?r p)\<lparr>chan := Some (Ch_buf b), pstate := SLEEPING, k_intena := intena (this_cpu (mach ?r))\<rparr>)\<rparr>)"
    by (rule sleep_exec) (use q quietD [OF q(1)] noff_acq [of Lk_vdisk "mach s"] in \<open>simp_all add: lock_simps\<close>)
  also have "rel Lk_vdisk (acq (Lk_proc p) (settle (mach ?r))) = acq (Lk_proc p) (mach s)"
    using quietD [OF q(1)] by (simp add: lock_simps)
  also have "intena (this_cpu (mach ?r)) = sie (this_cpu (mach s))"
    using q(2) by (simp add: acq_def)
  finally show ?thesis by (simp add: fun_upd_def)
qed

subsection \<open>Completion\<close>

definition null_desc :: virtq_desc where
  "null_desc = \<lparr>d_addr = A_null, d_len = 0, d_flags = 0, d_next = 0\<rparr>"

lemma free_desc_exec:
  assumes "mach_ok (mach s)" "table_free (cpu_proc (this_cpu (mach s))) (mach s)" "i < NUM" "\<not> vd_free (vdisk s) i"
  shows "\<exists>t. free_desc i s = Done () t \<and> mach t = settle (mach s) \<and>
    vdisk t = (vdisk s)\<lparr>vd_desc := (vd_desc (vdisk s))(i := null_desc), vd_free := (vd_free (vdisk s))(i := True)\<rparr> \<and>
    (bufs t, disk t, dtrace t) = (bufs s, disk s, dtrace s) \<and>
    (\<forall>q. cpu_proc (this_cpu (mach s)) = Some q \<longrightarrow> procs t q = procs s q)"
  using assms by (simp add: free_desc_def exec_simps null_desc_def)

lemma free_chain_exec:
  fixes s :: "'x vstate_scheme"
  defines "d \<equiv> vdisk s"
  assumes m: "mach_ok (mach s)" "table_free (cpu_proc (this_cpu (mach s))) (mach s)" "settle (mach s) = mach s"
    and i: "distinct [i0, i1, i2]" "\<forall>i \<in> {i0, i1, i2}. i < NUM \<and> \<not> vd_free d i"
    and c: "bit (d_flags (vd_desc d i0)) 0" "d_next (vd_desc d i0) = i1" "bit (d_flags (vd_desc d i1)) 0"
      "d_next (vd_desc d i1) = i2" "\<not> bit (d_flags (vd_desc d i2)) 0"
  shows "\<exists>t. free_chain i0 s = Done () t \<and> mach t = mach s \<and>
    vdisk t = d\<lparr>vd_desc := (vd_desc d)(i0 := null_desc, i1 := null_desc, i2 := null_desc), vd_free := (vd_free d)(i0 := True, i1 := True, i2 := True)\<rparr> \<and>
    (bufs t, disk t, dtrace t) = (bufs s, disk s, dtrace s) \<and>
    (\<forall>q. cpu_proc (this_cpu (mach s)) = Some q \<longrightarrow> procs t q = procs s q)"
proof -
  let ?fr = "\<lambda>i (v :: vdisk). v\<lparr>vd_desc := (vd_desc v)(i := null_desc), vd_free := (vd_free v)(i := True)\<rparr>"
  obtain s1 where s1: "free_desc i0 s = Done () s1" "mach s1 = mach s" "vdisk s1 = ?fr i0 d"
      "(bufs s1, disk s1, dtrace s1) = (bufs s, disk s, dtrace s)"
      "\<And>q. cpu_proc (this_cpu (mach s)) = Some q \<Longrightarrow> procs s1 q = procs s q"
    using free_desc_exec [of s i0] m i by (auto simp: d_def)
  obtain s2 where s2: "free_desc i1 s1 = Done () s2" "mach s2 = mach s" "vdisk s2 = ?fr i1 (vdisk s1)"
      "(bufs s2, disk s2, dtrace s2) = (bufs s1, disk s1, dtrace s1)"
      "\<And>q. cpu_proc (this_cpu (mach s)) = Some q \<Longrightarrow> procs s2 q = procs s1 q"
    using free_desc_exec [of s1 i1] m i s1(2,3) by (auto simp: d_def)
  obtain s3 where s3: "free_desc i2 s2 = Done () s3" "mach s3 = mach s" "vdisk s3 = ?fr i2 (vdisk s2)"
      "(bufs s3, disk s3, dtrace s3) = (bufs s2, disk s2, dtrace s2)"
      "\<And>q. cpu_proc (this_cpu (mach s)) = Some q \<Longrightarrow> procs s3 q = procs s2 q"
    using free_desc_exec [of s2 i2] m i s1(2,3) s2(2,3) by (auto simp: d_def)
  have "free_chain i0 s = Done () s3"
    using c i(1) by (simp add: free_chain_def eval_nat_numeral exec_simps s1(1,3) s2(1,3) s3(1) d_def [symmetric])
  then show ?thesis using s1 s2 s3 by auto
qed

text \<open>The buffers of the completed requests that the driver has not yet looked at.\<close>

definition completed :: "vdisk \<Rightarrow> nat \<Rightarrow> nat" where
  "completed d j = used_ring d (unat ((used_idx d + of_nat j) mod of_nat NUM))"

definition pending :: "vdisk \<Rightarrow> nat" where
  "pending d = unat (used_ring_idx d - used_idx d)"

definition woken_bufs :: "nat set \<Rightarrow> proc \<Rightarrow> proc" where
  "woken_bufs B q = (if pstate q = SLEEPING \<and> (\<exists>b \<in> B. chan q = Some (Ch_buf b)) then q\<lparr>pstate := RUNNABLE\<rparr> else q)"

lemma completed_Suc: "completed (d\<lparr>used_idx := used_idx d + 1\<rparr>) j = completed d (Suc j)"
  by (simp add: completed_def add.assoc)

lemma vreg_writes_simps [simp]:
  "completed (d\<lparr>vreg_writes := w\<rparr>) j = completed d j" "pending (d\<lparr>vreg_writes := w\<rparr>) = pending d"
  by (simp_all add: completed_def pending_def)

lemma pending_Suc: "pending d = Suc n \<Longrightarrow> used_idx d \<noteq> used_ring_idx d \<and> pending (d\<lparr>used_idx := used_idx d + 1\<rparr>) = n"
proof
  assume n: "pending d = Suc n"
  then have z: "used_ring_idx d - used_idx d \<noteq> 0" by (metis Suc_neq_Zero pending_def unat_0)
  then show "used_idx d \<noteq> used_ring_idx d" by auto
  show "pending (d\<lparr>used_idx := used_idx d + 1\<rparr>) = n"
    using n unat_minus_one [OF z] by (simp add: pending_def diff_diff_add [symmetric])
qed

lemma woken_bufs_insert: "woken_bufs B (woken (Ch_buf b) q) = woken_bufs (insert b B) q"
  by (auto simp: woken_bufs_def woken_def)

declare virtio_intr_loop.simps(2) [simp del]

lemma virtio_intr_loop_exec:
  fixes s :: "'x vstate_scheme"
  assumes "mach_ok (mach s)" "table_free (cpu_proc (this_cpu (mach s))) (mach s)" "settle (mach s) = mach s"
    and "pending (vdisk s) = n" "\<forall>j < n. info_status (vdisk s) (completed (vdisk s) j) = 0"
    and "\<forall>j < n. info_b (vdisk s) (completed (vdisk s) j) = Some (bb j)"
  shows "\<exists>t. virtio_intr_loop (Suc n) s = Done () t \<and> mach t = mach s \<and>
    vdisk t = (vdisk s)\<lparr>used_idx := used_ring_idx (vdisk s)\<rparr> \<and> (disk t, dtrace t) = (disk s, dtrace s) \<and>
    (\<forall>b. bufs t b = (if b \<in> bb ` {..<n} then (bufs s b)\<lparr>bdisk := False\<rparr> else bufs s b)) \<and>
    (\<forall>q. procs t q = (if q < NPROC \<and> cpu_proc (this_cpu (mach s)) \<noteq> Some q then woken_bufs (bb ` {..<n}) (procs s q) else procs s q))"
  using assms
proof (induction n arbitrary: s bb)
  case 0
  then have "used_idx (vdisk s) = used_ring_idx (vdisk s)" by (simp add: pending_def unat_eq_zero)
  then show ?case by (simp add: virtio_intr_loop.simps(2) exec_simps woken_bufs_def)
next
  case (Suc n)
  let ?d = "vdisk s" and ?B = "(\<lambda>j. bb (Suc j)) ` {..<n}"
  let ?me = "cpu_proc (this_cpu (mach s))"
  let ?d1 = "?d\<lparr>used_idx := used_idx ?d + 1\<rparr>"
  note u = pending_Suc [OF Suc.prems(4)]
  have c0: "used_ring ?d (unat (used_idx ?d mod of_nat NUM)) = completed ?d 0" by (simp add: completed_def)
  define t where "t = s\<lparr>bufs := (bufs s)(bb 0 := (bufs s (bb 0))\<lparr>bdisk := False\<rparr>), mach := mach s,
    procs := (\<lambda>q. if q < NPROC \<and> ?me \<noteq> Some q then woken (Ch_buf (bb 0)) (procs s q) else procs s q), vdisk := ?d1\<rparr>"
  have wk: "wakeup (Ch_buf b) v = Done () (v\<lparr>mach := mach s, procs := (\<lambda>q. if q < NPROC \<and> ?me \<noteq> Some q then woken (Ch_buf b) (procs v q) else procs v q)\<rparr>)"
    if "mach v = mach s" for b and v :: "'x vstate_scheme"
    using wakeup_exec [of v "Ch_buf b"] Suc.prems(1-3) that by simp
  have run: "virtio_intr_loop (Suc (Suc n)) s = virtio_intr_loop (Suc n) t"
    using u Suc.prems(5) [rule_format, of 0] Suc.prems(6) [rule_format, of 0] c0
    by (simp add: virtio_intr_loop.simps(2) [of "Suc n"] exec_simps wk t_def Let_def cong: if_cong)
  obtain v where v: "virtio_intr_loop (Suc n) t = Done () v \<and> mach v = mach t \<and>
    vdisk v = (vdisk t)\<lparr>used_idx := used_ring_idx (vdisk t)\<rparr> \<and> (disk v, dtrace v) = (disk t, dtrace t) \<and>
    (\<forall>b. bufs v b = (if b \<in> ?B then (bufs t b)\<lparr>bdisk := False\<rparr> else bufs t b)) \<and>
    (\<forall>q. procs v q = (if q < NPROC \<and> cpu_proc (this_cpu (mach t)) \<noteq> Some q then woken_bufs ?B (procs t q) else procs t q))"
    using Suc.IH [of t "\<lambda>j. bb (Suc j)"] Suc.prems u by (auto simp: t_def completed_Suc)
  have B: "bb ` {..<Suc n} = insert (bb 0) ?B" by (simp add: lessThan_Suc_eq_insert_0 image_image)
  show ?case unfolding run B
    by (rule exI [of _ v]) (use v in \<open>simp add: t_def woken_bufs_insert\<close>)
qed

lemma virtio_disk_intr_exec:
  fixes s :: "'x vstate_scheme"
  assumes m: "mach_ok (mach s)" "lk_free Lk_vdisk (mach s)" "table_free (cpu_proc (this_cpu (mach s))) (mach s)"
    and ok: "\<forall>j < pending (vdisk s). info_status (vdisk s) (completed (vdisk s) j) = 0"
      "\<forall>j < pending (vdisk s). info_b (vdisk s) (completed (vdisk s) j) = Some (bb j)"
  shows "\<exists>t. virtio_disk_intr s = Done () t \<and> mach t = settle (mach s) \<and>
    vdisk t = (vdisk s)\<lparr>vreg_writes := vreg_writes (vdisk s) @ [(0x064, vreg (vdisk s) 0x060 AND 3)], used_idx := used_ring_idx (vdisk s)\<rparr> \<and>
    (disk t, dtrace t) = (disk s, dtrace s) \<and>
    (\<forall>b. bufs t b = (if b \<in> bb ` {..<pending (vdisk s)} then (bufs s b)\<lparr>bdisk := False\<rparr> else bufs s b)) \<and>
    (\<forall>q. procs t q = (if q < NPROC \<and> cpu_proc (this_cpu (mach s)) \<noteq> Some q
       then woken_bufs (bb ` {..<pending (vdisk s)}) (procs s q) else procs s q))"
proof -
  let ?a = "s\<lparr>mach := acq Lk_vdisk (mach s), vdisk := (vdisk s)\<lparr>vreg_writes := vreg_writes (vdisk s) @ [(0x064, vreg (vdisk s) 0x060 AND 3)]\<rparr>\<rparr>"
  let ?n = "pending (vdisk s)"
  have n: "pending (vdisk ?a) = ?n" by simp
  have "mach_ok (mach ?a)" "table_free (cpu_proc (this_cpu (mach ?a))) (mach ?a)" "settle (mach ?a) = mach ?a"
    using m by (simp_all add: lock_simps table_free_def)
  note loop = virtio_intr_loop_exec [OF this n, of bb]
  obtain t where t: "virtio_intr_loop (Suc ?n) ?a = Done () t" "mach t = mach ?a" "vdisk t = (vdisk ?a)\<lparr>used_idx := used_ring_idx (vdisk ?a)\<rparr>"
    "(disk t, dtrace t) = (disk s, dtrace s)"
    "\<And>b. bufs t b = (if b \<in> bb ` {..<?n} then (bufs s b)\<lparr>bdisk := False\<rparr> else bufs s b)"
    "\<And>q. procs t q = (if q < NPROC \<and> cpu_proc (this_cpu (mach ?a)) \<noteq> Some q then woken_bufs (bb ` {..<?n}) (procs s q) else procs s q)"
    using loop ok by auto
  have "virtio_disk_intr s = seq (virtio_intr_loop (Suc ?n)) (release Lk_vdisk) ?a"
    using m by (simp add: virtio_disk_intr_def read_R_def write_R_def exec_simps pending_def)
  also have "\<dots> = Done () (t\<lparr>mach := settle (mach s)\<rparr>)"
    using t(1,2) m by (simp add: exec_simps lock_simps)
  finally show ?thesis using t by (simp add: lock_simps)
qed

subsection \<open>The device\<close>

text \<open>
  The device, as the virtio specification describes it: it has taken the entries of the available ring up to \<open>seen\<close>, has
  looked at the first \<open>noticed\<close> writes to its registers for notifications, and has raised its last interrupt after the
  first \<open>raised\<close> writes, if any.
\<close>

record device =
  seen :: u16
  noticed :: nat
  raised :: "nat option"

text \<open>There is a write of queue 0 to the register \<^verbatim>\<open>QUEUE_NOTIFY\<close> that the device has not looked at.\<close>

definition notified :: "device \<Rightarrow> vdisk \<Rightarrow> bool" where
  "notified v d = ((0x050, 0) \<in> set (drop (noticed v) (vreg_writes d)))"

text \<open>The last interrupt has been acknowledged in the register \<^verbatim>\<open>INTERRUPT_ACK\<close>: only then the device can raise another.\<close>

definition acked :: "device \<Rightarrow> vdisk \<Rightarrow> bool" where
  "acked v d = (case raised v of None \<Rightarrow> True | Some k \<Rightarrow> \<exists>(r, w) \<in> set (drop k (vreg_writes d)). r = 0x064 \<and> bit w 0)"

definition device_idle :: "device \<Rightarrow> vdisk \<Rightarrow> bool" where
  "device_idle v d = (seen v = avail_idx d \<and> noticed v \<le> length (vreg_writes d) \<and> \<not> notified v d \<and> acked v d)"

text \<open>The layout of a request for a block: a header and a data area that the device reads or writes, and a status byte that it writes.\<close>

definition request_layout :: "virtq_desc \<Rightarrow> virtq_desc \<Rightarrow> virtq_desc \<Rightarrow> bool" where
  "request_layout e0 e1 e2 =
     (d_len e0 = 16 \<and> bit (d_flags e0) 0 \<and> \<not> bit (d_flags e0) 1 \<and>
      d_len e1 = BSIZE \<and> bit (d_flags e1) 0 \<and>
      d_len e2 = 1 \<and> \<not> bit (d_flags e2) 0 \<and> bit (d_flags e2) 1)"

text \<open>
  The device, once notified, takes the next entry of the available ring, if there is one. It follows the chain of
  descriptors that begins there, transfers the block between the disk and the memory that the second descriptor names, from
  the disk if that descriptor lets the device write, stores status 0, puts the request on the used ring and
  raises an interrupt. A request that was not put on the available ring, or of which the device was not told, is not served, and neither is
  one whose descriptors do not have the layout of the specification.
\<close>

definition device_served :: "device \<Rightarrow> 'x vstate_scheme \<Rightarrow> device \<Rightarrow> 'x vstate_scheme \<Rightarrow> bool" where
  "device_served v s v' t =
     (let d = vdisk s; i0 = avail_ring d (unat (seen v mod of_nat NUM));
          e0 = vd_desc d i0; e1 = vd_desc d (d_next e0); e2 = vd_desc d (d_next e1) in
      notified v d \<and> seen v \<noteq> avail_idx d \<and> request_layout e0 e1 e2 \<and>
      v' = \<lparr>seen = seen v + 1, noticed = (if seen v + 1 = avail_idx d then length (vreg_writes d) else noticed v),
            raised = Some (length (vreg_writes d))\<rparr> \<and>
      (case (d_addr e0, d_addr e1, d_addr e2) of
        (A_ops r, A_data b, A_status k) \<Rightarrow>
          let n = req_sector (ops d r) div 2; d' = d\<lparr>info_status := (info_status d)(k := 0),
                used_ring := (used_ring d)(unat (used_ring_idx d mod of_nat NUM) := i0), used_ring_idx := used_ring_idx d + 1,
                vreg := (vreg d)(0x060 := vreg d 0x060 OR 1)\<rparr>
          in even (req_sector (ops d r)) \<and>
            (if bit (d_flags e1) 1 \<and> req_type (ops d r) = 0
             then t = s\<lparr>vdisk := d', bufs := (bufs s)(b := (bufs s b)\<lparr>bdata := blit (d_len e1) (disk s n) 0 0 (bdata (bufs s b))\<rparr>)\<rparr>
             else if \<not> bit (d_flags e1) 1 \<and> req_type (ops d r) = 1
             then t = s\<lparr>vdisk := d', disk := (disk s)(n := blit (d_len e1) (bdata (bufs s b)) 0 0 (disk s n)),
                      dtrace := dtrace s @ [(n, trunc (bdata (bufs s b)))]\<rparr>
             else False)
      | _ \<Rightarrow> False))"

text \<open>The driver's tables after the device has served the request that begins at a descriptor.\<close>

definition served :: "nat \<Rightarrow> vdisk \<Rightarrow> vdisk" where
  "served i0 d = d\<lparr>info_status := (info_status d)(i0 := 0),
     used_ring := (used_ring d)(unat (used_ring_idx d mod of_nat NUM) := i0), used_ring_idx := used_ring_idx d + 1,
     vreg := (vreg d)(0x060 := vreg d 0x060 OR 1)\<rparr>"

lemma device_served_requested:
  assumes "vdisk s = requested b wrt n i0 i1 i2 d" "distinct [i0, i1, i2]" "2 * n < 2 ^ 32" "device_idle v d"
  shows "device_served v s v' t \<longleftrightarrow>
    v' = \<lparr>seen = seen v + 1, noticed = length (vreg_writes (vdisk s)), raised = Some (length (vreg_writes (vdisk s)))\<rparr> \<and>
    t = (if wrt then s\<lparr>vdisk := served i0 (vdisk s), disk := (disk s)(n := blit BSIZE (bdata (bufs s b)) 0 0 (disk s n)),
           dtrace := dtrace s @ [(n, trunc (bdata (bufs s b)))]\<rparr>
         else s\<lparr>vdisk := served i0 (vdisk s), bufs := (bufs s)(b := (bufs s b)\<lparr>bdata := blit BSIZE (disk s n) 0 0 (bdata (bufs s b))\<rparr>)\<rparr>)"
proof -
  have v: "seen v = avail_idx d" "noticed v \<le> length (vreg_writes d)" using assms(4) by (simp_all add: device_idle_def)
  have i0: "avail_ring (vdisk s) (unat (seen v mod of_nat NUM)) = i0" "notified v (vdisk s)" "seen v \<noteq> avail_idx (vdisk s)" "avail_idx (vdisk s) = seen v + 1"
    using v by (simp_all add: assms(1) requested_def notified_def)
  have e: "vd_desc (vdisk s) i0 = \<lparr>d_addr = A_ops i0, d_len = 16, d_flags = 1, d_next = i1\<rparr>"
      "vd_desc (vdisk s) i1 = \<lparr>d_addr = A_data b, d_len = BSIZE, d_flags = (if wrt then 0 else 2) OR 1, d_next = i2\<rparr>"
      "vd_desc (vdisk s) i2 = \<lparr>d_addr = A_status i0, d_len = 1, d_flags = 2, d_next = 0\<rparr>"
      "ops (vdisk s) i0 = \<lparr>req_type = (if wrt then 1 else 0), req_sector = n * 2\<rparr>"
    using assms(2,3) by (simp_all add: assms(1) requested_def)
  show ?thesis
    unfolding device_served_def Let_def i0(1) e
    by (cases wrt) (use i0 e in \<open>auto simp: request_layout_def served_def bit_simps\<close>)
qed

text \<open>When the handler has acknowledged the interrupt the device is idle again.\<close>

lemma device_idle_again:
  assumes "avail_idx e = seen v + 1" "vreg_writes e = ws @ [(0x064, w)]" "bit w 0"
  shows "device_idle \<lparr>seen = seen v + 1, noticed = length ws, raised = Some (length ws)\<rparr> e"
  using assms by (simp add: device_idle_def notified_def acked_def)

subsection \<open>A whole request\<close>

text \<open>Leaving the processor to the scheduler, and coming back from \<^verbatim>\<open>sleep\<close>, in a kernel where no other lock is taken.\<close>

lemma scheduler_back_quiet:
  assumes "mach t = acq (Lk_proc p) m" "mach_ok m" "\<And>l. lk_free l m" "noff (this_cpu m) = 0"
  shows "\<exists>m'. scheduler_back p t = Done () (t\<lparr>mach := m'\<rparr>) \<and> mach_ok m' \<and> (\<forall>l. lk_free l m') \<and>
    cpu_proc (this_cpu m') = None \<and> noff (this_cpu m') = 0"
proof -
  have "lk_held (Lk_proc p) (mach t)" "intr_disabled (mach t)" using assms by (simp_all add: lock_simps)
  note run = scheduler_back_exec [OF this]
  let ?m = "rel (Lk_proc p) ((mach t)\<lparr>cpus := (cpus (mach t))(hart (mach t) := (this_cpu (mach t))\<lparr>cpu_proc := None\<rparr>)\<rparr>)"
  have "mach_ok ?m" "\<forall>l. lk_free l ?m" "cpu_proc (this_cpu ?m) = None" "noff (this_cpu ?m) = 0"
    using assms(2-4) by (auto simp: assms(1) acq_def rel_def lk_free_def mach_ok_def)
  then show ?thesis using run by blast
qed

lemma resume_quiet:
  assumes "mach_ok (mach w)" "\<And>l. lk_free l (mach w)" "noff (this_cpu (mach w)) = 0" "pstate (procs w p) = RUNNABLE" "p < NPROC"
    and "\<And>q. lk \<noteq> Lk_proc q"
  shows "\<exists>v m. scheduler_scan p w = Done (Some p) v \<and>
    sleep_resume p lk v = Done () (w\<lparr>procs := (procs w)(p := (procs w p)\<lparr>pstate := RUNNING, chan := None\<rparr>), mach := acq lk m\<rparr>) \<and>
    mach_ok m \<and> (\<forall>l. lk_free l m) \<and> cpu_proc (this_cpu m) = Some p \<and> noff (this_cpu m) = 0 \<and> sie (this_cpu m) = k_intena (procs w p)"
proof -
  define v where "v = w\<lparr>mach := (acq (Lk_proc p) (mach w))\<lparr>cpus := (cpus (acq (Lk_proc p) (mach w)))(
      hart (mach w) := (this_cpu (acq (Lk_proc p) (mach w)))\<lparr>cpu_proc := Some p\<rparr>)\<rparr>,
    procs := (procs w)(p := (procs w p)\<lparr>pstate := RUNNING\<rparr>)\<rparr>"
  have v: "scheduler_scan p w = Done (Some p) v"
    using scheduler_scan_exec [OF assms(1,2,4,5)] by (simp add: v_def)
  define m where "m = rel (Lk_proc p) ((mach v)\<lparr>cpus := (cpus (mach v))(hart (mach v) := (this_cpu (mach v))\<lparr>intena := k_intena (procs v p)\<rparr>)\<rparr>)"
  have "lk_held (Lk_proc p) (mach v)" "intr_disabled (mach v)" "noff (this_cpu (mach v)) = 1" "lk_free lk (mach v)"
    using assms by (auto simp: v_def acq_def lk_held_def lk_free_def intr_disabled_def)
  from sleep_resume_exec [OF this]
  have "sleep_resume p lk v = Done () (w\<lparr>procs := (procs w)(p := (procs w p)\<lparr>pstate := RUNNING, chan := None\<rparr>), mach := acq lk m\<rparr>)"
    unfolding m_def by (cases w) (simp add: v_def)
  moreover have "mach_ok m" "\<forall>l. lk_free l m" "cpu_proc (this_cpu m) = Some p" "noff (this_cpu m) = 0" "sie (this_cpu m) = k_intena (procs w p)"
    using assms(1-3) by (auto simp: m_def v_def acq_def rel_def lk_free_def mach_ok_def)
  ultimately show ?thesis using v by blast
qed

lemma virtio_completes:
  fixes u :: "'x vstate_scheme"
  assumes r: "vdisk u = requested b wrt n i0 i1 i2 d" "distinct [i0, i1, i2]" "\<forall>i \<in> {i0, i1, i2}. i < NUM" "used_idx d = used_ring_idx d"
    and m: "mach_ok (mach u)" "\<forall>l. lk_free l (mach u)" "cpu_proc (this_cpu (mach u)) = None" "noff (this_cpu (mach u)) = 0"
    and p: "p < NPROC" "pstate (procs u p) = SLEEPING" "chan (procs u p) = Some (Ch_buf b)"
    and u': "vdisk u' = served i0 (vdisk u)" "mach u' = mach u" "procs u' = procs u"
  shows "\<exists>w v x. virtio_disk_intr u' = Done () w \<and> scheduler_scan p w = Done (Some p) v \<and>
      virtio_wait_resume p b i0 v = Done () x \<and> quiet p x \<and> noff (this_cpu (mach x)) = 0 \<and>
      vd_free (vdisk x) = (vd_free d)(i0 := True, i1 := True, i2 := True) \<and> used_idx (vdisk x) = used_ring_idx (vdisk x) \<and>
      avail_idx (vdisk x) = avail_idx d + 1 \<and>
      vreg_writes (vdisk x) = vreg_writes (vdisk u) @ [(0x064, vreg (vdisk u') 0x060 AND 3)] \<and>
      bufs x = (bufs u')(b := (bufs u' b)\<lparr>bdisk := False\<rparr>) \<and> disk x = disk u' \<and> dtrace x = dtrace u'"
proof -
  have pend: "pending (vdisk u') = 1" "completed (vdisk u') 0 = i0"
    using r(1,4) by (simp_all add: u' served_def pending_def completed_def requested_def)
  have i0: "info_status (vdisk u') i0 = 0" "info_b (vdisk u') i0 = Some b" by (simp_all add: u' served_def r(1) requested_def)
  have "\<forall>j < pending (vdisk u'). info_status (vdisk u') (completed (vdisk u') j) = 0"
    "\<forall>j < pending (vdisk u'). info_b (vdisk u') (completed (vdisk u') j) = Some b"
    using pend i0 by simp_all
  from virtio_disk_intr_exec [OF _ _ _ this] m obtain w where w: "virtio_disk_intr u' = Done () w" "mach w = settle (mach u)"
    "vdisk w = (vdisk u')\<lparr>vreg_writes := vreg_writes (vdisk u') @ [(0x064, vreg (vdisk u') 0x060 AND 3)], used_idx := used_ring_idx (vdisk u')\<rparr>"
    "disk w = disk u'" "dtrace w = dtrace u'" "\<And>c. bufs w c = (if c = b then (bufs u' b)\<lparr>bdisk := False\<rparr> else bufs u' c)"
    "procs w p = woken_bufs {b} (procs u p)"
    using p(1) by (auto simp: pend u'(2,3) table_free_def lessThan_Suc)
  have bw: "bufs w = (bufs u')(b := (bufs u' b)\<lparr>bdisk := False\<rparr>)" using w(6) by auto
  have run: "pstate (procs w p) = RUNNABLE" using p by (simp add: w(7) woken_bufs_def)
  obtain v m' where v: "scheduler_scan p w = Done (Some p) v"
    "sleep_resume p Lk_vdisk v = Done () (w\<lparr>procs := (procs w)(p := (procs w p)\<lparr>pstate := RUNNING, chan := None\<rparr>), mach := acq Lk_vdisk m'\<rparr>)"
    and m': "mach_ok m'" "\<forall>l. lk_free l m'" "cpu_proc (this_cpu m') = Some p" "noff (this_cpu m') = 0"
    using resume_quiet [OF _ _ _ run p(1), of Lk_vdisk] m by (auto simp: w(2) lock_simps)
  let ?y = "w\<lparr>procs := (procs w)(p := (procs w p)\<lparr>pstate := RUNNING, chan := None\<rparr>), mach := acq Lk_vdisk m',
    vdisk := (vdisk w)\<lparr>info_b := (info_b (vdisk w))(i0 := None)\<rparr>\<rparr>"
  have dy: "vd_free (vdisk ?y) = (vd_free d)(i0 := False, i1 := False, i2 := False)" "vd_desc (vdisk ?y) = vd_desc (vdisk u)"
    by (simp_all add: w(3) u' served_def r(1) requested_def)
  have "\<exists>x. free_chain i0 ?y = Done () x \<and> mach x = mach ?y \<and>
      vdisk x = (vdisk ?y)\<lparr>vd_desc := (vd_desc (vdisk ?y))(i0 := null_desc, i1 := null_desc, i2 := null_desc),
        vd_free := (vd_free (vdisk ?y))(i0 := True, i1 := True, i2 := True)\<rparr> \<and> (bufs x, disk x, dtrace x) = (bufs ?y, disk ?y, dtrace ?y) \<and>
      (\<forall>q. cpu_proc (this_cpu (mach ?y)) = Some q \<longrightarrow> procs x q = procs ?y q)"
    by (rule free_chain_exec) (use m' r(2,3) in \<open>simp_all only: dy, simp_all add: lock_simps table_free_def r(1) requested_def bit_simps\<close>)
  then obtain x where x: "free_chain i0 ?y = Done () x" "mach x = acq Lk_vdisk m'"
      "vdisk x = (vdisk ?y)\<lparr>vd_desc := (vd_desc (vdisk ?y))(i0 := null_desc, i1 := null_desc, i2 := null_desc),
        vd_free := (vd_free (vdisk ?y))(i0 := True, i1 := True, i2 := True)\<rparr>" "bufs x = bufs w" "disk x = disk w" "dtrace x = dtrace w"
    by auto
  have "virtio_wait_resume p b i0 v = seq (free_chain i0) (release Lk_vdisk) ?y"
    by (simp add: virtio_wait_resume_def seq_exec v(2) virtio_wait_def exec_simps bw)
  also have "\<dots> = Done () (x\<lparr>mach := settle m'\<rparr>)"
    using x(1,2) m' by (simp add: exec_simps lock_simps)
  finally have "virtio_wait_resume p b i0 v = Done () (x\<lparr>mach := settle m'\<rparr>)" .
  moreover have "quiet p (x\<lparr>mach := settle m'\<rparr>)" "noff (this_cpu (settle m')) = 0" using m' by (simp_all add: quiet_def lock_simps)
  moreover have "vd_free (vdisk x) = (vd_free d)(i0 := True, i1 := True, i2 := True)" using r(2) by (simp add: x(3) w(3) u' served_def r(1) requested_def)
  moreover have "used_idx (vdisk x) = used_ring_idx (vdisk x)" "avail_idx (vdisk x) = avail_idx d + 1"
      "vreg_writes (vdisk x) = vreg_writes (vdisk u) @ [(0x064, vreg (vdisk u') 0x060 AND 3)]"
    by (simp_all add: x(3) w(3) u' served_def r(1) requested_def)
  ultimately show ?thesis
    using w(1,4,5) v(1) x(4-6) bw by (intro exI [of _ w] exI [of _ v] exI [of _ "x\<lparr>mach := settle m'\<rparr>"]) simp
qed

text \<open>
  C6. The disk driver implements the transfer of a block that the buffer cache relies on. A process that calls
  \<^verbatim>\<open>virtio_disk_rw\<close> with three descriptors free, while the device is idle, puts a request on the available ring, notifies the device and sleeps on the
  buffer, with all locks free. The device can then serve the request; and whatever it does as its specification
  demands, the interrupt handler then finishes without panic and wakes the process, the scheduler can choose it,
  and it returns from \<^verbatim>\<open>virtio_disk_rw\<close> with exactly the buffers, the disk and the sequence of disk writes that \<open>disk_rw\<close> gives, with
  no lock held, the descriptors free again, the used ring emptied, and the device idle again with its interrupt acknowledged, so that the
  next request finds what this one found.
\<close>

theorem virtio_refines_disk_rw:
  fixes s :: "'x vstate_scheme"
  assumes q: "quiet p s" "noff (this_cpu (mach s)) = 0" "p < NPROC"
    and f: "free_descs (vdisk s) = i0 # i1 # i2 # rest" "used_idx (vdisk s) = used_ring_idx (vdisk s)" "device_idle dev (vdisk s)"
    and b: "2 * bblockno (bufs s b) < 2 ^ 32" "\<not> bdisk (bufs s b)"
  shows "\<exists>t u. virtio_disk_rw b wrt s = Swtch t \<and> scheduler_back p t = Done () u \<and> (\<forall>l. lk_free l (mach u)) \<and>
    (\<exists>dev' u'. device_served dev u dev' u') \<and>
    (\<forall>dev' u'. device_served dev u dev' u' \<longrightarrow> (\<exists>w v x y. virtio_disk_intr u' = Done () w \<and> scheduler_scan p w = Done (Some p) v \<and>
      virtio_wait_resume p b i0 v = Done () x \<and> quiet p x \<and> noff (this_cpu (mach x)) = 0 \<and> free_descs (vdisk x) = free_descs (vdisk s) \<and>
      used_idx (vdisk x) = used_ring_idx (vdisk x) \<and> device_idle dev' (vdisk x) \<and>
      disk_rw b wrt s = Done () y \<and> bufs x = bufs y \<and> disk x = disk y \<and> dtrace x = dtrace y))"
proof -
  note i = alloc3_desc_exec(2,3) [OF f(1)]
  let ?d = "vdisk s" and ?n = "bblockno (bufs s b)"
  let ?r = "requested b wrt ?n i0 i1 i2 ?d"
  let ?q = "(procs s p)\<lparr>chan := Some (Ch_buf b), pstate := SLEEPING, k_intena := sie (this_cpu (mach s))\<rparr>"
  let ?t = "s\<lparr>bufs := (bufs s)(b := (bufs s b)\<lparr>bdisk := True\<rparr>), vdisk := ?r, mach := acq (Lk_proc p) (mach s), procs := (procs s)(p := ?q)\<rparr>"
  have "mach ?t = acq (Lk_proc p) (mach s)" by simp
  from scheduler_back_quiet [OF this] quietD [OF q(1)] q(2)
  obtain m where m: "scheduler_back p ?t = Done () (?t\<lparr>mach := m\<rparr>)" "mach_ok m" "\<forall>l. lk_free l m"
    "cpu_proc (this_cpu m) = None" "noff (this_cpu m) = 0" by auto
  let ?u = "?t\<lparr>mach := m\<rparr>"
  have "vdisk ?u = ?r" by simp
  note serve = device_served_requested [OF this i(1) b(1) f(3)]
  have "\<exists>w v x y. virtio_disk_intr u' = Done () w \<and> scheduler_scan p w = Done (Some p) v \<and>
      virtio_wait_resume p b i0 v = Done () x \<and> quiet p x \<and> noff (this_cpu (mach x)) = 0 \<and> free_descs (vdisk x) = free_descs (vdisk s) \<and>
      used_idx (vdisk x) = used_ring_idx (vdisk x) \<and> device_idle dev' (vdisk x) \<and>
      disk_rw b wrt s = Done () y \<and> bufs x = bufs y \<and> disk x = disk y \<and> dtrace x = dtrace y" if dev: "device_served dev ?u dev' u'" for dev' u'
  proof -
    have u': "vdisk u' = served i0 ?r" "mach u' = mach ?u" "procs u' = procs ?u" using dev unfolding serve by simp_all
    obtain w v x where x: "virtio_disk_intr u' = Done () w" "scheduler_scan p w = Done (Some p) v" "virtio_wait_resume p b i0 v = Done () x"
      "quiet p x" "noff (this_cpu (mach x)) = 0" "used_idx (vdisk x) = used_ring_idx (vdisk x)" "avail_idx (vdisk x) = avail_idx ?d + 1"
      "vreg_writes (vdisk x) = vreg_writes ?r @ [(0x064, vreg (vdisk u') 0x060 AND 3)]"
      and x': "vd_free (vdisk x) = (vd_free ?d)(i0 := True, i1 := True, i2 := True)"
      "bufs x = (bufs u')(b := (bufs u' b)\<lparr>bdisk := False\<rparr>)" "disk x = disk u'" "dtrace x = dtrace u'"
      using virtio_completes [of ?u b wrt ?n i0 i1 i2 ?d p u'] i m(2-5) f(2) q(3) u' by auto
    have "vd_free (vdisk x) = vd_free ?d" using i(2) by (auto simp: x'(1) fun_eq_iff)
    then have fr: "free_descs (vdisk x) = free_descs (vdisk s)" by (simp only: free_descs_def)
    have v': "dev' = \<lparr>seen = seen dev + 1, noticed = length (vreg_writes ?r), raised = Some (length (vreg_writes ?r))\<rparr>" using dev unfolding serve by simp
    have idle: "device_idle dev' (vdisk x)"
      unfolding v' by (rule device_idle_again [OF _ x(8)]) (use f(3) in \<open>simp_all add: x(7) u'(1) served_def device_idle_def bit_simps\<close>)
    have "(bufs s b)\<lparr>bdisk := False\<rparr> = bufs s b" "(bufs s b)\<lparr>bdata := dt, bdisk := False\<rparr> = (bufs s b)\<lparr>bdata := dt\<rparr>" for dt
      using b(2) by (cases "bufs s b"; simp)+
    then have "\<exists>y. disk_rw b wrt s = Done () y \<and> bufs x = bufs y \<and> disk x = disk y \<and> dtrace x = dtrace y"
      using dev unfolding x'(2-4) serve by (cases wrt) (auto simp: disk_rw_def exec_simps Let_def)
    then show ?thesis using x(1-6) fr idle by blast
  qed
  moreover have "\<exists>dev' u'. device_served dev ?u dev' u'" unfolding serve by simp
  ultimately show ?thesis
    using virtio_disk_rw_sleeps [OF q(1,2) f(1)] m(1,3) by (intro exI [of _ ?t] exI [of _ ?u]) simp
qed

definition demo_v :: vstate where
  "demo_v = ftstate.extend demo_ft (vstate.fields \<lparr>vd_desc = (\<lambda>_. \<lparr>d_addr = A_null, d_len = 0, d_flags = 0, d_next = 0\<rparr>),
     avail_ring = (\<lambda>_. 0), avail_idx = 0, used_ring = (\<lambda>_. 0), used_ring_idx = 0, vd_free = (\<lambda>_. True), used_idx = 0,
     info_b = (\<lambda>_. None), info_status = (\<lambda>_. 0), ops = (\<lambda>_. \<lparr>req_type = 0, req_sector = 0\<rparr>), desc_page = 0, avail_page = 0, used_page = 0,
     vreg = (\<lambda>_. 0), vreg_writes = []\<rparr>)"

theorem virtio_refines_disk_rw_witness:
  "\<exists>t u dev' u' w v x. virtio_disk_rw 3 True demo_v = Swtch t \<and> scheduler_back 1 t = Done () u \<and>
     device_served \<lparr>seen = 0, noticed = 0, raised = None\<rparr> u dev' u' \<and>
     virtio_disk_intr u' = Done () w \<and> scheduler_scan 1 w = Done (Some 1) v \<and> virtio_wait_resume 1 3 0 v = Done () x \<and>
     device_idle dev' (vdisk x) \<and> disk x 0 0 = 0 \<and> length (dtrace x) = 1 \<and> length (free_descs (vdisk x)) = 8"
proof -
  let ?v = "\<lparr>seen = 0, noticed = 0, raised = None\<rparr>"
  have up8: "[0..<8] = [0, 1, 2, 3, 4, 5, 6, 7 :: nat]" by code_simp
  have a: "quiet 1 demo_v" "noff (this_cpu (mach demo_v)) = 0" "(1 :: nat) < NPROC"
    "free_descs (vdisk demo_v) = 0 # 1 # 2 # [3, 4, 5, 6, 7]" "used_idx (vdisk demo_v) = used_ring_idx (vdisk demo_v)" "device_idle ?v (vdisk demo_v)"
    "2 * bblockno (bufs demo_v 3) < 2 ^ 32" "\<not> bdisk (bufs demo_v 3)" "dtrace demo_v = []" "bufs demo_v 3 = bufs demo_b 3"
    by (simp_all add: demo_v_def demo_ft_def demo_fs_def demo_u_def demo_lg_def demo_b_def quiet_def device_idle_def notified_def acked_def
        lgstate.defs bstate.defs ustate.defs fsstate.defs ftstate.defs vstate.defs free_descs_def up8 del: upt_rec_numeral)
  obtain t u dev' u' where *: "virtio_disk_rw 3 True demo_v = Swtch t" "scheduler_back 1 t = Done () u" "device_served ?v u dev' u'"
    "\<exists>w v x y. virtio_disk_intr u' = Done () w \<and> scheduler_scan 1 w = Done (Some 1) v \<and>
      virtio_wait_resume 1 3 0 v = Done () x \<and> free_descs (vdisk x) = free_descs (vdisk demo_v) \<and> device_idle dev' (vdisk x) \<and>
      disk_rw 3 True demo_v = Done () y \<and> disk x = disk y \<and> dtrace x = dtrace y"
    using virtio_refines_disk_rw [OF a(1-8), of True] by blast
  then obtain w v x y where "virtio_disk_intr u' = Done () w" "scheduler_scan 1 w = Done (Some 1) v"
    "virtio_wait_resume 1 3 0 v = Done () x" "free_descs (vdisk x) = free_descs (vdisk demo_v)" "device_idle dev' (vdisk x)"
    "disk_rw 3 True demo_v = Done () y" "disk x = disk y" "dtrace x = dtrace y" by blast
  moreover from this have "disk x 0 0 = 0" "length (dtrace x) = 1" "length (free_descs (vdisk x)) = 8"
    by (auto simp: disk_rw_def exec_simps Let_def a(4,9,10) demo_b_def blit_def)
  ultimately show ?thesis using *(1-3) by blast
qed

end
