(* ===== verification/Pipe_Spec.thy ===== *)
theory Pipe_Spec
  imports Pipe Vm_Map
begin

text \<open>
  What pipes and the table of open files guarantee. The buffer of a pipe is a ring whose two counters
  wrap around; \<open>pipe_bytes\<close> is the queue it stands for.
\<close>

subsection \<open>The pipe buffer\<close>

interpretation pb: ring PIPESIZE
  by unfold_locales simp_all

definition pipe_bytes :: "pipe \<Rightarrow> u8 list" where
  "pipe_bytes x = ring_contents PIPESIZE (pdata x) (nread x) (nwrite x)"

definition pipe_ok :: "pipe \<Rightarrow> bool" where
  "pipe_ok x = (length (pipe_bytes x) \<le> 512)"

definition put_byte :: "u8 \<Rightarrow> pipe \<Rightarrow> pipe" where
  "put_byte c x = x\<lparr>pdata := (pdata x)(ring_slot PIPESIZE (nwrite x) := c), nwrite := nwrite x + 1\<rparr>"

definition get_byte :: "pipe \<Rightarrow> pipe" where
  "get_byte x = x\<lparr>nread := nread x + 1\<rparr>"

lemma length_pipe_bytes: "length (pipe_bytes x) = unat (nwrite x - nread x)"
  by (simp add: pipe_bytes_def pb.length_contents)

lemma pipe_full_iff: "nwrite x = nread x + PIPESIZE \<longleftrightarrow> length (pipe_bytes x) = 512"
  using pb.full_iff [of "nwrite x" "nread x"] by (simp add: length_pipe_bytes)

lemma pipe_empty_iff: "nread x = nwrite x \<longleftrightarrow> pipe_bytes x = []"
  unfolding pipe_bytes_def pb.contents_Nil_iff ..

lemma pipe_bytes_put: "length (pipe_bytes x) < 512 \<Longrightarrow> pipe_bytes (put_byte c x) = pipe_bytes x @ [c]"
  using pb.contents_enqueue [of "nwrite x" "nread x" "pdata x" c] by (simp add: length_pipe_bytes) (simp add: pipe_bytes_def put_byte_def)

lemma pipe_bytes_get: "pipe_bytes x \<noteq> [] \<Longrightarrow> pipe_bytes x = pdata x (ring_slot PIPESIZE (nread x)) # pipe_bytes (get_byte x)"
  using pb.contents_dequeue [of "nread x" "nwrite x" "pdata x"] by (simp add: pipe_empty_iff [symmetric]) (simp add: pipe_bytes_def get_byte_def)

lemma put_byte_fields [simp]:
  "nread (put_byte c x) = nread x" "readopen (put_byte c x) = readopen x" "writeopen (put_byte c x) = writeopen x"
  by (simp_all add: put_byte_def)

lemma put_bytes:
  "length (pipe_bytes x) + length cs \<le> 512 \<Longrightarrow> pipe_bytes (fold put_byte cs x) = pipe_bytes x @ cs"
  by (induction cs arbitrary: x) (simp_all add: pipe_bytes_put)

lemma fold_put_fields [simp]:
  "nread (fold put_byte cs x) = nread x" "readopen (fold put_byte cs x) = readopen x" "writeopen (fold put_byte cs x) = writeopen x"
  by (induction cs arbitrary: x) simp_all

lemma get_bytes: "n \<le> length (pipe_bytes x) \<Longrightarrow> pipe_bytes ((get_byte ^^ n) x) = drop n (pipe_bytes x)"
proof (induction n)
  case (Suc n)
  then have "pipe_bytes ((get_byte ^^ n) x) \<noteq> []" by auto
  from pipe_bytes_get [OF this] Suc show ?case by (simp add: drop_Suc) (metis drop_Suc drop_tl list.sel(3) Suc_leD)
qed simp

subsection \<open>Writing\<close>

lemma vm_ok_cong:
  "mach t = mach s \<Longrightarrow> mem t = mem s \<Longrightarrow> kend t = kend s \<Longrightarrow> freelist t = freelist s \<Longrightarrow> vm_ok e r S t = vm_ok e r S s"
  by (simp add: vm_ok_def pages_free_def free_list_def kmem_ready_def)

text \<open>A process in the middle of an operation on a pipe: it holds the lock of the pipe and no other lock is taken.\<close>

definition in_pipe :: "nat \<Rightarrow> u64 \<Rightarrow> 'x pkstate_scheme \<Rightarrow> bool" where
  "in_pipe p pi s = (mach_ok (mach s) \<and> lk_held (Lk_pipe pi) (mach s) \<and> intr_disabled (mach s) \<and> settle (mach s) = mach s \<and>
     (\<forall>l. l \<noteq> Lk_pipe pi \<longrightarrow> lk_free l (mach s)) \<and> cpu_proc (this_cpu (mach s)) = Some p)"

lemma vm_ok_pipes [simp]: "vm_ok e r S (s\<lparr>pipes := f\<rparr>) = vm_ok e r S s" "in_pipe p pi (s\<lparr>pipes := f\<rparr>) = in_pipe p pi s"
  by (rule vm_ok_cong, simp_all add: in_pipe_def)

definition user_bytes :: "bytes \<Rightarrow> u64 \<Rightarrow> u64 \<Rightarrow> nat \<Rightarrow> nat \<Rightarrow> u8 list" where
  "user_bytes m r va i k = map (\<lambda>j. m (uaddr m r (va + of_nat j))) [i..<i + k]"

lemma in_pipe_acq: "quiet p s \<Longrightarrow> in_pipe p pi (s\<lparr>mach := acq (Lk_pipe pi) (mach s)\<rparr>)"
  by (auto simp: in_pipe_def quiet_def lock_simps)

lemma pipewrite_loop_exec:
  fixes s :: "'x ftstate_scheme"
  assumes "in_pipe p pi s" "vm_ok e (pagetable (procs s p)) S s" "pkilled (procs s p) = 0" "readopen (pipes s pi)"
    "\<And>j. i \<le> j \<Longrightarrow> j < i + k \<Longrightarrow> upage (mem s) (pagetable (procs s p)) (addr + of_nat j)"
    "length (pipe_bytes (pipes s pi)) + k \<le> 512"
  shows "pipewrite_loop k p pi addr i s = pipewrite_done pi (i + k)
    (s\<lparr>pipes := (pipes s)(pi := fold put_byte (user_bytes (mem s) (pagetable (procs s p)) addr i k) (pipes s pi))\<rparr>)"
  using assms
proof (induction k arbitrary: i s)
  case 0
  then show ?case by (simp add: user_bytes_def)
next
  case (Suc k)
  let ?r = "pagetable (procs s p)"
  let ?c = "mem s (uaddr (mem s) ?r (addr + of_nat i))"
  let ?t = "s\<lparr>pipes := (pipes s)(pi := put_byte ?c (pipes s pi))\<rparr>"
  have "lk_free (Lk_proc p) (mach s)" "mach_ok (mach s)" "settle (mach s) = mach s" using Suc.prems(1) by (simp_all add: in_pipe_def)
  then have k: "killed p s = Done 0 s" using Suc.prems(3) by (simp add: killed_exec)
  have f: "nwrite (pipes s pi) \<noteq> nread (pipes s pi) + PIPESIZE" using Suc.prems(6) pipe_full_iff [of "pipes s pi"] by auto
  have "upage (mem s) ?r (addr + of_nat i + of_nat j)" if "j < Suc 0" for j using Suc.prems(5) [of i] that by simp
  note ci = copyin_reads [OF Suc.prems(2), where len = "Suc 0" and va = "addr + of_nat i", OF this]
  have ub: "user_bytes (mem s) ?r addr i (Suc k) = ?c # user_bytes (mem s) ?r addr (i + 1) k"
    by (simp add: user_bytes_def upt_conv_Cons del: upt_Suc)
  have "pipewrite_loop (Suc k) p pi addr i s = pipewrite_loop k p pi addr (i + 1) ?t"
    using Suc.prems(4) f by (simp add: exec_simps k ci put_byte_def)
  also have "\<dots> = pipewrite_done pi (i + 1 + k) (?t\<lparr>pipes := (pipes ?t)(pi := fold put_byte (user_bytes (mem ?t) (pagetable (procs ?t p)) addr (i + 1) k) (pipes ?t pi))\<rparr>)"
    by (rule Suc.IH) (use Suc.prems in \<open>simp_all add: in_pipe_def pipe_bytes_put\<close>)
  also have "?t\<lparr>pipes := (pipes ?t)(pi := fold put_byte (user_bytes (mem ?t) (pagetable (procs ?t p)) addr (i + 1) k) (pipes ?t pi))\<rparr> =
      s\<lparr>pipes := (pipes s)(pi := fold put_byte (user_bytes (mem s) ?r addr i (Suc k)) (pipes s pi))\<rparr>"
    unfolding ub by simp
  also have "i + 1 + k = i + Suc k" by simp
  finally show ?case .
qed

subsection \<open>Reading\<close>

text \<open>The user bytes from \<open>va + i\<close> on can be written, at different addresses outside the tables and free pages.\<close>

definition out_area :: "u64 set \<Rightarrow> bytes \<Rightarrow> u64 \<Rightarrow> u64 \<Rightarrow> nat \<Rightarrow> nat \<Rightarrow> bool" where
  "out_area S m r va i k =
     ((\<forall>j. i \<le> j \<and> j < i + k \<longrightarrow> uwritable m r (va + of_nat j) \<and> uaddr m r (va + of_nat j) \<notin> span (S \<union> tables m r)) \<and>
      inj_on (\<lambda>j. uaddr m r (va + of_nat j)) {i..<i + k})"

lemma copyout_byte:
  fixes c :: u8
  assumes "vm_ok e r S s" "uwritable (mem s) r va" "uaddr (mem s) r va \<notin> span (S \<union> tables (mem s) r)"
  defines "m \<equiv> (mem s)(uaddr (mem s) r va := c)"
  shows "copyout r va (\<lambda>_. c) 0 1 s = Done 0 (s\<lparr>mem := m\<rparr>)" "vm_ok e r S (s\<lparr>mem := m\<rparr>)"
    "\<And>a. pt_lookup m r a = pt_lookup (mem s) r a" "tables m r = tables (mem s) r"
proof -
  obtain m' where m': "copyout r va (\<lambda>_. c) 0 1 s = Done 0 (s\<lparr>mem := m'\<rparr>)" "m' (uaddr (mem s) r va) = c"
    "\<And>i. i \<noteq> uaddr (mem s) r va \<Longrightarrow> m' i = mem s i"
    using copyout_writes [OF assms(1), of 1 va "\<lambda>_. c" 0] assms(2,3) by (auto simp: lessThan_Suc)
  then have "m' = m" by (auto simp: m_def)
  then show "copyout r va (\<lambda>_. c) 0 1 s = Done 0 (s\<lparr>mem := m\<rparr>)" using m'(1) by simp
  have "\<forall>i \<in> span (S \<union> tables (mem s) r). m i = mem s i" using assms(3) by (auto simp: m_def)
  from vm_ok_outside [OF assms(1) this] show "vm_ok e r S (s\<lparr>mem := m\<rparr>)"
    "\<And>a. pt_lookup m r a = pt_lookup (mem s) r a" "tables m r = tables (mem s) r" .
qed

lemma piperead_copy_exec:
  fixes s :: "'x ftstate_scheme"
  assumes "in_pipe p pi s" "vm_ok e (pagetable (procs s p)) S s" "out_area S (mem s) (pagetable (procs s p)) addr i k"
  shows "\<exists>m. piperead_copy k p pi addr i s = piperead_done pi (i + min k (length (pipe_bytes (pipes s pi))))
      (s\<lparr>pipes := (pipes s)(pi := (get_byte ^^ min k (length (pipe_bytes (pipes s pi)))) (pipes s pi)), mem := m\<rparr>) \<and>
    (\<forall>j < min k (length (pipe_bytes (pipes s pi))). m (uaddr (mem s) (pagetable (procs s p)) (addr + of_nat (i + j))) = pipe_bytes (pipes s pi) ! j) \<and>
    (\<forall>a. a \<notin> (\<lambda>j. uaddr (mem s) (pagetable (procs s p)) (addr + of_nat j)) ` {i..<i + k} \<longrightarrow> m a = mem s a)"
  using assms
proof (induction k arbitrary: i s)
  case 0
  show ?case by (rule exI [of _ "mem s"]) simp
next
  case (Suc k)
  let ?r = "pagetable (procs s p)" and ?x = "pipes s pi"
  let ?u = "\<lambda>j. uaddr (mem s) ?r (addr + of_nat j)"
  show ?case
  proof (cases "pipe_bytes ?x = []")
    case True
    then show ?thesis by (intro exI [of _ "mem s"]) (simp add: exec_simps pipe_empty_iff)
  next
    case False
    let ?c = "pdata ?x (ring_slot PIPESIZE (nread ?x))"
    let ?s1 = "s\<lparr>pipes := (pipes s)(pi := get_byte ?x)\<rparr>"
    let ?m = "(mem s)(?u i := ?c)"
    let ?t = "s\<lparr>pipes := (pipes s)(pi := get_byte ?x), mem := ?m\<rparr>"
    have i: "uwritable (mem ?s1) ?r (addr + of_nat i)" "uaddr (mem ?s1) ?r (addr + of_nat i) \<notin> span (S \<union> tables (mem ?s1) ?r)"
      using Suc.prems(3) by (simp_all add: out_area_def)
    have ok1: "vm_ok e ?r S ?s1" using Suc.prems(2) by simp
    note co = copyout_byte [OF ok1 i, of ?c]
    have run: "piperead_copy (Suc k) p pi addr i s = piperead_copy k p pi addr (i + 1) ?t"
      using False co(1) by (simp add: exec_simps pipe_empty_iff Let_def get_byte_def)
    have same: "uaddr ?m ?r a = uaddr (mem s) ?r a" "uwritable ?m ?r a = uwritable (mem s) ?r a" for a
      using co(3) by (simp_all add: user_cong [of ?m ?r a "mem s"])
    have dist: "?u i \<notin> ?u ` {Suc i..<Suc i + k}"
    proof
      assume "?u i \<in> ?u ` {Suc i..<Suc i + k}"
      then obtain j where "j \<in> {Suc i..<Suc i + k}" "?u i = ?u j" by blast
      moreover have "inj_on ?u {i..<i + Suc k}" using Suc.prems(3) by (simp add: out_area_def)
      ultimately show False by (auto dest: inj_onD)
    qed
    have "out_area S (mem ?t) (pagetable (procs ?t p)) addr (i + 1) k"
      using Suc.prems(3) co(4) by (auto simp: out_area_def same intro: inj_on_subset)
    moreover have "in_pipe p pi ?t" using Suc.prems(1) by (simp add: in_pipe_def)
    moreover have "vm_ok e (pagetable (procs ?t p)) S ?t" using co(2) by simp
    ultimately obtain m where m: "piperead_copy k p pi addr (i + 1) ?t = piperead_done pi (i + 1 + min k (length (pipe_bytes (pipes ?t pi))))
      (?t\<lparr>pipes := (pipes ?t)(pi := (get_byte ^^ min k (length (pipe_bytes (pipes ?t pi)))) (pipes ?t pi)), mem := m\<rparr>)"
      "\<forall>j < min k (length (pipe_bytes (pipes ?t pi))). m (uaddr (mem ?t) (pagetable (procs ?t p)) (addr + of_nat (i + 1 + j))) = pipe_bytes (pipes ?t pi) ! j"
      "\<forall>a. a \<notin> (\<lambda>j. uaddr (mem ?t) (pagetable (procs ?t p)) (addr + of_nat j)) ` {i + 1..<i + 1 + k} \<longrightarrow> m a = mem ?t a"
      using Suc.IH [of ?t "i + 1"] by blast
    have len: "pipe_bytes ?x = ?c # pipe_bytes (get_byte ?x)" using pipe_bytes_get [OF False] .
    let ?n = "min k (length (pipe_bytes (get_byte ?x)))"
    have n: "min (Suc k) (length (pipe_bytes ?x)) = Suc ?n" by (subst len) simp
    have "piperead_copy (Suc k) p pi addr i s = piperead_done pi (i + Suc ?n)
        (s\<lparr>pipes := (pipes s)(pi := (get_byte ^^ Suc ?n) ?x), mem := m\<rparr>)"
      using run m(1) by (simp add: funpow_swap1)
    moreover have "m (?u (i + j)) = pipe_bytes ?x ! j" if "j < Suc ?n" for j
    proof (cases j)
      case 0
      have "m (?u i) = ?c" using m(3) dist by (simp add: same)
      then show ?thesis using 0 by (subst len) simp
    next
      case (Suc j')
      then have "m (?u (i + 1 + j')) = pipe_bytes (get_byte ?x) ! j'" using m(2) that by (simp add: same)
      then show ?thesis using Suc by (subst len) simp
    qed
    moreover have "m a = mem s a" if "a \<notin> ?u ` {i..<i + Suc k}" for a
    proof -
      have "a \<notin> ?u ` {i + 1..<i + 1 + k}" "a \<noteq> ?u i" using that by auto
      then show ?thesis using m(3) by (simp add: same)
    qed
    ultimately show ?thesis unfolding n by blast
  qed
qed

subsection \<open>Whole calls\<close>

lemma vm_ok_quiet:
  assumes "quiet p s" "quiet p t \<or> in_pipe p pi t" "mem t = mem s" "kend t = kend s" "freelist t = freelist s"
  shows "vm_ok e r S t = vm_ok e r S s"
proof -
  have "kmem_ready t = kmem_ready s" using assms by (auto simp: kmem_ready_def quiet_def in_pipe_def)
  then show ?thesis using assms(3-5) by (simp add: vm_ok_def pages_free_def free_list_def)
qed

definition woken_all :: "channel \<Rightarrow> nat \<Rightarrow> (nat \<Rightarrow> proc) \<Rightarrow> nat \<Rightarrow> proc" where
  "woken_all ch me ps = (\<lambda>q. if q < NPROC \<and> me \<noteq> q then woken ch (ps q) else ps q)"

lemma woken_all_me [simp]: "woken_all ch p ps p = ps p"
  by (simp add: woken_all_def)

lemma pipe_done:
  assumes "quiet p s" "mach t = acq (Lk_pipe pi) (mach s)"
  shows "pipewrite_done pi n t = Done (int n) (t\<lparr>procs := woken_all (Ch_nread pi) p (procs t), mach := settle (mach s)\<rparr>)"
    "piperead_done pi n t = Done (int n) (t\<lparr>procs := woken_all (Ch_nwrite pi) p (procs t), mach := settle (mach s)\<rparr>)"
proof -
  have "table_free (Some p) (mach t)" using quietD [OF assms(1)] by (simp add: assms(2) table_free_def lock_simps)
  then show "pipewrite_done pi n t = Done (int n) (t\<lparr>procs := woken_all (Ch_nread pi) p (procs t), mach := settle (mach s)\<rparr>)"
    "piperead_done pi n t = Done (int n) (t\<lparr>procs := woken_all (Ch_nwrite pi) p (procs t), mach := settle (mach s)\<rparr>)"
    using quietD [OF assms(1)]
    by (simp_all add: pipewrite_done_def piperead_done_def exec_simps assms(2) lock_simps woken_all_def cong: if_cong)
qed

lemma pipewrite_exec:
  fixes s :: "'x ftstate_scheme"
  assumes q: "quiet p s" and vm: "vm_ok e (pagetable (procs s p)) S s"
    and w: "pkilled (procs s p) = 0" "readopen (pipes s pi)" "\<forall>j < n. upage (mem s) (pagetable (procs s p)) (addr + of_nat j)"
      "length (pipe_bytes (pipes s pi)) + n \<le> 512"
  shows "pipewrite pi addr (int n) s = Done (int n) (s\<lparr>
    pipes := (pipes s)(pi := fold put_byte (user_bytes (mem s) (pagetable (procs s p)) addr 0 n) (pipes s pi)),
    procs := woken_all (Ch_nread pi) p (procs s), mach := settle (mach s)\<rparr>)"
proof -
  let ?a = "s\<lparr>mach := acq (Lk_pipe pi) (mach s)\<rparr>"
  have a: "in_pipe p pi ?a" using in_pipe_acq [OF q] .
  have vma: "vm_ok e (pagetable (procs ?a p)) S ?a" using vm_ok_quiet [of p s ?a pi] q a vm by simp
  have "pipewrite pi addr (int n) s = pipewrite_loop n p pi addr 0 ?a"
    using quietD [OF q] by (simp add: pipewrite_def exec_simps lock_simps)
  also have "\<dots> = pipewrite_done pi n (?a\<lparr>pipes := (pipes s)(pi := fold put_byte (user_bytes (mem s) (pagetable (procs s p)) addr 0 n) (pipes s pi))\<rparr>)"
    using pipewrite_loop_exec [OF a vma, of 0 n addr] w by simp
  finally show ?thesis by (simp add: pipe_done(1) [OF q])
qed

lemma piperead_exec:
  fixes s :: "'x ftstate_scheme" and pi :: u64 and p k :: nat
  defines "x \<equiv> pipes s pi" and "r \<equiv> pagetable (procs s p)" and "n \<equiv> min k (length (pipe_bytes (pipes s pi)))"
  assumes q: "quiet p s" and vm: "vm_ok e r S s" and o: "out_area S (mem s) r addr 0 k" and ne: "pipe_bytes x \<noteq> [] \<or> \<not> writeopen x"
  shows "\<exists>m. piperead pi addr (int k) s = Done (int n) (s\<lparr>pipes := (pipes s)(pi := (get_byte ^^ n) x), mem := m,
      procs := woken_all (Ch_nwrite pi) p (procs s), mach := settle (mach s)\<rparr>) \<and>
    user_bytes m r addr 0 n = take n (pipe_bytes x) \<and>
    (\<forall>a. a \<notin> (\<lambda>j. uaddr (mem s) r (addr + of_nat j)) ` {..<k} \<longrightarrow> m a = mem s a)"
proof -
  let ?a = "s\<lparr>mach := acq (Lk_pipe pi) (mach s)\<rparr>"
  have a: "in_pipe p pi ?a" using in_pipe_acq [OF q] .
  have vma: "vm_ok e (pagetable (procs ?a p)) S ?a" using vm_ok_quiet [of p s ?a pi] q a vm by (simp add: r_def)
  have "out_area S (mem ?a) (pagetable (procs ?a p)) addr 0 k" using o by (simp add: r_def)
  from piperead_copy_exec [OF a vma this]
  obtain m where m: "piperead_copy k p pi addr 0 ?a = piperead_done pi n (?a\<lparr>pipes := (pipes s)(pi := (get_byte ^^ n) x), mem := m\<rparr>)"
    "\<forall>j < n. m (uaddr (mem s) r (addr + of_nat j)) = pipe_bytes x ! j"
    "\<forall>a. a \<notin> (\<lambda>j. uaddr (mem s) r (addr + of_nat j)) ` {..<k} \<longrightarrow> m a = mem s a"
    by (auto simp: r_def x_def n_def atLeast0LessThan)
  have "\<forall>i \<in> span (S \<union> tables (mem s) r). m i = mem s i"
  proof
    fix i assume "i \<in> span (S \<union> tables (mem s) r)"
    then have "i \<notin> (\<lambda>j. uaddr (mem s) r (addr + of_nat j)) ` {..<k}" using o by (auto simp: out_area_def)
    then show "m i = mem s i" using m(3) by blast
  qed
  from vm_ok_outside(2) [OF vm this] have "uaddr m r a = uaddr (mem s) r a" for a by (rule user_cong(1))
  then have "user_bytes m r addr 0 n = take n (pipe_bytes x)"
    using m(2) by (intro nth_equalityI) (auto simp: user_bytes_def n_def x_def)
  moreover have "piperead pi addr (int k) s = piperead_copy k p pi addr 0 ?a"
    using quietD [OF q] ne by (auto simp: piperead_def piperead_loop_def exec_simps lock_simps pipe_empty_iff x_def)
  ultimately show ?thesis using m by (intro exI [of _ m]) (simp add: pipe_done(2) [OF q])
qed

text \<open>
  C9. A pipe is a queue of bytes between user memories. If the reading end is open and there is room, \<^verbatim>\<open>pipewrite\<close> of
  \<open>n\<close> user bytes returns \<open>n\<close> and appends exactly these bytes, in order, behind those in the pipe; a following
  \<^verbatim>\<open>piperead\<close> of up to \<open>k\<close> bytes returns how many there are up to \<open>k\<close>, stores the oldest bytes in user memory, and leaves the
  rest in the pipe. This holds for all values of the wrapping counters; no other pipe changes, and afterwards all
  locks are free.
\<close>

theorem pipe_fifo:
  fixes s :: "'x ftstate_scheme"
  assumes q: "quiet p s" and vm: "vm_ok e (pagetable (procs s p)) S s"
    and w: "pkilled (procs s p) = 0" "readopen (pipes s pi)" "\<forall>j < n. upage (mem s) (pagetable (procs s p)) (a + of_nat j)"
      "length (pipe_bytes (pipes s pi)) + n \<le> 512"
    and r: "out_area S (mem s) (pagetable (procs s p)) b 0 k" "pipe_bytes (pipes s pi) \<noteq> [] \<or> 0 < n"
  shows "\<exists>t u. pipewrite pi a (int n) s = Done (int n) t \<and> mem t = mem s \<and>
    pipe_bytes (pipes t pi) = pipe_bytes (pipes s pi) @ user_bytes (mem s) (pagetable (procs s p)) a 0 n \<and>
    piperead pi b (int k) t = Done (int (min k (length (pipe_bytes (pipes t pi))))) u \<and>
    user_bytes (mem u) (pagetable (procs s p)) b 0 (min k (length (pipe_bytes (pipes t pi)))) = take k (pipe_bytes (pipes t pi)) \<and>
    pipe_bytes (pipes u pi) = drop k (pipe_bytes (pipes t pi)) \<and>
    (\<forall>x. x \<noteq> pi \<longrightarrow> pipes u x = pipes s x) \<and> quiet p u"
proof -
  let ?ub = "user_bytes (mem s) (pagetable (procs s p)) a 0 n"
  define t where "t = s\<lparr>pipes := (pipes s)(pi := fold put_byte ?ub (pipes s pi)), procs := woken_all (Ch_nread pi) p (procs s), mach := settle (mach s)\<rparr>"
  have wr: "pipewrite pi a (int n) s = Done (int n) t"
    using pipewrite_exec [OF q vm w] by (simp add: t_def)
  have len: "length ?ub = n" by (simp add: user_bytes_def)
  have bt: "pipe_bytes (pipes t pi) = pipe_bytes (pipes s pi) @ ?ub" using put_bytes [of "pipes s pi" ?ub] w(4) len by (simp add: t_def)
  have qt: "quiet p t" using q by (simp add: t_def quiet_def lock_simps)
  have vmt: "vm_ok e (pagetable (procs t p)) S t" using vm_ok_quiet [OF q, of t] qt vm by (simp add: t_def)
  have "out_area S (mem t) (pagetable (procs t p)) b 0 k" "pipe_bytes (pipes t pi) \<noteq> [] \<or> \<not> writeopen (pipes t pi)"
    using r bt len by (auto simp: t_def)
  from piperead_exec [OF qt vmt this] obtain m where
    rd: "piperead pi b (int k) t = Done (int (min k (length (pipe_bytes (pipes t pi))))) (t\<lparr>
        pipes := (pipes t)(pi := (get_byte ^^ min k (length (pipe_bytes (pipes t pi)))) (pipes t pi)), mem := m,
        procs := woken_all (Ch_nwrite pi) p (procs t), mach := settle (mach t)\<rparr>)"
    and m: "user_bytes m (pagetable (procs t p)) b 0 (min k (length (pipe_bytes (pipes t pi)))) =
      take (min k (length (pipe_bytes (pipes t pi)))) (pipe_bytes (pipes t pi))"
    by blast
  let ?u = "t\<lparr>pipes := (pipes t)(pi := (get_byte ^^ min k (length (pipe_bytes (pipes t pi)))) (pipes t pi)), mem := m,
        procs := woken_all (Ch_nwrite pi) p (procs t), mach := settle (mach t)\<rparr>"
  have "pipe_bytes (pipes ?u pi) = drop k (pipe_bytes (pipes t pi))"
    using get_bytes [of "min k (length (pipe_bytes (pipes t pi)))" "pipes t pi"] by (simp add: min_def)
  moreover have "take (min k (length (pipe_bytes (pipes t pi)))) (pipe_bytes (pipes t pi)) = take k (pipe_bytes (pipes t pi))"
    by (simp add: min_def)
  moreover have "quiet p ?u" using qt by (simp add: quiet_def lock_simps)
  moreover have "pipes ?u x = pipes s x" if "x \<noteq> pi" for x using that by (simp add: t_def)
  moreover have "pagetable (procs t p) = pagetable (procs s p)" "mem t = mem s" by (simp_all add: t_def)
  ultimately show ?thesis using wr bt rd m by (intro exI [of _ t] exI [of _ ?u]) simp
qed

definition demo_pipe :: ftstate where
  "demo_pipe = demo_ft\<lparr>mem := demo_mem, procs := (procs demo_ft)(1 := (procs demo_ft 1)\<lparr>pagetable := 0x87FFF000\<rparr>),
     pipes := (pipes demo_ft)(0x87FF8000 := \<lparr>pdata = (\<lambda>_. 9), nread = - 1, nwrite = 0, readopen = True, writeopen = True\<rparr>)\<rparr>"

lemma demo_pipe_simps:
  "quiet 1 demo_pipe" "vm_ok 0x87FF0000 (pagetable (procs demo_pipe 1)) {} demo_pipe" "pkilled (procs demo_pipe 1) = 0"
  "pagetable (procs demo_pipe 1) = 0x87FFF000" "mem demo_pipe = demo_mem" "readopen (pipes demo_pipe 0x87FF8000)" "writeopen (pipes demo_pipe 0x87FF8000)"
  "pipe_bytes (pipes demo_pipe 0x87FF8000) = [9]" "noff (this_cpu (mach demo_pipe)) = 0"
proof -
  note defs = demo_pipe_def demo_ft_def demo_fs_def demo_u_def demo_lg_def demo_b_def quiet_def lgstate.defs bstate.defs ustate.defs
    fsstate.defs ftstate.defs demo_procs_def demo_proc_def
  show "quiet 1 demo_pipe" "pkilled (procs demo_pipe 1) = 0" "mem demo_pipe = demo_mem" "readopen (pipes demo_pipe 0x87FF8000)" "writeopen (pipes demo_pipe 0x87FF8000)"
    and r: "pagetable (procs demo_pipe 1) = 0x87FFF000"
    by (simp_all add: defs)
  show "noff (this_cpu (mach demo_pipe)) = 0" by (simp add: defs)
  show "pipe_bytes (pipes demo_pipe 0x87FF8000) = [9]" by (simp add: defs pipe_bytes_def ring_contents_def)
  have "kmem_ready demo_pipe" by (simp add: kmem_ready_def defs)
  moreover have "mem demo_pipe = mem demo_vm" "kend demo_pipe = kend demo_vm" "freelist demo_pipe = freelist demo_vm" by (simp_all add: defs demo_vm_def)
  ultimately show "vm_ok 0x87FF0000 (pagetable (procs demo_pipe 1)) {} demo_pipe"
    using demo_ok unfolding r by (simp add: vm_ok_def pages_free_def free_list_def)
qed

theorem pipe_fifo_witness:
  "\<exists>t u. pipewrite 0x87FF8000 0 (int 2) demo_pipe = Done 2 t \<and> piperead 0x87FF8000 16 (int 2) t = Done 2 u \<and>
     user_bytes (mem u) 0x87FFF000 16 0 2 = [9, 0] \<and> pipe_bytes (pipes u 0x87FF8000) = [0]"
proof -
  note d = demo_pipe_simps
  have u: "uaddr demo_mem 0x87FFF000 (16 + of_nat j) = 0x87FFC010 + j" "uwritable demo_mem 0x87FFF000 (16 + of_nat j)"
    "upage demo_mem 0x87FFF000 (of_nat j)" "uaddr demo_mem 0x87FFF000 (of_nat j) = 0x87FFC000 + j" if "j < 2" for j
    using demo_user [of "16 + j"] demo_user [of j] that by (simp_all add: uwritable_def)
  have o: "out_area {} (mem demo_pipe) (pagetable (procs demo_pipe 1)) 16 0 2"
    unfolding d(4,5) using u by (auto simp: out_area_def demo_tables span_def inj_on_def)
  have ub: "user_bytes demo_mem 0x87FFF000 0 0 2 = [0, 0]"
    using u(4) [of 0] u(4) [of 1] by (simp add: user_bytes_def numeral_2_eq_2)
      (simp add: demo_mem_def store64_def wr_def ent_def entry_def)
  from pipe_fifo [OF d(1,2,3,6), of 2 0 16 2] o u(3) show ?thesis unfolding d by (auto simp: ub min_def)
qed

subsection \<open>Waiting and closed ends\<close>

lemma pipe_sleeps:
  fixes s :: "'x ftstate_scheme"
  assumes q: "quiet p s" "noff (this_cpu (mach s)) = 0"
  shows "sleep ch (Lk_pipe pi) (s\<lparr>mach := acq (Lk_pipe pi) (mach s), procs := ps\<rparr>) = Swtch (s\<lparr>mach := acq (Lk_proc p) (mach s),
    procs := ps(p := (ps p)\<lparr>chan := Some ch, pstate := SLEEPING, k_intena := sie (this_cpu (mach s))\<rparr>)\<rparr>)"
proof -
  let ?a = "s\<lparr>mach := acq (Lk_pipe pi) (mach s), procs := ps\<rparr>"
  have "sleep ch (Lk_pipe pi) ?a = Swtch (?a\<lparr>mach := rel (Lk_pipe pi) (acq (Lk_proc p) (settle (mach ?a))),
      procs := (procs ?a)(p := (procs ?a p)\<lparr>chan := Some ch, pstate := SLEEPING, k_intena := intena (this_cpu (mach ?a))\<rparr>)\<rparr>)"
    by (rule sleep_exec) (use q quietD [OF q(1)] noff_acq [of "Lk_pipe pi" "mach s"] in \<open>simp_all add: lock_simps\<close>)
  moreover have "intena (this_cpu (mach ?a)) = sie (this_cpu (mach s))" using q(2) by (simp add: acq_def)
  ultimately show ?thesis using quietD [OF q(1)] by (simp add: lock_simps)
qed

text \<open>
  C25. A pipe never loses a wakeup or a caller. A write to a pipe whose reading end is closed, or by a killed process, returns
  -1 and changes nothing. A write to a full pipe wakes every sleeping reader and goes to sleep, a read from an
  empty pipe with an open writing end goes to sleep, in both cases with the contents unchanged and the lock of
  the pipe free; a read from an empty pipe whose writing end is closed returns 0.
\<close>

theorem pipe_waits:
  fixes s :: "'x ftstate_scheme"
  assumes q: "quiet p s" "noff (this_cpu (mach s)) = 0" and n: "0 < n"
  shows "(\<not> readopen (pipes s pi) \<or> pkilled (procs s p) \<noteq> 0 \<longrightarrow> pipewrite pi a n s = Done (- 1) (s\<lparr>mach := settle (mach s)\<rparr>)) \<and>
    (readopen (pipes s pi) \<and> pkilled (procs s p) = 0 \<and> length (pipe_bytes (pipes s pi)) = 512 \<longrightarrow>
      (\<exists>t. pipewrite pi a n s = Swtch t \<and> pipes t = pipes s \<and> lk_free (Lk_pipe pi) (mach t) \<and>
        pstate (procs t p) = SLEEPING \<and> chan (procs t p) = Some (Ch_nwrite pi) \<and>
        (\<forall>r < NPROC. r \<noteq> p \<longrightarrow> \<not> (pstate (procs t r) = SLEEPING \<and> chan (procs t r) = Some (Ch_nread pi))))) \<and>
    (pipe_bytes (pipes s pi) = [] \<and> writeopen (pipes s pi) \<and> pkilled (procs s p) = 0 \<longrightarrow>
      (\<exists>t. piperead pi a n s = Swtch t \<and> pipes t = pipes s \<and> lk_free (Lk_pipe pi) (mach t) \<and>
        pstate (procs t p) = SLEEPING \<and> chan (procs t p) = Some (Ch_nread pi))) \<and>
    (pipe_bytes (pipes s pi) = [] \<and> \<not> writeopen (pipes s pi) \<longrightarrow>
      (\<exists>t. piperead pi a n s = Done 0 t \<and> quiet p t \<and> pipes t = pipes s \<and> mem t = mem s))"
proof -
  let ?a = "s\<lparr>mach := acq (Lk_pipe pi) (mach s)\<rparr>" and ?x = "pipes s pi"
  obtain k where k: "nat n = Suc k" using n by (cases "nat n") auto
  have m: "mach_ok (mach ?a)" "table_free (Some p) (mach ?a)" "lk_free (Lk_proc p) (mach ?a)" "cpu_proc (this_cpu (mach ?a)) = Some p"
    "settle (mach ?a) = mach ?a" "lk_held (Lk_pipe pi) (mach ?a)" "intr_disabled (mach ?a)"
    using quietD [OF q(1)] by (simp_all add: lock_simps table_free_def)
  have w: "pipewrite pi a n s = pipewrite_loop (Suc k) p pi a 0 ?a" and r: "piperead pi a n s = piperead_loop (Suc k) p pi a ?a"
    using quietD [OF q(1)] by (simp_all add: pipewrite_def piperead_def exec_simps lock_simps k)
  have kd: "killed p ?a = Done (pkilled (procs s p)) ?a" using m killed_exec [of ?a p] by simp
  have free: "lk_free (Lk_pipe pi) (acq (Lk_proc p) (mach s))" using quietD [OF q(1)] by (simp add: lock_simps)
  show ?thesis
  proof (intro conjI impI)
    assume "\<not> readopen ?x \<or> pkilled (procs s p) \<noteq> 0"
    then show "pipewrite pi a n s = Done (- 1) (s\<lparr>mach := settle (mach s)\<rparr>)"
      using m quietD [OF q(1)] unfolding w by (cases "readopen ?x") (simp_all add: exec_simps kd lock_simps)
  next
    assume f: "readopen ?x \<and> pkilled (procs s p) = 0 \<and> length (pipe_bytes ?x) = 512"
    then have "nwrite ?x = nread ?x + PIPESIZE" using pipe_full_iff [of ?x] by simp
    then have "pipewrite pi a n s = seq (wakeup (Ch_nread pi)) (seq (sleep (Ch_nwrite pi) (Lk_pipe pi)) (ret 0)) ?a"
      unfolding w using f by (simp add: exec_simps kd)
    also have "\<dots> = seq (sleep (Ch_nwrite pi) (Lk_pipe pi)) (ret 0) (s\<lparr>mach := acq (Lk_pipe pi) (mach s), procs := woken_all (Ch_nread pi) p (procs s)\<rparr>)"
      using m wakeup_exec [of ?a "Ch_nread pi"] by (simp add: seq_exec woken_all_def cong: if_cong)
    finally have run: "pipewrite pi a n s = Swtch (s\<lparr>mach := acq (Lk_proc p) (mach s), procs := (woken_all (Ch_nread pi) p (procs s))(p :=
        (woken_all (Ch_nread pi) p (procs s) p)\<lparr>chan := Some (Ch_nwrite pi), pstate := SLEEPING, k_intena := sie (this_cpu (mach s))\<rparr>)\<rparr>)"
      by (simp add: seq_exec pipe_sleeps [OF q])
    show "\<exists>t. pipewrite pi a n s = Swtch t \<and> pipes t = pipes s \<and> lk_free (Lk_pipe pi) (mach t) \<and>
        pstate (procs t p) = SLEEPING \<and> chan (procs t p) = Some (Ch_nwrite pi) \<and>
        (\<forall>r < NPROC. r \<noteq> p \<longrightarrow> \<not> (pstate (procs t r) = SLEEPING \<and> chan (procs t r) = Some (Ch_nread pi)))"
      unfolding run using free by (auto simp: woken_all_def woken_def)
  next
    assume e: "pipe_bytes ?x = [] \<and> writeopen ?x \<and> pkilled (procs s p) = 0"
    then have "piperead pi a n s = seq (sleep (Ch_nread pi) (Lk_pipe pi)) (ret 0) (s\<lparr>mach := acq (Lk_pipe pi) (mach s), procs := procs s\<rparr>)"
      unfolding r piperead_loop_def using pipe_empty_iff [of ?x] by (simp add: exec_simps kd)
    then have run: "piperead pi a n s = Swtch (s\<lparr>mach := acq (Lk_proc p) (mach s), procs := (procs s)(p :=
        (procs s p)\<lparr>chan := Some (Ch_nread pi), pstate := SLEEPING, k_intena := sie (this_cpu (mach s))\<rparr>)\<rparr>)"
      by (simp only: seq_exec pipe_sleeps [OF q] outcome.case)
    show "\<exists>t. piperead pi a n s = Swtch t \<and> pipes t = pipes s \<and> lk_free (Lk_pipe pi) (mach t) \<and>
        pstate (procs t p) = SLEEPING \<and> chan (procs t p) = Some (Ch_nread pi)"
      unfolding run using free by auto
  next
    assume e: "pipe_bytes ?x = [] \<and> \<not> writeopen ?x"
    then have "piperead pi a n s = piperead_done pi 0 ?a"
      unfolding r piperead_loop_def using pipe_empty_iff [of ?x] by (simp add: exec_simps)
    then show "\<exists>t. piperead pi a n s = Done 0 t \<and> quiet p t \<and> pipes t = pipes s \<and> mem t = mem s"
      using pipe_done(2) [OF q(1), of ?a pi 0] q(1) by (simp add: quiet_def lock_simps)
  qed
qed

theorem pipe_waits_witness:
  "\<exists>t u. pipewrite 7 0 1 (demo_pipe\<lparr>pipes := \<lambda>_. \<lparr>pdata = (\<lambda>_. 9), nread = 0, nwrite = 512, readopen = True, writeopen = True\<rparr>\<rparr>) = Swtch t \<and>
     pstate (procs t 1) = SLEEPING \<and>
     piperead 7 0 1 (demo_pipe\<lparr>pipes := \<lambda>_. \<lparr>pdata = (\<lambda>_. 9), nread = 5, nwrite = 5, readopen = True, writeopen = False\<rparr>\<rparr>) = Done 0 u"
proof -
  let ?f = "demo_pipe\<lparr>pipes := \<lambda>_. \<lparr>pdata = (\<lambda>_. 9), nread = 0, nwrite = 512, readopen = True, writeopen = True\<rparr>\<rparr>"
  let ?e = "demo_pipe\<lparr>pipes := \<lambda>_. \<lparr>pdata = (\<lambda>_. 9), nread = 5, nwrite = 5, readopen = True, writeopen = False\<rparr>\<rparr>"
  have f: "quiet 1 ?f" "noff (this_cpu (mach ?f)) = 0" "pkilled (procs ?f 1) = 0" and e: "quiet 1 ?e" "noff (this_cpu (mach ?e)) = 0"
    using demo_pipe_simps(1,3,9) by (simp_all add: quiet_def)
  have b: "length (pipe_bytes (pipes ?f 7)) = 512" "pipe_bytes (pipes ?e 7) = []"
    by (simp_all add: length_pipe_bytes) (simp add: pipe_empty_iff [symmetric])
  obtain t where "pipewrite 7 0 1 ?f = Swtch t" "pstate (procs t 1) = SLEEPING"
    using pipe_waits [OF f(1,2), of 1 7 0] f(3) b(1) by auto
  moreover obtain u where "piperead 7 0 1 ?e = Done 0 u"
    using pipe_waits [OF e, of 1 7 0] b(2) by auto
  ultimately show ?thesis by blast
qed

end
