(* ===== verification/Ulib.thy ===== *)
theory Ulib
  imports Kstring
begin

text \<open>
  \<^verbatim>\<open>user/ulib.c\<close>: the C library of user programs. Memory is a function from addresses to bytes, as in the
  theory of the kernel's string routines. A loop that ends only at a NUL is a partial function, with value \<open>None\<close> when
  there is no NUL. System calls are arguments, functions on a state of the rest of the system.
\<close>

partial_function (option) strcpy_loop :: "bytes \<Rightarrow> nat \<Rightarrow> nat \<Rightarrow> bytes option" where
  "strcpy_loop m s t = (if m t \<noteq> 0 then strcpy_loop (m(s := m t)) (s + 1) (t + 1) else Some (m(s := m t)))"

definition strcpy :: "bytes \<Rightarrow> nat \<Rightarrow> nat \<Rightarrow> (bytes \<times> nat) option" where
  "strcpy m s t = map_option (\<lambda>m'. (m', s)) (strcpy_loop m s t)"

partial_function (option) strcmp :: "bytes \<Rightarrow> nat \<Rightarrow> nat \<Rightarrow> int option" where
  "strcmp m p q = (if m p \<noteq> 0 \<and> m p = m q then strcmp m (p + 1) (q + 1) else Some (byte_diff (m p) (m q)))"

partial_function (option) u_strlen_loop :: "bytes \<Rightarrow> nat \<Rightarrow> nat \<Rightarrow> nat option" where
  "u_strlen_loop m s n = (if m (s + n) \<noteq> 0 then u_strlen_loop m s (n + 1) else Some n)"

definition u_strlen :: "bytes \<Rightarrow> nat \<Rightarrow> nat option" where
  "u_strlen m s = u_strlen_loop m s 0"

function u_memset_loop :: "bytes \<Rightarrow> nat \<Rightarrow> int \<Rightarrow> nat \<Rightarrow> nat \<Rightarrow> bytes" where
  "u_memset_loop m dst c i n = (if i < n then u_memset_loop (m(dst + i := of_int c)) dst c (i + 1) n else m)"
  by auto
termination by (relation "measure (\<lambda>(m, dst, c, i, n). n - i)") auto

declare u_memset_loop.simps [simp del]

definition u_memset :: "bytes \<Rightarrow> nat \<Rightarrow> int \<Rightarrow> nat \<Rightarrow> bytes" where
  "u_memset m dst c n = u_memset_loop m dst c 0 n"

partial_function (option) strchr :: "bytes \<Rightarrow> nat \<Rightarrow> u8 \<Rightarrow> nat option option" where
  "strchr m s c = (if m s \<noteq> 0 then if m s = c then Some (Some s) else strchr m (s + 1) c else Some None)"

text \<open>\<^verbatim>\<open>gets\<close> reads the standard input byte by byte; at the end of the input the read returns 0.\<close>

function gets_loop :: "bytes \<Rightarrow> nat \<Rightarrow> nat \<Rightarrow> nat \<Rightarrow> u8 list \<Rightarrow> bytes \<times> nat \<times> u8 list" where
  "gets_loop m buf i nmax inp =
     (if i + 1 < nmax then
        case inp of
          [] \<Rightarrow> (m, i, [])
        | c # rest \<Rightarrow>
            if c = 10 \<or> c = 13 then (m(buf + i := c), i + 1, rest)
            else gets_loop (m(buf + i := c)) buf (i + 1) nmax rest
      else (m, i, inp))"
  by pat_completeness auto
termination by (relation "measure (\<lambda>(m, buf, i, nmax, inp). nmax - i)") auto

declare gets_loop.simps [simp del]

definition u_gets :: "bytes \<Rightarrow> nat \<Rightarrow> nat \<Rightarrow> u8 list \<Rightarrow> bytes \<times> u8 list" where
  "u_gets m buf nmax inp = (let (m', i, rest) = gets_loop m buf 0 nmax inp in (m'(buf + i := 0), rest))"

definition u_stat :: "('n \<Rightarrow> nat \<Rightarrow> 'w \<Rightarrow> int \<times> 'w) \<Rightarrow> (int \<Rightarrow> nat \<Rightarrow> 'w \<Rightarrow> int \<times> 'w) \<Rightarrow> (int \<Rightarrow> 'w \<Rightarrow> int \<times> 'w) \<Rightarrow>
    'n \<Rightarrow> nat \<Rightarrow> 'w \<Rightarrow> int \<times> 'w" where
  "u_stat opn fstat cls n st w =
     (let (fd, w) = opn n 0 w in
      if fd < 0 then (- 1, w)
      else
        let (r, w) = fstat fd st w; (_, w) = cls fd w in (r, w))"

text \<open>The arithmetic of \<^verbatim>\<open>atoi\<close> is that of \<^verbatim>\<open>int\<close>, at 32 bits.\<close>

partial_function (option) atoi_loop :: "bytes \<Rightarrow> nat \<Rightarrow> u32 \<Rightarrow> u32 option" where
  "atoi_loop m s n = (if 48 \<le> m s \<and> m s \<le> 57 then atoi_loop m (s + 1) (n * 10 + of_nat (unat (m s)) - 48) else Some n)"

definition atoi :: "bytes \<Rightarrow> nat \<Rightarrow> int option" where
  "atoi m s = map_option sint (atoi_loop m s 0)"

definition u_memmove :: "bytes \<Rightarrow> nat \<Rightarrow> nat \<Rightarrow> nat \<Rightarrow> bytes" where
  "u_memmove m vdst vsrc n = (if vsrc > vdst then move_up m vdst vsrc n else move_down m (vdst + n) (vsrc + n) n)"

fun u_memcmp :: "bytes \<Rightarrow> nat \<Rightarrow> nat \<Rightarrow> nat \<Rightarrow> int" where
  "u_memcmp m p1 p2 0 = 0"
| "u_memcmp m p1 p2 (Suc n) = (if m p1 \<noteq> m p2 then byte_diff (m p1) (m p2) else u_memcmp m (p1 + 1) (p2 + 1) n)"

definition u_memcpy :: "bytes \<Rightarrow> nat \<Rightarrow> nat \<Rightarrow> nat \<Rightarrow> bytes" where
  "u_memcpy m dst src n = u_memmove m dst src n"

subsection \<open>Strings in memory\<close>

text \<open>\<open>str_at m p w\<close>: the string at \<open>p\<close> is \<open>w\<close>.\<close>

definition str_at :: "bytes \<Rightarrow> nat \<Rightarrow> u8 list \<Rightarrow> bool" where
  "str_at m p w = ((\<forall>k < length w. m (p + k) = w ! k) \<and> m (p + length w) = 0 \<and> 0 \<notin> set w)"

lemma str_at_Nil [simp]: "str_at m p [] \<longleftrightarrow> m p = 0"
  by (simp add: str_at_def)

lemma str_at_Cons [simp]: "str_at m p (c # w) \<longleftrightarrow> m p = c \<and> c \<noteq> 0 \<and> str_at m (p + 1) w"
  by (auto simp: str_at_def All_less_Suc2)

lemma str_at_append: "str_at m p (v @ w) \<longleftrightarrow> (\<forall>k < length v. m (p + k) = v ! k) \<and> 0 \<notin> set v \<and> str_at m (p + length v) w"
proof (induction v arbitrary: p)
  case (Cons c v)
  have "(\<forall>k < length (c # v). m (p + k) = (c # v) ! k) \<longleftrightarrow> m p = c \<and> (\<forall>k < length v. m (p + 1 + k) = v ! k)"
    by (simp add: All_less_Suc2)
  then show ?case using Cons.IH [of "p + 1"] by auto
qed simp

lemma str_at_cong: "(\<And>i. p \<le> i \<Longrightarrow> i \<le> p + length w \<Longrightarrow> m' i = m i) \<Longrightarrow> str_at m' p w = str_at m p w"
  by (simp add: str_at_def)

lemma str_at_cstr: "str_at m p w \<Longrightarrow> length w < n \<Longrightarrow> cstr n m p = w"
  by (rule cstr_list) (auto simp: str_at_def)

lemma strchr_str_at: "str_at m p w \<Longrightarrow> c \<noteq> 0 \<Longrightarrow>
  strchr m p c = Some (if c \<in> set w then Some (p + length (takeWhile (\<lambda>x. x \<noteq> c) w)) else None)"
  by (induction w arbitrary: p) (auto simp: strchr.simps)

lemma strcmp_str_at: "str_at m p v \<Longrightarrow> str_at m q w \<Longrightarrow> \<exists>r. strcmp m p q = Some r \<and> (r = 0 \<longleftrightarrow> v = w)"
proof (induction v arbitrary: p q w)
  case Nil
  then show ?case by (cases w) (auto simp: strcmp.simps)
next
  case (Cons c v)
  then show ?case by (cases w) (auto simp: strcmp.simps)
qed

lemma strcpy_loop_blit:
  assumes "str_at m t w" "s + length w < t \<or> t + length w < s"
  shows "strcpy_loop m s t = Some (blit (Suc (length w)) m t s m)"
  using assms
proof (induction w arbitrary: m s t)
  case Nil
  then show ?case by (auto simp: strcpy_loop.simps blit_def fun_eq_iff)
next
  case (Cons c w)
  have "str_at (m(s := c)) (t + 1) w" using Cons.prems by (subst str_at_cong [of _ _ _ m]) auto
  from Cons.IH [OF this, of "s + 1"] Cons.prems
  have "strcpy_loop (m(s := c)) (s + 1) (t + 1) = Some (blit (Suc (length w)) (m(s := c)) (t + 1) (s + 1) (m(s := c)))" by (auto simp: fun_upd_def)
  moreover have "blit (Suc (length w)) (m(s := c)) (t + 1) (s + 1) (m(s := c)) = blit (Suc (length (c # w))) m t s m"
    using Cons.prems by (auto simp: blit_def fun_eq_iff Suc_diff_Suc le_Suc_eq)
  ultimately show ?case using Cons.prems by (simp add: strcpy_loop.simps)
qed

lemma u_memmove_blit: "u_memmove m dst src n = blit n m src dst m"
  by (simp add: u_memmove_def move_up_blit move_down_blit)

lemma u_memset_fill: "i \<le> n \<Longrightarrow> u_memset_loop m dst c i n = fill (n - i) (of_int c) (dst + i) m"
proof (induction m dst c i n rule: u_memset_loop.induct)
  case (1 m dst c i n)
  then show ?case
    by (subst u_memset_loop.simps) (auto simp: fill_def fun_eq_iff fun_upd_def cong: if_cong)
qed

lemma u_memcmp_memcmp: "u_memcmp m p1 p2 n = memcmp m p1 m p2 n"
  by (induction n arbitrary: p1 p2) simp_all

lemma u_strlen_loop_first:
  "(\<forall>j. n \<le> j \<and> j < k \<longrightarrow> d (s + j) \<noteq> 0) \<Longrightarrow> d (s + k) = 0 \<Longrightarrow> n \<le> k \<Longrightarrow> u_strlen_loop d s n = Some k"
proof (induction "k - n" arbitrary: n)
  case 0
  then show ?case by (subst u_strlen_loop.simps) simp
next
  case (Suc x)
  then have "u_strlen_loop d s (n + 1) = Some k" by (intro Suc.hyps(1)) auto
  with Suc show ?case by (subst u_strlen_loop.simps) auto
qed

lemma strlen_agree: "d (s + k) = 0 \<Longrightarrow> u_strlen d s = strlen d s"
proof -
  assume z: "d (s + k) = 0"
  define j where "j = (LEAST j. d (s + j) = 0)"
  have "d (s + j) = 0" "\<forall>i. 0 \<le> i \<and> i < j \<longrightarrow> d (s + i) \<noteq> 0"
    unfolding j_def using LeastI [of "\<lambda>j. d (s + j) = 0", OF z] not_less_Least [of _ "\<lambda>j. d (s + j) = 0"] by auto
  then show ?thesis
    using u_strlen_loop_first [of 0 j d s] strlen_loop_first [of 0 j d s] by (simp add: u_strlen_def strlen_def)
qed

subsection \<open>Properties\<close>

text \<open>
  C32. The C library of user programs and the one of the kernel are equivalent: \<^verbatim>\<open>memmove\<close>, where the two decide differently
  in which direction to copy, has the same effect on memory for every overlap of source and destination, and so
  have \<^verbatim>\<open>memcpy\<close> and \<^verbatim>\<open>memset\<close>; \<^verbatim>\<open>memcmp\<close> and, for terminated strings, \<^verbatim>\<open>strlen\<close> return the same. The two routines only user programs have
  are correct: after \<^verbatim>\<open>strcpy\<close> into a disjoint area \<^verbatim>\<open>strcmp\<close> of the copy and the original returns 0, and
  \<^verbatim>\<open>strcmp\<close> returns 0 on equal strings only.
\<close>

theorem ulib_agrees:
  assumes v: "str_at m t v" and w: "str_at m q w" and dis: "s + length v < t \<or> t + length v < s"
  shows "u_memmove m a b n = memmove m a b n \<and> u_memcpy m a b n = memcpy m a b n \<and> u_memset m a c n = memset m a c n \<and>
    u_memcmp m a b n = memcmp m a m b n \<and> u_strlen m t = strlen m t \<and> strlen m t = Some (length v) \<and>
    (\<exists>m'. strcpy m s t = Some (m', s) \<and> str_at m' s v \<and> strcmp m' s t = Some 0 \<and> (\<forall>i. i < s \<or> s + length v < i \<longrightarrow> m' i = m i)) \<and>
    (\<exists>r. strcmp m t q = Some r \<and> (r = 0 \<longleftrightarrow> v = w))"
proof -
  let ?m = "blit (Suc (length v)) m t s m"
  have "str_at ?m s v" using v by (auto simp: str_at_def blit_def)
  moreover have "str_at ?m t v" using v dis by (subst str_at_cong [of _ _ _ m]) (auto simp: blit_def)
  ultimately have "str_at ?m s v" "strcmp ?m s t = Some 0" using strcmp_str_at [of ?m s v t v] by auto
  moreover have "strlen m t = Some (length v)"
    using v strlen_loop_first [of 0 "length v" m t] by (auto simp: str_at_def strlen_def in_set_conv_nth)
  moreover have "u_strlen m t = strlen m t" using v by (intro strlen_agree [of _ _ "length v"]) (simp add: str_at_def)
  moreover have "strcpy m s t = Some (?m, s)" using strcpy_loop_blit [OF v dis] by (simp add: strcpy_def)
  ultimately show ?thesis
    using strcmp_str_at [OF v w]
    by (auto simp: u_memmove_blit memmove_blit u_memcpy_def memcpy_def u_memset_def u_memset_fill memset_fill u_memcmp_memcmp blit_def)
qed

theorem ulib_agrees_witness:
  "\<exists>m'. strcpy (\<lambda>i. if i = 0 then 97 else if i = 1 then 98 else 0) 10 0 = Some (m', 10) \<and> strcmp m' 10 0 = Some 0"
proof -
  let ?m = "\<lambda>i :: nat. if i = 0 then 97 else if i = 1 then 98 else 0 :: u8"
  have "str_at ?m 0 [97, 98]" "str_at ?m 1 [98]" by simp_all
  from ulib_agrees [OF this, of 10 0 0 0 0] show ?thesis by auto
qed

end
