(* ===== verification/Grep.thy ===== *)
theory Grep
  imports Ulib
begin

text \<open>
  \<^verbatim>\<open>user/grep.c\<close>. Patterns and the text of a line are lists of the bytes before the terminating NUL; the buffer is a
  byte array as in the code. The system call \<^verbatim>\<open>read\<close> takes bytes from the front of the input, and how many the
  \<open>i\<close>-th call returns at most is the argument \<open>lim\<close>: a pipe or a terminal may return fewer bytes than asked for.
\<close>

fun matchhere :: "u8 list \<Rightarrow> u8 list \<Rightarrow> bool" and matchstar :: "u8 \<Rightarrow> u8 list \<Rightarrow> u8 list \<Rightarrow> bool" where
  "matchhere re text =
     (case re of
        [] \<Rightarrow> True
      | c # re' \<Rightarrow>
          (case re' of
             [] \<Rightarrow>
               if c = 36 then text = []
               else (case text of [] \<Rightarrow> False | x # text' \<Rightarrow> (c = 46 \<or> c = x) \<and> matchhere re' text')
           | d # re'' \<Rightarrow>
               if d = 42 then matchstar c re'' text
               else (case text of [] \<Rightarrow> False | x # text' \<Rightarrow> (c = 46 \<or> c = x) \<and> matchhere re' text')))"
| "matchstar c re text =
     (matchhere re text \<or> (case text of [] \<Rightarrow> False | x # text' \<Rightarrow> (x = c \<or> c = 46) \<and> matchstar c re text'))"

declare matchhere.simps [simp del] matchstar.simps [simp del]

primrec match_from :: "u8 list \<Rightarrow> u8 list \<Rightarrow> bool" where
  "match_from re [] = matchhere re []"
| "match_from re (x # text) = (matchhere re (x # text) \<or> match_from re text)"

definition match :: "u8 list \<Rightarrow> u8 list \<Rightarrow> bool" where
  "match re text = (case re of [] \<Rightarrow> match_from re text | c # re' \<Rightarrow> if c = 94 then matchhere re' text else match_from re text)"

text \<open>The loop over the complete lines of the buffer, with what is written to the standard output.\<close>

partial_function (option) grep_lines :: "u8 list \<Rightarrow> bytes \<Rightarrow> nat \<Rightarrow> u8 list \<Rightarrow> (bytes \<times> nat \<times> u8 list) option" where
  "grep_lines pattern buf p out =
     Option.bind (strchr buf p 10) (\<lambda>r. case r of
       None \<Rightarrow> Some (buf, p, out)
     | Some q \<Rightarrow>
         if match pattern (cstr 1024 (buf(q := 0)) p)
         then grep_lines pattern (buf(q := 10)) (q + 1) (out @ map (buf(q := 10)) [p..<q + 1])
         else grep_lines pattern (buf(q := 0)) (q + 1) out)"

partial_function (option) grep :: "(nat \<Rightarrow> nat) \<Rightarrow> u8 list \<Rightarrow> nat \<Rightarrow> u8 list \<Rightarrow> bytes \<Rightarrow> nat \<Rightarrow> u8 list \<Rightarrow> u8 list option" where
  "grep lim pattern i inp buf m out =
     (let n = min (1024 - m - 1) (min (lim i) (length inp)) in
      if n > 0 then
        Option.bind (grep_lines pattern ((blit n (\<lambda>k. inp ! k) 0 m buf)(m + n := 0)) 0 out) (\<lambda>(buf, p, out).
        grep lim pattern (i + 1) (drop n inp) (u_memmove buf 0 p (m + n - p)) (m + n - p) out)
      else Some out)"

subsection \<open>The meaning of a pattern\<close>

datatype piece = One u8 | Many u8

definition fits :: "u8 \<Rightarrow> u8 \<Rightarrow> bool" where
  "fits c x = (c = 46 \<or> x = c)"

text \<open>The pieces of a pattern, and whether it ends in a dollar sign, which stands for the end of the line.\<close>

fun pieces :: "u8 list \<Rightarrow> piece list \<times> bool" where
  "pieces [] = ([], False)"
| "pieces [c] = (if c = 36 then ([], True) else ([One c], False))"
| "pieces (c # d # re) =
     (if d = 42 then (Many c # fst (pieces re), snd (pieces re)) else (One c # fst (pieces (d # re)), snd (pieces (d # re))))"

inductive matches :: "piece list \<Rightarrow> u8 list \<Rightarrow> bool" where
  Nil: "matches [] []"
| One: "fits c x \<Longrightarrow> matches ps w \<Longrightarrow> matches (One c # ps) (x # w)"
| Many: "list_all (fits c) v \<Longrightarrow> matches ps w \<Longrightarrow> matches (Many c # ps) (v @ w)"

inductive_simps matches_simps: "matches [] w" "matches (One c # ps) w" "matches (Many c # ps) w"

text \<open>A pattern matches at the beginning of a text.\<close>

definition at_start :: "piece list \<times> bool \<Rightarrow> u8 list \<Rightarrow> bool" where
  "at_start r text = (\<exists>b c. text = b @ c \<and> matches (fst r) b \<and> (snd r \<longrightarrow> c = []))"

lemma at_start_Nil: "at_start ([], e) t \<longleftrightarrow> (e \<longrightarrow> t = [])"
  by (auto simp: at_start_def matches_simps)

lemma at_start_One: "at_start (One c # ps, e) t \<longleftrightarrow> (case t of [] \<Rightarrow> False | x # u \<Rightarrow> fits c x \<and> at_start (ps, e) u)"
  by (cases t) (auto simp: at_start_def matches_simps Cons_eq_append_conv)

lemma at_start_Many: "at_start (Many c # ps, e) t \<longleftrightarrow> (\<exists>v u. t = v @ u \<and> list_all (fits c) v \<and> at_start (ps, e) u)"
  (is "?l = ?r")
proof
  assume ?l
  then obtain b d where "t = b @ d" "matches (Many c # ps) b" "e \<longrightarrow> d = []"
    unfolding at_start_def fst_conv snd_conv by blast
  then obtain v w where "t = v @ w @ d" "list_all (fits c) v" "matches ps w" "e \<longrightarrow> d = []"
    by (auto simp: matches_simps)
  then show ?r unfolding at_start_def fst_conv snd_conv by blast
next
  assume ?r
  then obtain v w d where "t = (v @ w) @ d" "list_all (fits c) v" "matches ps w" "e \<longrightarrow> d = []"
    unfolding at_start_def fst_conv snd_conv append_assoc by blast
  then show ?l unfolding at_start_def fst_conv snd_conv using matches.Many by blast
qed

lemma prefix_rec:
  "(\<exists>v u. t = v @ u \<and> list_all P v \<and> Q u) \<longleftrightarrow> Q t \<or> (case t of [] \<Rightarrow> False | x # r \<Rightarrow> P x \<and> (\<exists>v u. r = v @ u \<and> list_all P v \<and> Q u))"
  (is "?l = ?r")
proof
  assume ?l
  then obtain v u where "t = v @ u" "list_all P v" "Q u" by blast
  then show ?r by (cases v) auto
next
  assume ?r
  then show ?l
  proof
    assume "Q t"
    then show ?l by (intro exI [of _ "[]"] exI [of _ t]) simp
  next
    assume "case t of [] \<Rightarrow> False | x # r \<Rightarrow> P x \<and> (\<exists>v u. r = v @ u \<and> list_all P v \<and> Q u)"
    then obtain x v u where "t = (x # v) @ u" "list_all P (x # v)" "Q u" by (auto split: list.splits)
    then show ?l by blast
  qed
qed

lemma at_start_Many_rec:
  "at_start (Many c # ps, e) t \<longleftrightarrow> at_start (ps, e) t \<or> (case t of [] \<Rightarrow> False | x # u \<Rightarrow> fits c x \<and> at_start (Many c # ps, e) u)"
  unfolding at_start_Many by (rule prefix_rec)

lemma matchhere_matchstar:
  "matchhere re t \<longleftrightarrow> at_start (pieces re) t"
  "matchstar c re t \<longleftrightarrow> at_start (Many c # fst (pieces re), snd (pieces re)) t"
proof (induction re t and c re t rule: matchhere_matchstar.induct)
  case (1 re t)
  consider "re = []" | c where "re = [c]" | c d r where "re = c # d # r" by (metis list.exhaust)
  then show ?case
  proof cases
    case 1
    then show ?thesis by (simp add: matchhere.simps at_start_Nil)
  next
    case (2 c)
    then show ?thesis
      by (cases t) (auto simp: matchhere.simps [of "[c]"] matchhere.simps [of "[]"] at_start_Nil at_start_One fits_def)
  next
    case (3 c d r)
    have "matchhere (d # r) u = at_start (pieces (d # r)) u" if "t = x # u" "d \<noteq> 42" for x u
      using 1(3) [of c "d # r" d r x u] 3 that by simp
    moreover have "matchstar c r t = at_start (Many c # fst (pieces r), snd (pieces r)) t" if "d = 42"
      using 1(2) [of c "d # r" d r] 3 that by simp
    ultimately show ?thesis
      using 3 by (cases t) (auto simp: matchhere.simps [of "c # d # r"] at_start_One fits_def)
  qed
next
  case (2 c re t)
  show ?case
    by (subst at_start_Many_rec, subst matchstar.simps)
      (use 2 in \<open>auto simp: fits_def split: list.splits\<close>)
qed

lemma match_from_suffix: "match_from re t \<longleftrightarrow> (\<exists>a u. t = a @ u \<and> at_start (pieces re) u)"
  by (induction t) (auto simp: matchhere_matchstar(1) Cons_eq_append_conv)

text \<open>The reading of a whole pattern: a caret at its front stands for the beginning of the line.\<close>

definition denotes :: "u8 list \<Rightarrow> u8 list \<Rightarrow> bool" where
  "denotes re t =
     (let anchored = (re \<noteq> [] \<and> hd re = 94); r = pieces (if anchored then tl re else re) in
      \<exists>a b c. t = a @ b @ c \<and> matches (fst r) b \<and> (anchored \<longrightarrow> a = []) \<and> (snd r \<longrightarrow> c = []))"

lemma match_denotes: "match re t \<longleftrightarrow> denotes re t"
proof (cases "re \<noteq> [] \<and> hd re = 94")
  case True
  then obtain r where re: "re = 94 # r" by (cases re) auto
  then show ?thesis by (simp add: match_def denotes_def matchhere_matchstar(1) at_start_def Let_def)
next
  case False
  then have "match re t = match_from re t" by (auto simp: match_def split: list.splits)
  also have "\<dots> = denotes re t" unfolding denotes_def match_from_suffix at_start_def using False by (simp add: Let_def) blast
  finally show ?thesis .
qed

subsection \<open>Lines\<close>

text \<open>
  The complete lines of a text, without their newlines, and what follows the last newline, given the bytes of the
  current line before the text.
\<close>

fun lines :: "u8 list \<Rightarrow> u8 list \<Rightarrow> u8 list list" where
  "lines a [] = []"
| "lines a (x # w) = (if x = 10 then a # lines [] w else lines (a @ [x]) w)"

fun unfinished :: "u8 list \<Rightarrow> u8 list \<Rightarrow> u8 list" where
  "unfinished a [] = a"
| "unfinished a (x # w) = (if x = 10 then unfinished [] w else unfinished (a @ [x]) w)"

definition selected :: "u8 list \<Rightarrow> u8 list list \<Rightarrow> u8 list" where
  "selected re ls = concat (map (\<lambda>l. l @ [10]) (filter (denotes re) ls))"

lemma lines_append: "lines a (v @ w) = lines a v @ lines (unfinished a v) w"
  by (induction v arbitrary: a) auto

lemma unfinished_append: "unfinished a (v @ w) = unfinished (unfinished a v) w"
  by (induction v arbitrary: a) auto

lemma lines_none: "10 \<notin> set w \<Longrightarrow> lines a w = [] \<and> unfinished a w = a @ w"
  by (induction w arbitrary: a) auto

lemma unfinished_props:
  "10 \<notin> set a \<Longrightarrow> 10 \<notin> set (unfinished a w)" "0 \<notin> set a \<union> set w \<Longrightarrow> 0 \<notin> set (unfinished a w)"
  by (induction w arbitrary: a) auto

lemma unfinished_length: "length (unfinished a w) \<le> length a + length w"
proof (induction w arbitrary: a)
  case (Cons x w)
  then show ?case using Cons.IH [of "[]"] Cons.IH [of "a @ [x]"] by simp
qed simp

lemma first_newline: "10 \<notin> set u \<Longrightarrow> takeWhile (\<lambda>x. x \<noteq> 10) (u @ 10 # v) = (u :: u8 list)"
  by (induction u) auto

lemma unfinished_short:
  "\<forall>l \<in> set (lines a w). length l < N \<Longrightarrow> length (unfinished a w) < N \<Longrightarrow> length a < N"
  by (induction w arbitrary: a) (fastforce split: if_splits)+

lemma selected_append [simp]: "selected re (k @ l) = selected re k @ selected re l"
  by (simp add: selected_def)

lemma grep_lines_selects:
  assumes "str_at buf p w" "length w < 1024"
  shows "\<exists>buf'. grep_lines re buf p out = Some (buf', p + length w - length (unfinished [] w), out @ selected re (lines [] w)) \<and>
    str_at buf' (p + length w - length (unfinished [] w)) (unfinished [] w)"
  using assms
proof (induction w arbitrary: buf p out rule: length_induct)
  case (1 w)
  show ?case
  proof (cases "10 \<in> set w")
    case False
    then show ?thesis
      using 1(2) strchr_str_at [OF 1(2), of 10] lines_none [of w "[]"] by (simp add: grep_lines.simps [of re buf] selected_def)
  next
    case True
    then obtain u v where w: "w = u @ 10 # v" and u: "10 \<notin> set u" by (meson split_list_first)
    let ?q = "p + length u" and ?sel = "denotes re u"
    let ?b = "buf(?q := if ?sel then 10 else 0)" and ?o = "out @ (if ?sel then u @ [10] else [])"
    have b: "\<forall>k < length u. buf (p + k) = u ! k" "0 \<notin> set u" "buf ?q = 10" "str_at buf (?q + 1) v"
      using 1(2) by (auto simp: w str_at_append)
    have "strchr buf p 10 = Some (Some ?q)"
      using strchr_str_at [OF 1(2), of 10] True first_newline [OF u, of v] by (simp add: w)
    moreover have "cstr 1024 (buf(?q := 0)) p = u"
      using b 1(3) by (intro str_at_cstr) (auto simp: str_at_def w)
    moreover have "map (buf(?q := 10)) [p..<?q + 1] = u @ [10]"
      using b(1) by (intro nth_equalityI) (auto simp: nth_append less_Suc_eq nth_upt simp del: upt_Suc)
    ultimately have step: "grep_lines re buf p out = grep_lines re ?b (?q + 1) ?o"
      by (subst grep_lines.simps) (simp add: match_denotes del: upt_Suc)
    have "str_at ?b (?q + 1) v" using b(4) by (subst str_at_cong [of _ _ _ buf]) auto
    moreover have "length v < length w" "length v < 1024" using 1(3) by (auto simp: w)
    ultimately obtain c where "grep_lines re ?b (?q + 1) ?o =
        Some (c, ?q + 1 + length v - length (unfinished [] v), ?o @ selected re (lines [] v))"
      "str_at c (?q + 1 + length v - length (unfinished [] v)) (unfinished [] v)"
      using 1(1) by blast
    moreover have "lines [] w = u # lines [] v" "unfinished [] w = unfinished [] v"
      using lines_none [OF u, of "[]"] by (simp_all add: w lines_append unfinished_append)
    ultimately show ?thesis using step by (simp add: w selected_def add.assoc)
  qed
qed

lemma str_at_read:
  assumes "0 \<notin> set a \<union> set inp" "\<forall>k < length a. buf k = a ! k" "n \<le> length inp"
  shows "str_at ((blit n (\<lambda>k. inp ! k) 0 (length a) buf)(length a + n := 0)) 0 (a @ take n inp)"
  using assms by (auto simp: str_at_def nth_append blit_def dest: in_set_takeD)

lemma grep_selects:
  assumes "\<forall>i. 0 < lim i" "0 \<notin> set a \<union> set inp" "10 \<notin> set a" "\<forall>k < length a. buf k = a ! k"
    "\<forall>l \<in> set (lines a inp). length l < 1023" "length (unfinished a inp) < 1023"
  shows "grep lim re i inp buf (length a) out = Some (out @ selected re (lines a inp))"
  using assms
proof (induction inp arbitrary: a buf i out rule: length_induct)
  case (1 inp)
  let ?n = "min (1024 - length a - 1) (min (lim i) (length inp))"
  have a: "length a < 1023" using unfinished_short 1(6,7) by blast
  show ?case
  proof (cases "inp = []")
    case True
    then show ?thesis by (subst grep.simps) (simp add: selected_def)
  next
    case False
    then have n: "0 < ?n" "?n \<le> length inp" "length a + ?n < 1024" using a 1(2) by (auto simp: min_def)
    define n where "n = ?n"
    define c where "c = take n inp"
    define r where "r = drop n inp"
    have inp: "inp = c @ r" "length c = n" "length r < length inp" using n by (simp_all add: c_def r_def n_def)
    let ?b = "(blit n (\<lambda>k. inp ! k) 0 (length a) buf)(length a + n := 0)"
    have "str_at ?b 0 (a @ c)"
      unfolding c_def using n(2) by (intro str_at_read 1(3,5)) (simp add: n_def)
    moreover have un: "lines [] (a @ c) = lines a c" "unfinished [] (a @ c) = unfinished a c"
      using lines_none [OF 1(4), of "[]"] by (simp_all add: lines_append unfinished_append)
    ultimately obtain b where b: "grep_lines re ?b 0 out = Some (b, length a + n - length (unfinished a c), out @ selected re (lines a c))"
      "str_at b (length a + n - length (unfinished a c)) (unfinished a c)"
      using grep_lines_selects [of ?b 0 "a @ c" re out] n(3) [folded n_def] inp(2) by auto
    let ?u = "unfinished a c" and ?m = "u_memmove b 0 (length a + n - length (unfinished a c)) (length (unfinished a c))"
    have le: "length ?u \<le> length a + n" using unfinished_length [of a c] inp(2) by simp
    have l: "lines a inp = lines a c @ lines ?u r" "unfinished a inp = unfinished ?u r"
      by (simp_all add: inp(1) lines_append unfinished_append)
    have "grep lim re (i + 1) r ?m (length ?u) (out @ selected re (lines a c)) = Some ((out @ selected re (lines a c)) @ selected re (lines ?u r))"
    proof (rule 1(1) [rule_format, OF inp(3)])
      show "0 \<notin> set ?u \<union> set r" using 1(3) unfinished_props(2) [of a c] by (auto simp: inp(1))
      show "10 \<notin> set ?u" using 1(4) by (rule unfinished_props(1))
      show "?m k = ?u ! k" if "k < length ?u" for k using that b(2) by (simp add: u_memmove_blit blit_def str_at_def)
    qed (use 1(2,6,7) l in auto)
    moreover have "length a + n - (length a + n - length ?u) = length ?u" using le by simp
    moreover have "min (1023 - length a) (min (lim i) (length inp)) = n" by (simp add: n_def)
    ultimately show ?thesis
      using n(1) b(1) by (subst grep.simps) (simp add: r_def [symmetric] l(1) Let_def)
  qed
qed

subsection \<open>Properties\<close>

text \<open>
  C16. The backtracking matcher of \<^verbatim>\<open>grep\<close> is equivalent to the meaning of its patterns. A pattern is a sequence of pieces: a byte
  stands for itself, a dot for any byte, and a piece followed by a star for any number of bytes that fit it; a
  caret in front and a dollar sign at the end tie the match to the beginning and the end of the line. \<^verbatim>\<open>match\<close> returns
  true exactly when the line has a part that is such a sequence, at every place the anchors allow.
\<close>

theorem match_equiv:
  "match re t \<longleftrightarrow> (let anchored = (re \<noteq> [] \<and> hd re = 94); r = pieces (if anchored then tl re else re) in
     \<exists>a b c. t = a @ b @ c \<and> matches (fst r) b \<and> (anchored \<longrightarrow> a = []) \<and> (snd r \<longrightarrow> c = []))"
  using match_denotes by (simp only: denotes_def)

theorem match_equiv_witness: "match [98, 42, 99, 36] [97, 98, 98, 99] \<and> \<not> match [94, 98] [97, 98]"
proof -
  have "matches [Many 98, One 99] ([98, 98] @ [99])" by (intro matches.intros) (simp_all add: fits_def)
  then have "\<exists>a b c. [97, 98, 98, 99] = a @ b @ c \<and> matches [Many 98, One 99] b \<and> c = []"
    by (intro exI [of _ "[97]"] exI [of _ "[98, 98, 99]"] exI [of _ "[]"]) simp
  then have "match [98, 42, 99, 36] [97, 98, 98, 99]" by (subst match_equiv) simp
  moreover have "\<not> match [94, 98] [97, 98]" by (subst match_equiv) (auto simp: matches_simps fits_def)
  ultimately show ?thesis by blast
qed

text \<open>
  C22. However the input is cut into pieces by the reads, \<^verbatim>\<open>grep\<close> terminates and writes exactly the lines that match the
  pattern, in order and each with its newline, as long as no line fills the buffer of 1024 bytes
  and the input has no NUL. A last line without a newline is not written.
\<close>

theorem grep_correct:
  assumes "\<forall>i. 0 < lim i" "0 \<notin> set inp" "\<forall>l \<in> set (lines [] inp). length l < 1023" "length (unfinished [] inp) < 1023"
  shows "grep lim re 0 inp buf 0 [] = Some (concat (map (\<lambda>l. l @ [10]) (filter (match re) (lines [] inp))))"
proof -
  have "match re = denotes re" using match_denotes by blast
  then show ?thesis using grep_selects [of lim "[]" inp buf re 0 "[]"] assms by (simp add: selected_def)
qed

theorem grep_correct_witness: "grep (\<lambda>_. 2) [94, 98] 0 [97, 98, 10, 98, 99, 10, 98] (\<lambda>_. 7) 0 [] = Some [98, 99, 10]"
proof -
  have "\<not> match [94, 98] [97, 98]" "match [94, 98] [98, 99]" by code_simp+
  then show ?thesis using grep_correct [of "\<lambda>_. 2" "[97, 98, 10, 98, 99, 10, 98]" "[94, 98]" "\<lambda>_. 7"] by simp
qed

end
