(* ===== verification/Sh.thy ===== *)
theory Sh
  imports Ulib
begin

text \<open>
  \<^verbatim>\<open>user/sh.c\<close>: the parser of the shell. The command line is a byte array with the end \<open>es\<close>, where the NUL is; a word is the
  pair of the positions of its first byte and of the byte after its last, and commands are over words of either kind, such pairs or lists of bytes. The parser returns the command
  and the new position, or the message it panics with. The functions call each other with one unit of
  fuel less, and \<open>None\<close> is that the fuel is used up; four units for every byte of the line and four more are
  enough. Nodes of commands that \<^verbatim>\<open>malloc\<close> returns are values; the command that \<^verbatim>\<open>parseexec\<close> keeps a pointer to
  while it wraps redirections around it is the innermost node of the result.
\<close>

abbreviation (input) MAXARGS :: nat where "MAXARGS \<equiv> 10"

type_synonym span = "nat \<times> nat"

datatype 'w cmd =
  EXEC "'w list"
| REDIR "'w cmd" 'w nat nat
| PIPE "'w cmd" "'w cmd"
| LIST "'w cmd" "'w cmd"
| BACK "'w cmd"

type_synonym 'a parsed = "(string + 'a \<times> nat) option"

definition pbind :: "'a parsed \<Rightarrow> ('a \<Rightarrow> nat \<Rightarrow> 'b parsed) \<Rightarrow> 'b parsed" where
  "pbind r k = (case r of None \<Rightarrow> None | Some (Inl e) \<Rightarrow> Some (Inl e) | Some (Inr (x, s)) \<Rightarrow> k x s)"

lemma pbind_simps [simp]:
  "pbind None k = None" "pbind (Some (Inl e)) k = Some (Inl e)" "pbind (Some (Inr (x, s))) k = k x s"
  by (simp_all add: pbind_def)

lemma pbind_cong [fundef_cong]: "r = r' \<Longrightarrow> (\<And>x s. r' = Some (Inr (x, s)) \<Longrightarrow> k x s = k' x s) \<Longrightarrow> pbind r k = pbind r' k'"
  by (auto simp: pbind_def split: option.splits sum.splits)

definition whitespace :: "u8 list" where
  "whitespace = [32, 9, 13, 10, 11]"

definition symbols :: "u8 list" where
  "symbols = [60, 124, 62, 38, 59, 40, 41]"

subsection \<open>Tokens\<close>

function skip_ws :: "bytes \<Rightarrow> nat \<Rightarrow> nat \<Rightarrow> nat" where
  "skip_ws b es s = (if s < es \<and> b s \<in> set whitespace then skip_ws b es (s + 1) else s)"
  by auto
termination by (relation "measure (\<lambda>(b, es, s). es - s)") auto

function skip_word :: "bytes \<Rightarrow> nat \<Rightarrow> nat \<Rightarrow> nat" where
  "skip_word b es s = (if s < es \<and> b s \<notin> set whitespace \<and> b s \<notin> set symbols then skip_word b es (s + 1) else s)"
  by auto
termination by (relation "measure (\<lambda>(b, es, s). es - s)") auto

declare skip_ws.simps [simp del] skip_word.simps [simp del]

text \<open>The token, where it begins and ends, and the position after it.\<close>

definition gettoken :: "bytes \<Rightarrow> nat \<Rightarrow> nat \<Rightarrow> u8 \<times> nat \<times> nat \<times> nat" where
  "gettoken b es s =
     (let q = skip_ws b es s;
          (tok, e) =
            (if b q = 0 then (0, q)
             else if b q \<in> set [124, 40, 41, 59, 38, 60] then (b q, q + 1)
             else if b q = 62 then if b (q + 1) = 62 then (43, q + 2) else (62, q + 1)
             else (97, skip_word b es q))
      in (tok, q, e, skip_ws b es e))"

definition peek :: "bytes \<Rightarrow> nat \<Rightarrow> nat \<Rightarrow> u8 list \<Rightarrow> bool \<times> nat" where
  "peek b es s toks = (let s = skip_ws b es s in (b s \<noteq> 0 \<and> b s \<in> set toks, s))"

subsection \<open>The parser\<close>

fun add_arg :: "span \<Rightarrow> span cmd \<Rightarrow> span cmd" where
  "add_arg w (EXEC ws) = EXEC (ws @ [w])"
| "add_arg w (REDIR c f m d) = REDIR (add_arg w c) f m d"
| "add_arg w c = c"

primrec parseredirs :: "nat \<Rightarrow> bytes \<Rightarrow> nat \<Rightarrow> span cmd \<Rightarrow> nat \<Rightarrow> span cmd parsed" where
  "parseredirs 0 b es c s = None"
| "parseredirs (Suc n) b es c s =
     (let (is, s) = peek b es s [60, 62] in
      if is then
        let (tok, _, _, s) = gettoken b es s; (tok2, q, eq, s) = gettoken b es s in
        if tok2 \<noteq> 97 then Some (Inl ''missing file for redirection'')
        else if tok = 60 then parseredirs n b es (REDIR c (q, eq) 0 0) s
        else if tok = 62 then parseredirs n b es (REDIR c (q, eq) 0x601 1) s
        else if tok = 43 then parseredirs n b es (REDIR c (q, eq) 0x201 1) s
        else parseredirs n b es c s
      else Some (Inr (c, s)))"

primrec parseargs :: "nat \<Rightarrow> bytes \<Rightarrow> nat \<Rightarrow> span cmd \<Rightarrow> nat \<Rightarrow> nat \<Rightarrow> span cmd parsed" where
  "parseargs 0 b es c argc s = None"
| "parseargs (Suc n) b es c argc s =
     (let (is, s) = peek b es s [124, 41, 38, 59] in
      if is then Some (Inr (c, s))
      else
        let (tok, q, eq, s) = gettoken b es s in
        if tok = 0 then Some (Inr (c, s))
        else if tok \<noteq> 97 then Some (Inl ''syntax'')
        else if argc + 1 \<ge> MAXARGS then Some (Inl ''too many args'')
        else pbind (parseredirs n b es (add_arg (q, eq) c) s) (\<lambda>c s. parseargs n b es c (argc + 1) s))"

primrec parseamps :: "nat \<Rightarrow> bytes \<Rightarrow> nat \<Rightarrow> span cmd \<Rightarrow> nat \<Rightarrow> span cmd parsed" where
  "parseamps 0 b es c s = None"
| "parseamps (Suc n) b es c s =
     (let (is, s) = peek b es s [38] in
      if is then let (_, _, _, s) = gettoken b es s in parseamps n b es (BACK c) s
      else Some (Inr (c, s)))"

fun parseline :: "nat \<Rightarrow> bytes \<Rightarrow> nat \<Rightarrow> nat \<Rightarrow> span cmd parsed"
  and parsepipe :: "nat \<Rightarrow> bytes \<Rightarrow> nat \<Rightarrow> nat \<Rightarrow> span cmd parsed"
  and parseexec :: "nat \<Rightarrow> bytes \<Rightarrow> nat \<Rightarrow> nat \<Rightarrow> span cmd parsed"
  and parseblock :: "nat \<Rightarrow> bytes \<Rightarrow> nat \<Rightarrow> nat \<Rightarrow> span cmd parsed" where
  "parseline 0 b es s = None"
| "parseline (Suc n) b es s =
     pbind (parsepipe n b es s) (\<lambda>c s.
     pbind (parseamps n b es c s) (\<lambda>c s.
     let (is, s) = peek b es s [59] in
     if is then
       let (_, _, _, s) = gettoken b es s in
       pbind (parseline n b es s) (\<lambda>d s. Some (Inr (LIST c d, s)))
     else Some (Inr (c, s))))"
| "parsepipe 0 b es s = None"
| "parsepipe (Suc n) b es s =
     pbind (parseexec n b es s) (\<lambda>c s.
     let (is, s) = peek b es s [124] in
     if is then
       let (_, _, _, s) = gettoken b es s in
       pbind (parsepipe n b es s) (\<lambda>d s. Some (Inr (PIPE c d, s)))
     else Some (Inr (c, s)))"
| "parseexec 0 b es s = None"
| "parseexec (Suc n) b es s =
     (let (is, s) = peek b es s [40] in
      if is then parseblock n b es s
      else pbind (parseredirs n b es (EXEC []) s) (\<lambda>c s. parseargs n b es c 0 s))"
| "parseblock 0 b es s = None"
| "parseblock (Suc n) b es s =
     (let (is, s) = peek b es s [40] in
      if \<not> is then Some (Inl ''parseblock'')
      else
        let (_, _, _, s) = gettoken b es s in
        pbind (parseline n b es s) (\<lambda>c s.
        let (is, s) = peek b es s [41] in
        if \<not> is then Some (Inl ''syntax - missing )'')
        else let (_, _, _, s) = gettoken b es s in parseredirs n b es c s))"

text \<open>The ends of the words of a command, in the order in which \<^verbatim>\<open>nulterminate\<close> overwrites them with a NUL.\<close>

fun nulterminate :: "span cmd \<Rightarrow> bytes \<Rightarrow> bytes" where
  "nulterminate (EXEC ws) b = fold (\<lambda>w b. b(snd w := 0)) ws b"
| "nulterminate (REDIR c f m d) b = (nulterminate c b)(snd f := 0)"
| "nulterminate (PIPE c d) b = nulterminate d (nulterminate c b)"
| "nulterminate (LIST c d) b = nulterminate d (nulterminate c b)"
| "nulterminate (BACK c) b = nulterminate c b"

definition parsecmd :: "nat \<Rightarrow> bytes \<Rightarrow> nat \<Rightarrow> (string + span cmd \<times> bytes) option" where
  "parsecmd n b s =
     Option.bind (u_strlen b s) (\<lambda>len.
     let es = s + len in
     case parseline n b es s of
       None \<Rightarrow> None
     | Some (Inl e) \<Rightarrow> Some (Inl e)
     | Some (Inr (c, s)) \<Rightarrow>
         let (_, s) = peek b es s [] in
         if s \<noteq> es then Some (Inl ''syntax'') else Some (Inr (c, nulterminate c b)))"

subsection \<open>Every line is parsed or refused\<close>

definition wordchar :: "u8 \<Rightarrow> bool" where
  "wordchar c = (c \<notin> set whitespace \<and> c \<notin> set symbols)"

text \<open>A word of the line: not empty, made of word characters, and as long as possible.\<close>

definition word_ok :: "bytes \<Rightarrow> nat \<Rightarrow> nat \<Rightarrow> span \<Rightarrow> bool" where
  "word_ok b s0 es w = (s0 \<le> fst w \<and> fst w < snd w \<and> snd w \<le> es \<and>
     (\<forall>i. fst w \<le> i \<and> i < snd w \<longrightarrow> wordchar (b i)) \<and> (snd w = es \<or> \<not> wordchar (b (snd w))))"

primrec cmd_ok :: "('w \<Rightarrow> bool) \<Rightarrow> 'w cmd \<Rightarrow> bool" where
  "cmd_ok P (EXEC ws) = (length ws < MAXARGS \<and> list_all P ws)"
| "cmd_ok P (REDIR c f m d) = (cmd_ok P c \<and> P f)"
| "cmd_ok P (PIPE c d) = (cmd_ok P c \<and> cmd_ok P d)"
| "cmd_ok P (LIST c d) = (cmd_ok P c \<and> cmd_ok P d)"
| "cmd_ok P (BACK c) = cmd_ok P c"

primrec words :: "'w cmd \<Rightarrow> 'w list" where
  "words (EXEC ws) = ws"
| "words (REDIR c f m d) = words c @ [f]"
| "words (PIPE c d) = words c @ words d"
| "words (LIST c d) = words c @ words d"
| "words (BACK c) = words c"

definition pok :: "nat \<Rightarrow> nat \<Rightarrow> ('a \<Rightarrow> bool) \<Rightarrow> 'a parsed \<Rightarrow> bool" where
  "pok es s Q r = (case r of None \<Rightarrow> False | Some (Inl _) \<Rightarrow> True | Some (Inr (c, s')) \<Rightarrow> s \<le> s' \<and> s' \<le> es \<and> Q c)"

lemma pok_simps [simp]:
  "\<not> pok es s Q None" "pok es s Q (Some (Inl e))" "pok es s Q (Some (Inr (c, s'))) \<longleftrightarrow> s \<le> s' \<and> s' \<le> es \<and> Q c"
  by (simp_all add: pok_def)

lemma parsed_cases: "(r = None \<Longrightarrow> P) \<Longrightarrow> (\<And>e. r = Some (Inl e) \<Longrightarrow> P) \<Longrightarrow> (\<And>c s. r = Some (Inr (c, s)) \<Longrightarrow> P) \<Longrightarrow> P"
  by (metis option.exhaust sum.exhaust surj_pair)

lemma pok_bind:
  "pok es s Q r \<Longrightarrow> (\<And>c s'. s \<le> s' \<Longrightarrow> s' \<le> es \<Longrightarrow> Q c \<Longrightarrow> pok es t R (k c s')) \<Longrightarrow> pok es t R (pbind r k)"
  by (cases r rule: parsed_cases) simp_all

lemma pok_mono: "pok es t Q r \<Longrightarrow> s \<le> t \<Longrightarrow> pok es s Q r"
  by (auto simp: pok_def split: option.splits sum.splits)

lemma skip_ws_step:
  "s < es \<Longrightarrow> b s \<in> set whitespace \<Longrightarrow> skip_ws b es s = skip_ws b es (s + 1)"
  "\<not> (s < es \<and> b s \<in> set whitespace) \<Longrightarrow> skip_ws b es s = s"
  by (subst skip_ws.simps, simp)+

lemma skip_word_step:
  "s < es \<Longrightarrow> wordchar (b s) \<Longrightarrow> skip_word b es s = skip_word b es (s + 1)"
  "\<not> (s < es \<and> wordchar (b s)) \<Longrightarrow> skip_word b es s = s"
  by (subst skip_word.simps, auto simp: wordchar_def)+

lemma skip_ws_bounds: "s \<le> es \<Longrightarrow> s \<le> skip_ws b es s \<and> skip_ws b es s \<le> es"
proof (induction b es s rule: skip_ws.induct)
  case (1 b es s)
  then show ?case by (cases "s < es \<and> b s \<in> set whitespace") (auto simp: skip_ws_step)
qed

lemma skip_ws_stop: "skip_ws b es s < es \<Longrightarrow> b (skip_ws b es s) \<notin> set whitespace"
proof (induction b es s rule: skip_ws.induct)
  case (1 b es s)
  then show ?case by (cases "s < es \<and> b s \<in> set whitespace") (auto simp: skip_ws_step)
qed

lemma skip_ws_idem: "skip_ws b es (skip_ws b es s) = skip_ws b es s"
  using skip_ws_stop by (intro skip_ws_step(2)) blast

lemma skip_word_bounds:
  "s \<le> es \<Longrightarrow> s \<le> skip_word b es s \<and> skip_word b es s \<le> es \<and> (\<forall>i. s \<le> i \<and> i < skip_word b es s \<longrightarrow> wordchar (b i)) \<and>
    (skip_word b es s = es \<or> \<not> wordchar (b (skip_word b es s)))"
proof (induction b es s rule: skip_word.induct)
  case (1 b es s)
  show ?case
  proof (cases "s < es \<and> wordchar (b s)")
    case True
    then have eq: "skip_word b es s = skip_word b es (s + 1)" by (simp add: skip_word_step(1))
    have "s + 1 \<le> es" using True by simp
    with True 1(1) have IH: "s + 1 \<le> skip_word b es (s + 1)" "skip_word b es (s + 1) \<le> es"
      "\<forall>i. s + 1 \<le> i \<and> i < skip_word b es (s + 1) \<longrightarrow> wordchar (b i)"
      "skip_word b es (s + 1) = es \<or> \<not> wordchar (b (skip_word b es (s + 1)))"
      by (simp_all add: wordchar_def)
    have "wordchar (b i)" if "s \<le> i" "i < skip_word b es (s + 1)" for i
      using IH(3) True that by (cases "i = s") auto
    then show ?thesis unfolding eq using IH(1,2,4) by auto
  next
    case False
    then show ?thesis using 1(2) by (auto simp: skip_word_step(2))
  qed
qed

lemma peek_ok:
  assumes "peek b es s toks = (is, s')" "s \<le> es" "b es = 0"
  shows "s \<le> s' \<and> s' \<le> es \<and> (is \<longrightarrow> s' < es) \<and> skip_ws b es s' = s' \<and> (is \<longleftrightarrow> b s' \<noteq> 0 \<and> b s' \<in> set toks)"
proof -
  have s': "s' = skip_ws b es s" "is \<longleftrightarrow> b s' \<noteq> 0 \<and> b s' \<in> set toks" using assms(1) by (auto simp: peek_def Let_def)
  moreover have "s \<le> s' \<and> s' \<le> es" using skip_ws_bounds [OF assms(2)] s' by simp
  moreover have "skip_ws b es s' = s'" using skip_ws_idem s' by simp
  ultimately show ?thesis using assms(3) by (auto simp: le_less)
qed

lemma gettoken_ok:
  assumes g: "gettoken b es s = (tok, q, e, s')" and "s \<le> es" "b es = 0" "s0 \<le> s"
  shows "s \<le> q" "q \<le> e" "e \<le> s'" "s' \<le> es" "tok = 97 \<Longrightarrow> word_ok b s0 es (q, e)" "tok \<noteq> 0 \<Longrightarrow> q < e" "b q \<noteq> 0 \<Longrightarrow> tok \<noteq> 0"
proof -
  have q: "q = skip_ws b es s" "s \<le> q" "q \<le> es" "s' = skip_ws b es e"
    using g skip_ws_bounds [OF assms(2)] by (auto simp: gettoken_def Let_def split: prod.splits)
  have lt: "q < es \<and> b q \<notin> set whitespace" if "b q \<noteq> 0" using that q(1,3) assms(3) skip_ws_stop [of b es s] by (auto simp: le_less)
  have lt2: "q + 1 < es" if "b q \<noteq> 0" "b (q + 1) = 62" using lt [OF that(1)] that assms(3) by (cases "q + 1 = es") auto
  consider "b q = 0" "tok = 0" "e = q" | "b q \<noteq> 0" "tok \<noteq> 0" "tok \<noteq> 97" "q < e" "e \<le> es" | "b q \<noteq> 0" "tok = 97" "e = skip_word b es q" "wordchar (b q)"
    using g lt lt2 unfolding gettoken_def Let_def q(1) [symmetric]
    by (auto simp: wordchar_def symbols_def split: if_splits prod.splits)
  then have "q \<le> e \<and> e \<le> es \<and> (tok = 97 \<longrightarrow> word_ok b s0 es (q, e)) \<and> (tok \<noteq> 0 \<longrightarrow> q < e) \<and> (b q \<noteq> 0 \<longrightarrow> tok \<noteq> 0)"
  proof cases
    case 3
    have "q < skip_word b es q"
      using 3(4) lt [OF 3(1)] skip_word_bounds [of "q + 1" es b] by (auto simp: skip_word_step(1))
    then show ?thesis using 3 skip_word_bounds [OF q(3), of b] q(2) assms(4) by (auto simp: word_ok_def)
  qed (use q in auto)
  then show "s \<le> q" "q \<le> e" "e \<le> s'" "s' \<le> es" "tok = 97 \<Longrightarrow> word_ok b s0 es (q, e)" "tok \<noteq> 0 \<Longrightarrow> q < e" "b q \<noteq> 0 \<Longrightarrow> tok \<noteq> 0"
    using q skip_ws_bounds [of e es b] by auto
qed

text \<open>A simple command with \<open>k\<close> arguments and redirections around it.\<close>

fun simple :: "nat \<Rightarrow> span cmd \<Rightarrow> bool" where
  "simple k (EXEC ws) = (length ws = k)"
| "simple k (REDIR c f m d) = simple k c"
| "simple k c = False"

lemma add_arg_ok: "cmd_ok P c \<Longrightarrow> simple k c \<Longrightarrow> k + 1 < MAXARGS \<Longrightarrow> P w \<Longrightarrow> cmd_ok P (add_arg w c) \<and> simple (k + 1) (add_arg w c)"
  by (induction k c rule: simple.induct) auto

lemma token_after_peek:
  assumes "peek b es s toks = (y, s1)" "y" "gettoken b es s1 = (tok, q, e, s2)" "s \<le> es" "b es = 0" "s0 \<le> s"
  shows "s0 \<le> s2" "s < s2" "s2 \<le> es"
proof -
  have p: "s \<le> s1" "s1 < es" "skip_ws b es s1 = s1" "b s1 \<noteq> 0" using peek_ok [OF assms(1,4,5)] assms(2) by auto
  moreover have "q = s1" using assms(3) p(3) by (auto simp: gettoken_def Let_def split: prod.splits)
  ultimately show "s0 \<le> s2" "s < s2" "s2 \<le> es"
    using gettoken_ok [OF assms(3) _ assms(5), of s1] assms(6) by auto
qed

lemma parseredirs_ok:
  assumes "s \<le> es" "b es = 0" "s0 \<le> s" "es - s < n" "Q c" "\<And>c f m d. Q c \<Longrightarrow> word_ok b s0 es f \<Longrightarrow> Q (REDIR c f m d)"
  shows "pok es s Q (parseredirs n b es c s)"
  using assms(1,3,4,5)
proof (induction n arbitrary: c s)
  case (Suc n)
  obtain y s1 where p: "peek b es s [60, 62] = (y, s1)" by (cases "peek b es s [60, 62]")
  show ?case
  proof (cases "y")
    case False
    moreover have "s \<le> s1 \<and> s1 \<le> es" using peek_ok [OF p Suc.prems(1) assms(2)] by blast
    ultimately show ?thesis using p Suc.prems by simp
  next
    case True
    obtain tok q e s2 where g: "gettoken b es s1 = (tok, q, e, s2)" by (cases "gettoken b es s1")
    obtain tok2 q2 e2 s3 where g2: "gettoken b es s2 = (tok2, q2, e2, s3)" by (cases "gettoken b es s2")
    have s2: "s0 \<le> s2" "s < s2" "s2 \<le> es" using token_after_peek [OF p True g Suc.prems(1) assms(2)] Suc.prems(2) by auto
    note g3 = gettoken_ok [OF g2 s2(3) assms(2) s2(1)]
    have s3: "s < s3" "s3 \<le> es" "s0 \<le> s3" "es - s3 < n" using g3(1-4) s2 Suc.prems(3) by auto
    have "pok es s3 Q (parseredirs n b es c' s3)" if "Q c'" for c' using Suc.IH [OF s3(2,3,4) that] .
    then have "pok es s Q (parseredirs n b es c' s3)" if "Q c'" for c' using pok_mono s3(1) that by (metis less_imp_le)
    then show ?thesis using True p g g2 g3(5) Suc.prems(4) assms(6) by simp
  qed
qed simp

lemma parseargs_ok:
  assumes "s \<le> es" "b es = 0" "s0 \<le> s" "es - s < n" "cmd_ok (word_ok b s0 es) c" "simple argc c"
  shows "pok es s (cmd_ok (word_ok b s0 es)) (parseargs n b es c argc s)"
  using assms(1,3,4,5,6)
proof (induction n arbitrary: c argc s)
  case (Suc n)
  obtain y s1 where p: "peek b es s [124, 41, 38, 59] = (y, s1)" by (cases "peek b es s [124, 41, 38, 59]")
  note p1 = peek_ok [OF p Suc.prems(1) assms(2)]
  obtain tok q e s2 where g: "gettoken b es s1 = (tok, q, e, s2)" by (cases "gettoken b es s1")
  have s1: "s1 \<le> es" "s0 \<le> s1" using p1 Suc.prems(2) by auto
  note g1 = gettoken_ok [OF g s1(1) assms(2) s1(2)]
  show ?case
  proof (cases "\<not> y \<and> tok = 97 \<and> argc + 1 < MAXARGS")
    case False
    then show ?thesis using p p1 g g1 Suc.prems(4) by auto
  next
    case True
    let ?Q = "\<lambda>c. cmd_ok (word_ok b s0 es) c \<and> simple (argc + 1) c"
    have s2: "s < s2" "s2 \<le> es" "s0 \<le> s2" "es - s2 < n" using g1(1-4) g1(6) True p1 s1 Suc.prems(3) by auto
    have "?Q (add_arg (q, e) c)" using add_arg_ok [OF Suc.prems(4,5)] True g1(5) by simp
    then have "pok es s2 ?Q (parseredirs n b es (add_arg (q, e) c) s2)"
      using s2 assms(2) by (intro parseredirs_ok) auto
    then have "pok es s (cmd_ok (word_ok b s0 es)) (pbind (parseredirs n b es (add_arg (q, e) c) s2) (\<lambda>c s. parseargs n b es c (argc + 1) s))"
    proof (rule pok_bind)
      fix c' s'
      assume "s2 \<le> s'" "s' \<le> es" "?Q c'"
      then have "pok es s' (cmd_ok (word_ok b s0 es)) (parseargs n b es c' (argc + 1) s')" using s2 by (intro Suc.IH) auto
      then show "pok es s (cmd_ok (word_ok b s0 es)) (parseargs n b es c' (argc + 1) s')"
        using s2(1) \<open>s2 \<le> s'\<close> by (auto intro: pok_mono)
    qed
    then show ?thesis using True p g by simp
  qed
qed simp

lemma parseamps_ok:
  assumes "s \<le> es" "b es = 0" "es - s < n" "cmd_ok P c"
  shows "pok es s (cmd_ok P) (parseamps n b es c s)"
  using assms(1,3,4)
proof (induction n arbitrary: c s)
  case (Suc n)
  obtain y s1 where p: "peek b es s [38] = (y, s1)" by (cases "peek b es s [38]")
  obtain tok q e s2 where g: "gettoken b es s1 = (tok, q, e, s2)" by (cases "gettoken b es s1")
  show ?case
  proof (cases "y")
    case False
    moreover have "s \<le> s1 \<and> s1 \<le> es" using peek_ok [OF p Suc.prems(1) assms(2)] by blast
    ultimately show ?thesis using p Suc.prems by simp
  next
    case True
    have s2: "s < s2" "s2 \<le> es" using token_after_peek [OF p True g Suc.prems(1) assms(2), of 0] by auto
    then have "pok es s2 (cmd_ok P) (parseamps n b es (BACK c) s2)" using Suc.prems by (intro Suc.IH) auto
    then show ?thesis using True p g s2(1) by (auto intro: pok_mono)
  qed
qed simp

text \<open>The step the callers share: when the expected symbol is there, take it and go on behind it.\<close>

lemma pok_symbol:
  assumes "s \<le> es" "b es = 0" "\<And>s1. s < s1 \<Longrightarrow> s1 \<le> es \<Longrightarrow> pok es s1 Q (k s1)" "\<And>s1. s \<le> s1 \<Longrightarrow> s1 \<le> es \<Longrightarrow> pok es s1 Q (k' s1)"
  shows "pok es s Q (let (y, s1) = peek b es s toks in if y then let (_, _, _, s2) = gettoken b es s1 in k s2 else k' s1)"
proof -
  obtain y s1 where p: "peek b es s toks = (y, s1)" by (cases "peek b es s toks")
  obtain tok q e s2 where g: "gettoken b es s1 = (tok, q, e, s2)" by (cases "gettoken b es s1")
  have s1: "s \<le> s1" "s1 \<le> es" using peek_ok [OF p assms(1,2)] by blast+
  show ?thesis
  proof (cases y)
    case True
    have s2: "s < s2" "s2 \<le> es" using token_after_peek [OF p True g assms(1,2), of 0] by auto
    then have "pok es s Q (k s2)" using assms(3) [OF s2] by (auto intro: pok_mono)
    then show ?thesis using p g True by simp
  next
    case False
    have "pok es s Q (k' s1)" using assms(4) [OF s1] s1(1) by (auto intro: pok_mono)
    then show ?thesis using p False by simp
  qed
qed

text \<open>A parser with \<open>n\<close> units of fuel returns on every rest of the line for which four units per byte and \<open>k\<close> more are enough.\<close>

definition returns :: "bytes \<Rightarrow> nat \<Rightarrow> nat \<Rightarrow> (nat \<Rightarrow> bytes \<Rightarrow> nat \<Rightarrow> nat \<Rightarrow> span cmd parsed) \<Rightarrow> nat \<Rightarrow> nat \<Rightarrow> bool" where
  "returns b s0 es f k n = (\<forall>s. s0 \<le> s \<and> s \<le> es \<and> 4 * (es - s) + k \<le> n \<longrightarrow> pok es s (cmd_ok (word_ok b s0 es)) (f n b es s))"

lemma parseline_step:
  assumes z: "b es = 0" and P: "returns b s0 es parsepipe 3 n" and L: "returns b s0 es parseline 4 n"
  shows "returns b s0 es parseline 4 (Suc n)"
  unfolding returns_def
proof (intro allI impI)
  let ?Q = "cmd_ok (word_ok b s0 es)"
  fix s assume s: "s0 \<le> s \<and> s \<le> es \<and> 4 * (es - s) + 4 \<le> Suc n"
  have "pok es s ?Q (parsepipe n b es s)" using P s by (auto simp: returns_def)
  then show "pok es s ?Q (parseline (Suc n) b es s)" unfolding parseline.simps
  proof (rule pok_bind)
    fix c s1 assume s1: "s \<le> s1" "s1 \<le> es" "?Q c"
    have "pok es s1 ?Q (parseamps n b es c s1)" using s s1 z by (intro parseamps_ok) auto
    then show "pok es s ?Q (pbind (parseamps n b es c s1) (\<lambda>c s. let (y, s) = peek b es s [59] in if y then
        let (_, _, _, s) = gettoken b es s in pbind (parseline n b es s) (\<lambda>d s. Some (Inr (LIST c d, s))) else Some (Inr (c, s))))"
      by (rule pok_bind) (rule pok_mono [OF pok_symbol], use s s1 L z in \<open>auto simp: returns_def intro!: pok_bind [of _ _ ?Q]\<close>)
  qed
qed

lemma parsepipe_step:
  assumes z: "b es = 0" and E: "returns b s0 es parseexec 2 n" and P: "returns b s0 es parsepipe 3 n"
  shows "returns b s0 es parsepipe 3 (Suc n)"
  unfolding returns_def
proof (intro allI impI)
  let ?Q = "cmd_ok (word_ok b s0 es)"
  fix s assume s: "s0 \<le> s \<and> s \<le> es \<and> 4 * (es - s) + 3 \<le> Suc n"
  have "pok es s ?Q (parseexec n b es s)" using E s by (auto simp: returns_def)
  then show "pok es s ?Q (parsepipe (Suc n) b es s)" unfolding parsepipe.simps
    by (rule pok_bind) (rule pok_mono [OF pok_symbol], use s P z in \<open>auto simp: returns_def intro!: pok_bind [of _ _ ?Q]\<close>)
qed

lemma parseexec_step:
  assumes z: "b es = 0" and B: "returns b s0 es parseblock 1 n"
  shows "returns b s0 es parseexec 2 (Suc n)"
  unfolding returns_def
proof (intro allI impI)
  let ?Q = "cmd_ok (word_ok b s0 es)"
  fix s assume s: "s0 \<le> s \<and> s \<le> es \<and> 4 * (es - s) + 2 \<le> Suc n"
  obtain y s1 where p: "peek b es s [40] = (y, s1)" by (cases "peek b es s [40]")
  have s1: "s \<le> s1" "s1 \<le> es" using peek_ok [OF p _ z] s by blast+
  have "pok es s1 (\<lambda>c. ?Q c \<and> simple 0 c) (parseredirs n b es (EXEC []) s1)"
    using s s1 z by (intro parseredirs_ok [of _ es b s0]) auto
  then have "pok es s1 ?Q (pbind (parseredirs n b es (EXEC []) s1) (\<lambda>c s. parseargs n b es c 0 s))"
    by (rule pok_bind) (use s s1 z in \<open>auto intro!: pok_mono [OF parseargs_ok]\<close>)
  moreover have "pok es s1 ?Q (parseblock n b es s1)" using B s s1 by (auto simp: returns_def)
  ultimately show "pok es s ?Q (parseexec (Suc n) b es s)" using p s1(1) by (auto intro: pok_mono)
qed

lemma parseblock_step:
  assumes z: "b es = 0" and L: "returns b s0 es parseline 4 n"
  shows "returns b s0 es parseblock 1 (Suc n)"
  unfolding returns_def
proof (intro allI impI)
  let ?Q = "cmd_ok (word_ok b s0 es)"
  let ?k = "\<lambda>c s. let (y, s) = peek b es s [41] in
    if y then let (_, _, _, s) = gettoken b es s in parseredirs n b es c s else Some (Inl ''syntax - missing )'')"
  fix s assume s: "s0 \<le> s \<and> s \<le> es \<and> 4 * (es - s) + 1 \<le> Suc n"
  have "pok es s ?Q (let (y, s) = peek b es s [40] in if y then let (_, _, _, s) = gettoken b es s in
      pbind (parseline n b es s) ?k else Some (Inl ''parseblock''))"
  proof (rule pok_symbol)
    fix s1 assume s1: "s < s1" "s1 \<le> es"
    then have "pok es s1 ?Q (parseline n b es s1)" using L s by (auto simp: returns_def)
    then show "pok es s1 ?Q (pbind (parseline n b es s1) ?k)"
      by (rule pok_bind) (rule pok_mono [OF pok_symbol], use s s1 z in \<open>auto intro!: parseredirs_ok [of _ es b s0]\<close>)
  qed (use s z in auto)
  moreover have "(if \<not> y then a else d) = (if y then d else a)" for y and a d :: "span cmd parsed" by simp
  ultimately show "pok es s ?Q (parseblock (Suc n) b es s)" by (simp only: parseblock.simps)
qed

lemma parse_returns:
  assumes z: "b es = 0"
  shows "returns b s0 es parseline 4 n \<and> returns b s0 es parsepipe 3 n \<and> returns b s0 es parseexec 2 n \<and> returns b s0 es parseblock 1 n"
proof (induction n)
  case (Suc n)
  then show ?case using parseline_step [of b es, OF z] parsepipe_step [of b es, OF z] parseexec_step [of b es, OF z] parseblock_step [of b es, OF z] by blast
qed (simp add: returns_def)

subsection \<open>The words after \<^verbatim>\<open>nulterminate\<close>\<close>

lemma nulterminate_bytes: "nulterminate c b i = (if i \<in> snd ` set (words c) then 0 else b i)"
proof (induction c arbitrary: b)
  case (EXEC ws)
  have "fold (\<lambda>w b. b(snd w := 0)) ws b i = (if i \<in> snd ` set ws then 0 else b i)" for b :: bytes
    by (induction ws arbitrary: b) auto
  then show ?case by simp
qed auto

lemma cmd_ok_words: "cmd_ok P c \<Longrightarrow> w \<in> set (words c) \<Longrightarrow> P w"
  by (induction c) (auto simp: list_all_iff)

lemma cmd_ok_mono: "cmd_ok P c \<Longrightarrow> (\<And>w. P w \<Longrightarrow> Q w) \<Longrightarrow> cmd_ok Q c"
  by (induction c) (auto simp: list_all_iff)

lemma nulterminate_word:
  assumes c: "cmd_ok (word_ok b s0 es) c" and w: "w \<in> set (words c)" and z: "\<forall>i. s0 \<le> i \<and> i < es \<longrightarrow> b i \<noteq> 0"
  shows "str_at (nulterminate c b) (fst w) (map b [fst w..<snd w])"
proof -
  have ok: "word_ok b s0 es v" if "v \<in> set (words c)" for v using cmd_ok_words [OF c that] .
  have "i \<notin> snd ` set (words c)" if "fst w \<le> i" "i < snd w" for i
    using ok [OF w] ok that by (fastforce simp: word_ok_def)
  then show ?thesis using ok [OF w] w z by (auto simp: str_at_def nulterminate_bytes word_ok_def)
qed

subsection \<open>Properties\<close>

text \<open>
  C26. The parser of the shell returns on every line, with a command or a message, and four units of fuel per byte and four
  more are enough. In a command every simple command has fewer than \<^verbatim>\<open>MAXARGS\<close> words, so that the terminating null
  pointer fits the array, and every word is a non-empty range of the line without white space and symbols.
  The NULs that \<^verbatim>\<open>nulterminate\<close> writes destroy no word: afterwards the string at the beginning of each word is that word.
\<close>

theorem parsecmd_bounds:
  assumes line: "str_at b s l" and fuel: "4 * length l + 4 \<le> n"
  shows "(\<exists>e. parsecmd n b s = Some (Inl e)) \<or>
    (\<exists>c b'. parsecmd n b s = Some (Inr (c, b')) \<and> cmd_ok (\<lambda>w. s \<le> fst w \<and> fst w < snd w \<and> snd w \<le> s + length l) c \<and>
      (\<forall>w \<in> set (words c). str_at b' (fst w) (map b [fst w..<snd w]) \<and>
        (\<forall>i. fst w \<le> i \<and> i < snd w \<longrightarrow> b i \<notin> set whitespace \<and> b i \<notin> set symbols)))"
proof -
  let ?es = "s + length l" and ?W = "\<lambda>w. s \<le> fst w \<and> fst w < snd w \<and> snd w \<le> s + length l"
  have b: "b ?es = 0" "\<forall>i. s \<le> i \<and> i < ?es \<longrightarrow> b i \<noteq> 0"
    using line by (auto simp: str_at_def in_set_conv_nth le_iff_add)
  have len: "u_strlen b s = Some (length l)"
    using b u_strlen_loop_first [of 0 "length l" b s] by (simp add: u_strlen_def)
  have "pok ?es s (cmd_ok (word_ok b s ?es)) (parseline n b ?es s)"
    using parse_returns [of b ?es s n] b(1) fuel by (simp add: returns_def)
  then consider e where "parseline n b ?es s = Some (Inl e)"
    | c t where "parseline n b ?es s = Some (Inr (c, t))" "cmd_ok (word_ok b s ?es) c"
    by (cases "parseline n b ?es s" rule: parsed_cases) auto
  then show ?thesis
  proof cases
    case (2 c t)
    have "cmd_ok ?W c" using 2(2) by (rule cmd_ok_mono) (simp add: word_ok_def)
    moreover have "str_at (nulterminate c b) (fst w) (map b [fst w..<snd w])" if "w \<in> set (words c)" for w
      using nulterminate_word [OF 2(2) that b(2)] .
    moreover have "\<forall>i. fst w \<le> i \<and> i < snd w \<longrightarrow> b i \<notin> set whitespace \<and> b i \<notin> set symbols" if "w \<in> set (words c)" for w
      using cmd_ok_words [OF 2(2) that] by (simp add: word_ok_def wordchar_def)
    ultimately show ?thesis using 2(1) len by (auto simp: parsecmd_def Let_def split: prod.splits)
  qed (simp add: parsecmd_def len)
qed

theorem parsecmd_bounds_witness:
  "\<exists>r. parsecmd 20 (\<lambda>i. if i = 0 then 97 else if i = 1 then 62 else if i = 2 then 98 else 0) 0 = Some r"
proof -
  let ?b = "\<lambda>i :: nat. if i = 0 then 97 else if i = 1 then 62 else if i = 2 then 98 else 0 :: u8"
  have "str_at ?b 0 [97, 62, 98]" by simp
  from parsecmd_bounds [OF this, of 20] show ?thesis by auto
qed

end
