(* ===== verification/Sh_Spec.thy ===== *)
theory Sh_Spec
  imports Sh
begin

text \<open>
  Printing and parsing shell commands. A printer for commands whose words are lists of bytes, which puts parentheses where the
  grammar of \<^verbatim>\<open>user/sh.c\<close> needs them, is the specification of what the parser accepts; the parser gives back every command from its text.
\<close>

subsection \<open>Printing a command\<close>

type_synonym redir = "u8 list \<times> nat \<times> nat"

definition show_redir :: "redir \<Rightarrow> u8 list" where
  "show_redir r = (case r of (f, m, d) \<Rightarrow> (if m = 0 then [60] else if m = 0x601 then [62] else [62, 62]) @ f @ [32])"

definition show_words :: "u8 list list \<Rightarrow> u8 list" where
  "show_words ws = concat (map (\<lambda>w. w @ [32]) ws)"

definition paren :: "bool \<Rightarrow> u8 list \<Rightarrow> u8 list" where
  "paren y t = (if y then [40] @ t @ [41] else t)"

text \<open>The levels of the grammar: 0 a line, 1 a pipeline with ampersands, 2 a pipeline, 3 a simple command or a block.\<close>

fun show_cmd :: "nat \<Rightarrow> u8 list cmd \<Rightarrow> u8 list" where
  "show_cmd k (EXEC ws) = show_words ws"
| "show_cmd k (REDIR c f m d) = show_cmd 3 c @ show_redir (f, m, d)"
| "show_cmd k (PIPE c d) = paren (3 \<le> k) (show_cmd 3 c @ [124] @ show_cmd 2 d)"
| "show_cmd k (LIST c d) = paren (1 \<le> k) (show_cmd 1 c @ [59] @ show_cmd 0 d)"
| "show_cmd k (BACK c) = paren (2 \<le> k) (show_cmd 1 c @ [38])"

definition wok :: "u8 list \<Rightarrow> bool" where
  "wok w = (w \<noteq> [] \<and> list_all wordchar w \<and> 0 \<notin> set w)"

definition rok :: "redir \<Rightarrow> bool" where
  "rok r = (case r of (f, m, d) \<Rightarrow> wok f \<and> (m, d) \<in> set [(0, 0), (0x601, 1), (0x201, 1)])"

primrec printable :: "u8 list cmd \<Rightarrow> bool" where
  "printable (EXEC ws) = (length ws < MAXARGS \<and> list_all wok ws)"
| "printable (REDIR c f m d) = (printable c \<and> rok (f, m, d))"
| "printable (PIPE c d) = (printable c \<and> printable d)"
| "printable (LIST c d) = (printable c \<and> printable d)"
| "printable (BACK c) = printable c"

subsection \<open>Text in the line\<close>

definition at :: "bytes \<Rightarrow> nat \<Rightarrow> nat \<Rightarrow> u8 list \<Rightarrow> bool" where
  "at b es s w = (s + length w \<le> es \<and> (\<forall>k < length w. b (s + k) = w ! k))"

lemma at_Nil [simp]: "at b es s [] \<longleftrightarrow> s \<le> es"
  by (simp add: at_def)

lemma at_Cons [simp]: "at b es s (c # w) \<longleftrightarrow> s < es \<and> b s = c \<and> at b es (s + 1) w"
  by (auto simp: at_def All_less_Suc2)

lemma at_append [simp]: "at b es s (v @ w) \<longleftrightarrow> at b es s v \<and> at b es (s + length v) w"
proof (induction v arbitrary: s)
  case Nil
  then show ?case by (auto simp: at_def)
qed simp

definition span_word :: "bytes \<Rightarrow> span \<Rightarrow> u8 list" where
  "span_word b w = map b [fst w..<snd w]"

lemma at_span_word: "at b es s w \<Longrightarrow> span_word b (s, s + length w) = w"
  by (auto simp: at_def span_word_def intro: nth_equalityI)

text \<open>No white space at a position.\<close>

definition nws :: "bytes \<Rightarrow> nat \<Rightarrow> nat \<Rightarrow> bool" where
  "nws b es s = (skip_ws b es s = s)"

lemma nwsI: "b s \<notin> set whitespace \<Longrightarrow> nws b es s"
  by (simp add: nws_def skip_ws_step(2))

lemma peek_nws: "nws b es s \<Longrightarrow> peek b es s toks = (b s \<noteq> 0 \<and> b s \<in> set toks, s)"
  by (simp add: peek_def nws_def)

lemma wordchar_distinct: "wordchar c \<Longrightarrow> c \<notin> set whitespace \<and> c \<noteq> 60 \<and> c \<noteq> 62 \<and> c \<noteq> 124 \<and> c \<noteq> 38 \<and> c \<noteq> 59 \<and> c \<noteq> 40 \<and> c \<noteq> 41"
  by (auto simp: wordchar_def symbols_def)

lemma skip_word_text: "at b es s w \<Longrightarrow> list_all wordchar w \<Longrightarrow> \<not> wordchar (b (s + length w)) \<Longrightarrow> skip_word b es s = s + length w"
  by (induction w arbitrary: s) (auto simp: skip_word_step)

lemma gettoken_symbol:
  assumes "at b es s [c]" "c \<in> set [124, 40, 41, 59, 38, 60]" "nws b es (s + 1)"
  shows "gettoken b es s = (c, s, s + 1, s + 1)"
proof -
  have "c \<notin> set whitespace" "c \<noteq> 0" using assms(2) by (auto simp: whitespace_def)
  then show ?thesis using assms nwsI [of b s es] by (auto simp: gettoken_def Let_def nws_def)
qed

lemma gettoken_greater:
  assumes "at b es s [62]"
  shows "b (s + 1) \<noteq> 62 \<Longrightarrow> nws b es (s + 1) \<Longrightarrow> gettoken b es s = (62, s, s + 1, s + 1)"
    "b (s + 1) = 62 \<Longrightarrow> nws b es (s + 2) \<Longrightarrow> gettoken b es s = (43, s, s + 2, s + 2)"
proof -
  have "skip_ws b es s = s" "b s = 62" using assms nwsI [of b s es] by (auto simp: nws_def whitespace_def)
  then show "b (s + 1) \<noteq> 62 \<Longrightarrow> nws b es (s + 1) \<Longrightarrow> gettoken b es s = (62, s, s + 1, s + 1)"
    "b (s + 1) = 62 \<Longrightarrow> nws b es (s + 2) \<Longrightarrow> gettoken b es s = (43, s, s + 2, s + 2)"
    by (simp_all add: gettoken_def nws_def)
qed

lemma gettoken_word:
  assumes "at b es s (w @ [32])" "wok w" "nws b es (s + length w + 1)"
  shows "gettoken b es s = (97, s, s + length w, s + length w + 1)"
proof -
  obtain c v where w: "w = c # v" using assms(2) by (cases w) (auto simp: wok_def)
  have c: "b s = c" "wordchar c" "c \<noteq> 0" using assms(1,2) by (auto simp: w wok_def)
  have "\<not> wordchar (b (s + length w))" using assms(1) by (simp add: wordchar_def whitespace_def)
  then have "skip_word b es s = s + length w" using assms(1,2) by (intro skip_word_text) (auto simp: wok_def)
  moreover have "skip_ws b es (s + length w) = s + length w + 1"
    using assms(1,3) by (simp add: skip_ws_step(1) nws_def whitespace_def)
  ultimately show ?thesis
    using c wordchar_distinct [OF c(2)] nwsI [of b s es] by (auto simp: gettoken_def Let_def nws_def)
qed

subsection \<open>Parsing what was printed\<close>

text \<open>The parser has no fuel left or returns the command at the given position.\<close>

definition yields :: "bytes \<Rightarrow> u8 list cmd \<Rightarrow> nat \<Rightarrow> span cmd parsed \<Rightarrow> bool" where
  "yields b c e r = (r = None \<or> (\<exists>c'. r = Some (Inr (c', e)) \<and> map_cmd (span_word b) c' = c))"

lemma yields_simps [simp]:
  "yields b c e None" "\<not> yields b c e (Some (Inl x))"
  "yields b c e (Some (Inr (c', e'))) \<longleftrightarrow> e' = e \<and> map_cmd (span_word b) c' = c"
  by (auto simp: yields_def)

lemma yields_bind:
  "yields b c e r \<Longrightarrow> (\<And>c'. map_cmd (span_word b) c' = c \<Longrightarrow> yields b d e' (k c' e)) \<Longrightarrow> yields b d e' (pbind r k)"
  by (cases r rule: parsed_cases) auto

definition wrap :: "u8 list cmd \<Rightarrow> redir list \<Rightarrow> u8 list cmd" where
  "wrap c rs = foldl (\<lambda>c (f, m, d). REDIR c f m d) c rs"

lemma wrap_simps [simp]: "wrap c [] = c" "wrap c ((f, m, d) # rs) = wrap (REDIR c f m d) rs" "wrap c (rs @ [(f, m, d)]) = REDIR (wrap c rs) f m d"
  by (simp_all add: wrap_def)

lemma redir_first: "rok r \<Longrightarrow> \<exists>x t. show_redir r = x # t \<and> (x = 60 \<or> x = 62)"
  by (cases r) (auto simp: show_redir_def)

lemma nws_redirs: "list_all rok rs \<Longrightarrow> at b es s (concat (map show_redir rs)) \<Longrightarrow>
  nws b es (s + length (concat (map show_redir rs))) \<Longrightarrow> nws b es s"
  by (cases rs) (auto dest!: redir_first intro!: nwsI simp: whitespace_def)

lemma parseredirs_step:
  assumes "rok (f, m, d)" "at b es s (show_redir (f, m, d))" "nws b es (s + length (show_redir (f, m, d)))"
  shows "\<exists>q. parseredirs (Suc n) b es c s = parseredirs n b es (REDIR c q m d) (s + length (show_redir (f, m, d))) \<and> span_word b q = f"
proof -
  have f: "wok f" and md: "m = 0 \<and> d = 0 \<or> m = 0x601 \<and> d = 1 \<or> m = 0x201 \<and> d = 1" using assms(1) by (auto simp: rok_def)
  define k where "k = (if m = 0x201 then 2 else 1 :: nat)"
  have len: "s + length (show_redir (f, m, d)) = s + k + length f + 1" using md by (auto simp: show_redir_def k_def)
  have atf: "at b es (s + k) (f @ [32])" using assms(2) md by (auto simp: show_redir_def k_def numeral_2_eq_2)
  then have w: "b (s + k) \<noteq> 62" "nws b es (s + k)"
    using f by (cases f; auto simp: wok_def dest!: wordchar_distinct intro!: nwsI)+
  have g2: "gettoken b es (s + k) = (97, s + k, s + k + length f, s + k + length f + 1)"
    using gettoken_word [OF atf f] assms(3) len by simp
  have bs: "b s = 60 \<or> b s = 62" using assms(2) md by (auto simp: show_redir_def)
  then have pk: "peek b es s [60, 62] = (True, s)" by (subst peek_nws) (auto intro!: nwsI simp: whitespace_def)
  have "gettoken b es s = (if m = 0 then 60 else if m = 0x601 then 62 else 43, s, s + k, s + k)"
    using md
  proof (elim disjE conjE)
    assume "m = 0"
    then show ?thesis using gettoken_symbol [of b es s 60] assms(2) w by (simp add: show_redir_def k_def)
  next
    assume "m = 0x601"
    then show ?thesis using gettoken_greater(1) [of b es s] assms(2) w by (simp add: show_redir_def k_def)
  next
    assume "m = 0x201"
    then show ?thesis using gettoken_greater(2) [of b es s] assms(2) w by (simp add: show_redir_def k_def)
  qed
  then have "parseredirs (Suc n) b es c s = parseredirs n b es (REDIR c (s + k, s + k + length f) m d) (s + k + length f + 1)"
    using md by (elim disjE conjE) (simp_all add: pk g2)
  moreover have "span_word b (s + k, s + k + length f) = f" using at_span_word [of b es "s + k" f] atf by simp
  ultimately show ?thesis unfolding len by blast
qed

lemma parseredirs_text:
  assumes "list_all rok rs" "at b es s (concat (map show_redir rs))" "map_cmd (span_word b) c' = c"
    "e = s + length (concat (map show_redir rs))" "nws b es e" "b e \<noteq> 60" "b e \<noteq> 62"
  shows "yields b (wrap c rs) e (parseredirs n b es c' s)"
  using assms
proof (induction n arbitrary: rs s c' c)
  case (Suc n)
  show ?case
  proof (cases rs)
    case Nil
    then show ?thesis using Suc.prems by (simp add: peek_nws)
  next
    case (Cons r rs')
    obtain f m d where r: "r = (f, m, d)" by (cases r)
    let ?s = "s + length (show_redir (f, m, d))"
    have at': "at b es ?s (concat (map show_redir rs'))" "list_all rok rs'" "e = ?s + length (concat (map show_redir rs'))"
      using Suc.prems(1,2,4) by (simp_all add: Cons r)
    then have "nws b es ?s" using Suc.prems(5) at'(3) nws_redirs [OF at'(2,1)] by simp
    then obtain q where q: "parseredirs (Suc n) b es c' s = parseredirs n b es (REDIR c' q m d) ?s" "span_word b q = f"
      using parseredirs_step [of f m d b es s n c'] Suc.prems(1,2) by (auto simp: Cons r)
    have "yields b (wrap (REDIR c f m d) rs') e (parseredirs n b es (REDIR c' q m d) ?s)"
      using at' Suc.prems(3,5,6,7) q(2) by (intro Suc.IH) auto
    then show ?thesis by (simp only: q(1) Cons r wrap_simps)
  qed
qed simp

text \<open>The position after a piece of text: no white space there, and one of the bytes that may follow.\<close>

definition ends :: "bytes \<Rightarrow> nat \<Rightarrow> u8 list \<Rightarrow> nat \<Rightarrow> bool" where
  "ends b es F e = (nws b es e \<and> b e \<in> set F)"

lemma wok_first: "wok w \<Longrightarrow> at b es s (w @ t) \<Longrightarrow> wordchar (b s) \<and> b s \<noteq> 0 \<and> nws b es s"
  by (cases w) (auto simp: wok_def intro!: nwsI dest: wordchar_distinct)

lemma show_words_Cons [simp]: "show_words [] = []" "show_words (w # ws) = w @ [32] @ show_words ws"
  by (simp_all add: show_words_def)

lemma nws_words:
  assumes "list_all wok ws" "list_all rok rs" "at b es s (show_words ws @ concat (map show_redir rs))"
    "nws b es (s + length (show_words ws @ concat (map show_redir rs)))"
  shows "nws b es s \<and> (ws \<noteq> [] \<longrightarrow> wordchar (b s))"
proof (cases ws)
  case Nil
  then show ?thesis using assms nws_redirs [OF assms(2), of b es s] by simp
next
  case (Cons w ws')
  then have "wok w" "at b es s (w @ [32] @ show_words ws' @ concat (map show_redir rs))" using assms(1,3) by simp_all
  then show ?thesis using wok_first by blast
qed

lemma parseargs_end:
  assumes "ends b es [0, 41, 38, 59, 124] e" "map_cmd (span_word b) c' = c"
  shows "yields b c e (parseargs n b es c' k e)"
  using assms by (cases n) (auto simp: ends_def peek_nws gettoken_def Let_def nws_def)

lemma parseargs_word:
  assumes "wok w" "at b es s (w @ [32])" "nws b es (s + length w + 1)" "k + 1 < MAXARGS"
  shows "parseargs (Suc n) b es (EXEC qs) k s =
    pbind (parseredirs n b es (EXEC (qs @ [(s, s + length w)])) (s + length w + 1)) (\<lambda>c s. parseargs n b es c (k + 1) s)"
proof -
  have ps: "wordchar (b s)" "b s \<noteq> 0" "nws b es s" using wok_first [OF assms(1,2)] by blast+
  have "peek b es s [124, 41, 38, 59] = (False, s)" using wordchar_distinct [OF ps(1)] by (simp add: peek_nws [OF ps(3)])
  moreover have "gettoken b es s = (97, s, s + length w, s + length w + 1)" using gettoken_word [OF assms(2,1,3)] .
  ultimately show ?thesis using assms(4) by simp
qed

lemma parseargs_text:
  assumes "list_all wok ws" "list_all rok rs" "ws = [] \<Longrightarrow> rs = []" "length ws0 + length ws < MAXARGS"
    "at b es s (show_words ws @ concat (map show_redir rs))" "map_cmd (span_word b) c' = EXEC ws0"
    "e = s + length (show_words ws @ concat (map show_redir rs))" "ends b es [0, 41, 38, 59, 124] e"
  shows "yields b (wrap (EXEC (ws0 @ ws)) rs) e (parseargs n b es c' (length ws0) s)"
  using assms
proof (induction n arbitrary: ws ws0 s c')
  case (Suc n)
  show ?case
  proof (cases ws)
    case Nil
    then have "rs = []" "e = s" using Suc.prems(3,7) by simp_all
    then show ?thesis using Nil parseargs_end [OF Suc.prems(8,6)] by (simp del: parseargs.simps)
  next
    case (Cons w ws')
    let ?s = "s + length w + 1" and ?t = "show_words ws' @ concat (map show_redir rs)"
    obtain qs where c': "c' = EXEC qs" "map (span_word b) qs = ws0" using Suc.prems(6) by (cases c') auto
    have at: "at b es s (w @ [32])" "at b es ?s ?t" "e = ?s + length ?t" "wok w" "list_all wok ws'"
      using Suc.prems(1,5,7) by (simp_all add: Cons add.assoc)
    have rest: "nws b es ?s" "ws' \<noteq> [] \<Longrightarrow> wordchar (b ?s)"
      using nws_words [OF at(5) Suc.prems(2) at(2)] at(3) Suc.prems(8) by (auto simp: ends_def)
    let ?c = "EXEC (qs @ [(s, s + length w)])"
    have mc: "map_cmd (span_word b) ?c = EXEC (ws0 @ [w])" using c' at_span_word [of b es s w] at(1) by simp
    have "parseargs (Suc n) b es c' (length ws0) s = pbind (parseredirs n b es ?c ?s) (\<lambda>c s. parseargs n b es c (length (ws0 @ [w])) s)"
      using parseargs_word [OF at(4,1) rest(1)] Suc.prems(4) by (simp add: c'(1) Cons)
    also have "yields b (wrap (EXEC (ws0 @ ws)) rs) e \<dots>"
    proof (cases "ws' = []")
      case True
      then have "yields b (wrap (EXEC (ws0 @ ws)) rs) e (parseredirs n b es ?c ?s)"
        using at Suc.prems(2,8) mc by (intro parseredirs_text) (auto simp: ends_def Cons)
      then show ?thesis by (rule yields_bind) (rule parseargs_end [OF Suc.prems(8)])
    next
      case False
      then have "yields b (wrap (EXEC (ws0 @ [w])) []) ?s (parseredirs n b es ?c ?s)"
        using at(2) rest mc wordchar_distinct [of "b ?s"] by (intro parseredirs_text) (auto simp: at_def)
      then show ?thesis
        by (rule yields_bind) (use at Suc.prems(2,4,8) False Suc.IH [of ws' "ws0 @ [w]"] in \<open>simp add: Cons\<close>)
    qed
    finally show ?thesis .
  qed
qed simp

subsection \<open>The levels of the grammar\<close>

text \<open>A parser gives back a command from its text at a level of the grammar when one of the bytes \<open>F\<close> follows.\<close>

definition parses :: "bytes \<Rightarrow> nat \<Rightarrow> (nat \<Rightarrow> bytes \<Rightarrow> nat \<Rightarrow> nat \<Rightarrow> span cmd parsed) \<Rightarrow> u8 list \<Rightarrow> u8 list cmd \<Rightarrow> u8 list \<Rightarrow> bool" where
  "parses b es p F c t = (\<forall>n s. at b es s t \<and> ends b es F (s + length t) \<longrightarrow> yields b c (s + length t) (p n b es s))"

lemma parsesI: "(\<And>n s e. at b es s t \<Longrightarrow> e = s + length t \<Longrightarrow> ends b es F e \<Longrightarrow> yields b c e (p n b es s)) \<Longrightarrow> parses b es p F c t"
  by (simp add: parses_def)

lemma parsesD: "parses b es p F c t \<Longrightarrow> at b es s t \<Longrightarrow> e = s + length t \<Longrightarrow> ends b es F e \<Longrightarrow> yields b c e (p n b es s)"
  by (simp add: parses_def)

lemma parse_simple:
  assumes "list_all wok ws" "length ws < MAXARGS" "list_all rok rs"
  shows "parses b es parseexec [0, 41, 38, 59, 124] (wrap (EXEC ws) rs) (show_words ws @ concat (map show_redir rs))"
proof (rule parsesI)
  fix n s e
  assume a: "at b es s (show_words ws @ concat (map show_redir rs))" and e: "e = s + length (show_words ws @ concat (map show_redir rs))"
    and f: "ends b es [0, 41, 38, 59, 124] e"
  have s: "nws b es s" "ws \<noteq> [] \<Longrightarrow> wordchar (b s)" using nws_words [OF assms(1,3) a] e f by (auto simp: ends_def)
  show "yields b (wrap (EXEC ws) rs) e (parseexec n b es s)"
  proof (cases n)
    case (Suc k)
    have "b s \<noteq> 40"
    proof (cases "ws = []")
      case True
      then show ?thesis using a e f assms(3) by (cases rs) (auto simp: ends_def dest!: redir_first)
    qed (use s(2) wordchar_distinct in blast)
    then have px: "parseexec n b es s = pbind (parseredirs k b es (EXEC []) s) (\<lambda>c s. parseargs k b es c 0 s)"
      by (simp add: Suc peek_nws [OF s(1)])
    show ?thesis
    proof (cases "ws = []")
      case True
      then have "yields b (wrap (EXEC ws) rs) e (parseredirs k b es (EXEC []) s)"
        using a e f assms(3) by (intro parseredirs_text) (auto simp: ends_def)
      then show ?thesis unfolding px by (rule yields_bind) (rule parseargs_end [OF f])
    next
      case False
      then have "yields b (wrap (EXEC []) []) s (parseredirs k b es (EXEC []) s)"
        using a s wordchar_distinct [of "b s"] by (intro parseredirs_text) (auto simp: at_def)
      then show ?thesis unfolding px
        by (rule yields_bind) (use a e f assms False parseargs_text [of ws rs "[]" b es s _ e k] in simp)
    qed
  qed simp
qed

lemma show_first: "printable c \<Longrightarrow> show_cmd k c = [] \<or> hd (show_cmd k c) \<notin> set whitespace"
proof (induction k c rule: show_cmd.induct)
  case (1 k ws)
  then show ?case by (cases ws; cases "hd ws") (auto simp: wok_def dest: wordchar_distinct)
next
  case (2 k c f m d)
  then show ?case by (cases "show_cmd 3 c") (auto simp: show_redir_def whitespace_def)
qed (auto simp: paren_def whitespace_def hd_append)

lemma nws_show: "printable c \<Longrightarrow> at b es s (show_cmd k c) \<Longrightarrow> nws b es (s + length (show_cmd k c)) \<Longrightarrow> nws b es s"
  using show_first [of c k] by (cases "show_cmd k c") (auto intro: nwsI)

lemma symbol_step:
  assumes "at b es s [c]" "c \<in> set [124, 40, 41, 59, 38, 60]" "nws b es (s + 1)"
  shows "peek b es s [c] = (True, s)" "gettoken b es s = (c, s, s + 1, s + 1)" "nws b es s"
proof -
  show n: "nws b es s" using assms(1,2) by (intro nwsI) (auto simp: whitespace_def)
  show "peek b es s [c] = (True, s)" using assms(1,2) by (auto simp: peek_nws [OF n])
qed (rule gettoken_symbol [OF assms])

lemma parse_block:
  assumes c: "parses b es parseline [0, 41] c (show_cmd 0 c)" "printable c" "list_all rok rs"
  shows "parses b es parseexec [0, 41, 38, 59, 124] (wrap c rs) (([40] @ show_cmd 0 c @ [41]) @ concat (map show_redir rs))"
proof (rule parsesI)
  fix n s e
  let ?m = "s + 1 + length (show_cmd 0 c)"
  assume a: "at b es s (([40] @ show_cmd 0 c @ [41]) @ concat (map show_redir rs))"
    and e: "e = s + length (([40] @ show_cmd 0 c @ [41]) @ concat (map show_redir rs))" and f: "ends b es [0, 41, 38, 59, 124] e"
  have t: "at b es s [40]" "at b es (s + 1) (show_cmd 0 c)" "at b es ?m [41]" "at b es (?m + 1) (concat (map show_redir rs))"
    "e = ?m + 1 + length (concat (map show_redir rs))"
    using a e by (simp_all add: add.assoc)
  have m: "nws b es (?m + 1)" using nws_redirs [OF c(3) t(4)] f t(5) by (simp add: ends_def)
  note close = symbol_step [OF t(3) _ m]
  have "nws b es (s + 1)" using nws_show [OF c(2) t(2)] close(3) by simp
  note opn = symbol_step [OF t(1) _ this]
  have line: "yields b c ?m (parseline k b es (s + 1))" for k
    using close(3) t(3) by (intro parsesD [OF c(1) t(2)]) (simp_all add: ends_def)
  have "yields b (wrap c rs) e (parseredirs k b es c' (?m + 1))" if "map_cmd (span_word b) c' = c" for k c'
    using that t f by (intro parseredirs_text [OF c(3)]) (auto simp: ends_def)
  then have "yields b (wrap c rs) e (parseblock (Suc k) b es s)" for k
    using opn(1,2) close(1,2) by (auto intro!: yields_bind [OF line [simplified]])
  then have "yields b (wrap c rs) e (parseblock k b es s)" for k by (cases k) auto
  then show "yields b (wrap c rs) e (parseexec n b es s)" using opn(1) by (cases n) auto
qed

lemma pipe_exec: "parses b es parseexec [0, 41, 38, 59, 124] c t \<Longrightarrow> parses b es parsepipe [0, 41, 38, 59] c t"
proof (rule parsesI)
  fix n s e
  assume p: "parses b es parseexec [0, 41, 38, 59, 124] c t" and a: "at b es s t" "e = s + length t" and f: "ends b es [0, 41, 38, 59] e"
  have "yields b c e (parseexec k b es s)" for k using f by (intro parsesD [OF p a]) (auto simp: ends_def)
  then show "yields b c e (parsepipe n b es s)"
    using f by (cases n) (auto simp: ends_def peek_nws intro!: yields_bind)
qed

lemma pipe_pipe:
  assumes p: "parses b es parseexec [0, 41, 38, 59, 124] c t" "parses b es parsepipe [0, 41, 38, 59] d (show_cmd 2 d)" "printable d"
  shows "parses b es parsepipe [0, 41, 38, 59] (PIPE c d) (t @ [124] @ show_cmd 2 d)"
proof (rule parsesI)
  fix n s e
  let ?m = "s + length t"
  assume a: "at b es s (t @ [124] @ show_cmd 2 d)" and e: "e = s + length (t @ [124] @ show_cmd 2 d)" and f: "ends b es [0, 41, 38, 59] e"
  have t: "at b es s t" "at b es ?m [124]" "at b es (?m + 1) (show_cmd 2 d)" "e = ?m + 1 + length (show_cmd 2 d)" using a e by simp_all
  have "nws b es (?m + 1)" using nws_show [OF p(3) t(3)] f t(4) by (simp add: ends_def)
  note bar = symbol_step [OF t(2) _ this]
  have l: "yields b c ?m (parseexec k b es s)" for k using bar(3) t(2) by (intro parsesD [OF p(1) t(1)]) (auto simp: ends_def)
  have r: "yields b d e (parsepipe k b es (?m + 1))" for k using parsesD [OF p(2) t(3,4) f] .
  show "yields b (PIPE c d) e (parsepipe n b es s)"
    using bar(1,2) by (cases n) (auto intro!: yields_bind [OF l] yields_bind [OF r [simplified]])
qed

lemma BACK_Suc: "(BACK ^^ k) (BACK c) = (BACK ^^ Suc k) c"
  by (simp add: funpow_swap1)

lemma parseamps_text:
  assumes "at b es s (replicate k 38)" "map_cmd (span_word b) c' = c" "e = s + k" "nws b es e" "b e \<noteq> 38"
  shows "yields b ((BACK ^^ k) c) e (parseamps n b es c' s)"
  using assms
proof (induction n arbitrary: k s c' c)
  case (Suc n)
  show ?case
  proof (cases k)
    case 0
    then show ?thesis using Suc.prems by (simp add: peek_nws)
  next
    case (Suc j)
    have t: "at b es s [38]" "at b es (s + 1) (replicate j 38)" "e = s + 1 + j" using Suc.prems(1,3) by (auto simp: Suc)
    have "nws b es (s + 1)" using t(2,3) Suc.prems(4) by (cases j) (auto intro!: nwsI simp: whitespace_def)
    note amp = symbol_step [OF t(1) _ this]
    have "yields b ((BACK ^^ j) (BACK c)) e (parseamps n b es (BACK c') (s + 1))"
      using t(2,3) Suc.prems(2,4,5) by (intro Suc.IH) auto
    then show ?thesis using amp(1,2) by (simp add: Suc BACK_Suc)
  qed
qed simp

text \<open>A line: a pipeline, ampersands, and possibly a semicolon and another line.\<close>

lemma parse_amps:
  assumes p: "parses b es parsepipe [0, 41, 38, 59] c t" and a: "at b es s (t @ replicate k 38)" and e: "e = s + length t + k"
    and f: "ends b es [0, 41, 59] e"
  shows "yields b ((BACK ^^ k) c) e (pbind (parsepipe n b es s) (\<lambda>c s. parseamps n b es c s))"
proof -
  have "ends b es [0, 41, 38, 59] (s + length t)"
    using a e f by (cases k) (auto simp: ends_def intro!: nwsI simp: whitespace_def)
  then have "yields b c (s + length t) (parsepipe n b es s)" using a by (intro parsesD [OF p]) auto
  then show ?thesis
    by (rule yields_bind) (use a e f in \<open>auto simp: ends_def intro!: parseamps_text\<close>)
qed

lemma pbind_assoc: "pbind (pbind r f) g = pbind r (\<lambda>c s. pbind (f c s) g)"
  by (cases r rule: parsed_cases) simp_all

lemma line_back:
  assumes p: "parses b es parsepipe [0, 41, 38, 59] c t"
  shows "parses b es parseline [0, 41] ((BACK ^^ k) c) (t @ replicate k 38)"
proof (rule parsesI)
  fix n s e
  assume a: "at b es s (t @ replicate k 38)" and e: "e = s + length (t @ replicate k 38)" and f: "ends b es [0, 41] e"
  have l: "yields b ((BACK ^^ k) c) e (pbind (parsepipe j b es s) (\<lambda>c s. parseamps j b es c s))" for j
    using e f by (intro parse_amps [OF p a]) (auto simp: ends_def)
  show "yields b ((BACK ^^ k) c) e (parseline n b es s)"
    using f yields_bind [OF l] by (cases n) (auto simp: ends_def peek_nws pbind_assoc [symmetric])
qed

lemma line_list:
  assumes p: "parses b es parsepipe [0, 41, 38, 59] c t" "parses b es parseline [0, 41] d (show_cmd 0 d)" "printable d"
  shows "parses b es parseline [0, 41] (LIST ((BACK ^^ k) c) d) ((t @ replicate k 38) @ [59] @ show_cmd 0 d)"
proof (rule parsesI)
  fix n s e
  let ?m = "s + length t + k"
  assume a: "at b es s ((t @ replicate k 38) @ [59] @ show_cmd 0 d)" and e: "e = s + length ((t @ replicate k 38) @ [59] @ show_cmd 0 d)"
    and f: "ends b es [0, 41] e"
  have t: "at b es s (t @ replicate k 38)" "at b es ?m [59]" "at b es (?m + 1) (show_cmd 0 d)" "e = ?m + 1 + length (show_cmd 0 d)"
    using a e by (simp_all add: add.assoc)
  have "nws b es (?m + 1)" using nws_show [OF p(3) t(3)] f t(4) by (simp add: ends_def)
  note semi = symbol_step [OF t(2) _ this]
  have l: "yields b ((BACK ^^ k) c) ?m (pbind (parsepipe j b es s) (\<lambda>c s. parseamps j b es c s))" for j
    using semi(3) t(2) by (intro parse_amps [OF p(1) t(1)]) (auto simp: ends_def)
  have r: "yields b d e (parseline j b es (?m + 1))" for j using parsesD [OF p(2) t(3,4) f] .
  show "yields b (LIST ((BACK ^^ k) c) d) e (parseline n b es s)"
    using semi(1,2) by (cases n) (auto simp: pbind_assoc [symmetric] intro!: yields_bind [OF l] yields_bind [OF r [simplified]])
qed

lemma strip_back: "\<exists>k y. x = (BACK ^^ k) y \<and> show_cmd 1 x = show_cmd 2 y @ replicate k 38 \<and> size y \<le> size x \<and> (printable x \<longrightarrow> printable y)"
proof (induction x)
  case (BACK x)
  then obtain k y where y: "x = (BACK ^^ k) y" "show_cmd 1 x = show_cmd 2 y @ replicate k 38" "size y \<le> size x" "printable x \<longrightarrow> printable y"
    by blast
  have "BACK x = (BACK ^^ Suc k) y" using y(1) by simp
  moreover have "show_cmd 1 (BACK x) = show_cmd 2 y @ replicate (Suc k) 38"
    using y(2) by (simp add: paren_def replicate_append_same)
  ultimately show ?case using y(3,4) by (intro exI [of _ "Suc k"] exI [of _ y]) auto
qed (rule exI [of _ 0], simp add: paren_def)+

lemma strip_redirs:
  "printable c \<Longrightarrow> \<exists>y rs. c = wrap y rs \<and> show_cmd 3 c = show_cmd 3 y @ concat (map show_redir rs) \<and> list_all rok rs \<and> printable y \<and>
    size y \<le> size c \<and> (\<forall>x f m d. c = REDIR x f m d \<longrightarrow> size y < size c) \<and> ((\<exists>ws. y = EXEC ws) \<or> show_cmd 3 y = [40] @ show_cmd 0 y @ [41])"
proof (induction c)
  case (REDIR c f m d)
  then obtain y rs where y: "c = wrap y rs" "show_cmd 3 c = show_cmd 3 y @ concat (map show_redir rs)" "list_all rok rs" "printable y"
    "size y \<le> size c" "(\<exists>ws. y = EXEC ws) \<or> show_cmd 3 y = [40] @ show_cmd 0 y @ [41]"
    by auto
  have "REDIR c f m d = wrap y (rs @ [(f, m, d)])" using y(1) by simp
  moreover have "show_cmd 3 (REDIR c f m d) = show_cmd 3 y @ concat (map show_redir (rs @ [(f, m, d)]))" using y(2) by simp
  ultimately show ?case using y(3-6) REDIR.prems by (intro exI [of _ y] exI [of _ "rs @ [(f, m, d)]"]) auto
qed (rule exI, rule exI [of _ "[]"], force simp: paren_def)+

lemma pipe_line: "parses b es parsepipe [0, 41, 38, 59] c t \<Longrightarrow> parses b es parseline [0, 41] c t"
  using line_back [of b es c t 0] by simp

text \<open>The three levels for a command, from the parser of lines when it is printed in parentheses, from the parser of blocks otherwise.\<close>

definition parsed_at_all :: "bytes \<Rightarrow> nat \<Rightarrow> u8 list cmd \<Rightarrow> bool" where
  "parsed_at_all b es c = (parses b es parseline [0, 41] c (show_cmd 0 c) \<and> parses b es parsepipe [0, 41, 38, 59] c (show_cmd 2 c) \<and>
    parses b es parseexec [0, 41, 38, 59, 124] c (show_cmd 3 c))"

lemma exec_block:
  assumes "parses b es parseline [0, 41] c (show_cmd 0 c)" "printable c" "show_cmd 3 c = [40] @ show_cmd 0 c @ [41]"
  shows "parses b es parseexec [0, 41, 38, 59, 124] c (show_cmd 3 c)"
  using parse_block [OF assms(1,2), of "[]"] assms(3) by simp

lemma all_from_line:
  assumes "parses b es parseline [0, 41] c (show_cmd 0 c)" "printable c" "show_cmd 3 c = [40] @ show_cmd 0 c @ [41]" "show_cmd 2 c = show_cmd 3 c"
  shows "parsed_at_all b es c"
  using assms(1,4) exec_block [OF assms(1-3)] pipe_exec [OF exec_block [OF assms(1-3)]] by (simp add: parsed_at_all_def)

lemma all_from_exec:
  assumes "parses b es parseexec [0, 41, 38, 59, 124] c (show_cmd 3 c)" "show_cmd 2 c = show_cmd 3 c" "show_cmd 0 c = show_cmd 3 c"
  shows "parsed_at_all b es c"
  using assms pipe_exec [OF assms(1)] pipe_line [OF pipe_exec [OF assms(1)]] by (simp add: parsed_at_all_def)

lemma exec_redir:
  assumes c: "printable c" "c = REDIR x f m d" and IH: "\<And>y. size y < size c \<Longrightarrow> printable y \<Longrightarrow> parsed_at_all b es y"
  shows "parses b es parseexec [0, 41, 38, 59, 124] c (show_cmd 3 c)"
proof -
  obtain y rs where y: "c = wrap y rs" "show_cmd 3 c = show_cmd 3 y @ concat (map show_redir rs)" "list_all rok rs" "printable y"
    "size y < size c" "(\<exists>ws. y = EXEC ws) \<or> show_cmd 3 y = [40] @ show_cmd 0 y @ [41]"
    using strip_redirs [OF c(1)] c(2) by blast
  show ?thesis
  proof (cases "\<exists>ws. y = EXEC ws")
    case True
    then show ?thesis using parse_simple [of _ rs b es] y by auto
  next
    case False
    then show ?thesis using IH [OF y(5,4)] parse_block [of b es y rs] y by (simp add: parsed_at_all_def)
  qed
qed

lemma parse_show: "printable c \<Longrightarrow> parsed_at_all b es c"
proof (induction c rule: measure_induct_rule [of size])
  case (less c)
  show ?case
  proof (cases c)
    case (LIST x d)
    obtain k y where y: "x = (BACK ^^ k) y" "show_cmd 1 x = show_cmd 2 y @ replicate k 38" "size y \<le> size x" "printable y"
      using strip_back [of x] less.prems LIST by auto
    have "parses b es parseline [0, 41] c ((show_cmd 2 y @ replicate k 38) @ [59] @ show_cmd 0 d)"
      unfolding LIST y(1) using less y(3,4) LIST by (intro line_list) (auto simp: parsed_at_all_def)
    then show ?thesis using y(2) less.prems by (intro all_from_line) (simp_all add: LIST paren_def)
  next
    case (BACK x)
    obtain k y where y: "x = (BACK ^^ k) y" "show_cmd 1 x = show_cmd 2 y @ replicate k 38" "size y \<le> size x" "printable y"
      using strip_back [of x] less.prems BACK by auto
    have "parses b es parseline [0, 41] ((BACK ^^ Suc k) y) (show_cmd 2 y @ replicate (Suc k) 38)"
      using less.IH [of y] y(3,4) BACK by (intro line_back) (simp add: parsed_at_all_def)
    then show ?thesis
      using y(1,2) less.prems by (intro all_from_line) (simp_all add: BACK paren_def replicate_append_same)
  next
    case (PIPE x d)
    have "parses b es parsepipe [0, 41, 38, 59] c (show_cmd 3 x @ [124] @ show_cmd 2 d)"
      unfolding PIPE using less PIPE by (intro pipe_pipe) (auto simp: parsed_at_all_def)
    then have P: "parses b es parsepipe [0, 41, 38, 59] c (show_cmd 2 c)" by (simp add: PIPE paren_def)
    then have L: "parses b es parseline [0, 41] c (show_cmd 0 c)" using pipe_line [OF P] by (simp add: PIPE paren_def)
    then show ?thesis using P less.prems exec_block [OF L] by (simp add: PIPE paren_def parsed_at_all_def)
  next
    case (EXEC ws)
    then show ?thesis using parse_simple [of ws "[]" b es] less.prems by (intro all_from_exec) simp_all
  next
    case (REDIR x f m d)
    then show ?thesis using exec_redir [OF less.prems REDIR less.IH] by (intro all_from_exec) simp_all
  qed
qed

subsection \<open>Property\<close>

lemma printed_nonzero: "printable c \<Longrightarrow> 0 \<notin> set (show_cmd k c)"
  by (induction k c rule: show_cmd.induct)
    (auto simp: paren_def show_words_def show_redir_def wok_def rok_def list_all_iff split: if_splits)

text \<open>
  C13. Parsing inverts printing: from the text of any command, simple commands with redirections, pipelines, lists,
  background commands and blocks nested to any depth, the parser of the shell builds exactly this command again, with
  the words as strings of the line after \<^verbatim>\<open>nulterminate\<close>.
\<close>

theorem parse_print:
  assumes c: "printable c" and line: "str_at b s (show_cmd 0 c)" and fuel: "4 * length (show_cmd 0 c) + 4 \<le> n"
  shows "\<exists>p b'. parsecmd n b s = Some (Inr (p, b')) \<and> map_cmd (\<lambda>w. cstr (snd w - fst w + 1) b' (fst w)) p = c"
proof -
  let ?es = "s + length (show_cmd 0 c)"
  have b: "b ?es = 0" "\<forall>i. s \<le> i \<and> i < ?es \<longrightarrow> b i \<noteq> 0"
    using line by (auto simp: str_at_def in_set_conv_nth le_iff_add)
  have e: "nws b ?es ?es" by (simp add: nws_def skip_ws_step(2))
  have "parses b ?es parseline [0, 41] c (show_cmd 0 c)" using parse_show [OF c] by (simp add: parsed_at_all_def)
  then have "yields b c ?es (parseline n b ?es s)"
    using line e b(1) by (intro parsesD) (auto simp: at_def str_at_def ends_def)
  moreover have ok: "pok ?es s (cmd_ok (word_ok b s ?es)) (parseline n b ?es s)"
    using parse_returns [of b ?es s n] b(1) fuel by (simp add: returns_def)
  ultimately obtain p where p: "parseline n b ?es s = Some (Inr (p, ?es))" "map_cmd (span_word b) p = c" "cmd_ok (word_ok b s ?es) p"
    by (auto simp: yields_def)
  have "u_strlen b s = Some (length (show_cmd 0 c))"
    using b u_strlen_loop_first [of 0 "length (show_cmd 0 c)" b s] by (simp add: u_strlen_def)
  then have "parsecmd n b s = Some (Inr (p, nulterminate p b))" using p(1) e by (simp add: parsecmd_def peek_nws Let_def)
  moreover have "map_cmd (\<lambda>w. cstr (snd w - fst w + 1) (nulterminate p b) (fst w)) p = map_cmd (span_word b) p"
  proof (rule cmd.map_cong0)
    fix w assume "w \<in> set_cmd p"
    then have w: "w \<in> set (words p)" by (induction p) auto
    show "cstr (snd w - fst w + 1) (nulterminate p b) (fst w) = span_word b w"
      unfolding span_word_def using nulterminate_word [OF p(3) w b(2)] by (rule str_at_cstr) simp
  qed
  ultimately show ?thesis using p(2) by auto
qed

definition demo_cmd :: "u8 list cmd" where
  "demo_cmd = LIST (BACK (PIPE (REDIR (EXEC [[97], [98, 99]]) [102] 0 0) (EXEC [[100]]))) (REDIR (LIST (EXEC [[101]]) (EXEC [])) [103] 0x201 1)"

theorem parse_print_witness:
  "\<exists>p b'. parsecmd 100 (\<lambda>i. if i < length (show_cmd 0 demo_cmd) then show_cmd 0 demo_cmd ! i else 0) 0 = Some (Inr (p, b')) \<and>
    map_cmd (\<lambda>w. cstr (snd w - fst w + 1) b' (fst w)) p = demo_cmd"
proof (rule parse_print)
  show p: "printable demo_cmd" by code_simp
  show "str_at (\<lambda>i. if i < length (show_cmd 0 demo_cmd) then show_cmd 0 demo_cmd ! i else 0) 0 (show_cmd 0 demo_cmd)"
    using printed_nonzero [OF p, of 0] by (simp add: str_at_def)
  show "4 * length (show_cmd 0 demo_cmd) + 4 \<le> 100" by code_simp
qed

end
