(* ===== verification/Sh_Run.thy ===== *)
theory Sh_Run
  imports Sh Xv6_Params
begin

text \<open>
  \<^verbatim>\<open>user/sh.c\<close>: running commands. What a process does is a tree of system calls, \<open>act\<close>: a call that returns a value has a
  function for the rest, and \<^verbatim>\<open>fork\<close> has the behaviour of the child and that of the parent, which gets the number of the
  child or -1. \<open>events\<close> follows a tree, when no system call fails for another reason than a full table of descriptors, and lists
  the programs that are started and the waits, each with the descriptors of its process. The theorem compares this with
  the meaning of commands, \<open>meant\<close>.
\<close>

datatype 'w act =
  S_exit int
| S_exec 'w "'w list" "'w act"
| S_close nat "'w act"
| S_dup nat "'w act"
| S_open 'w nat "int \<Rightarrow> 'w act"
| S_pipe "(nat \<times> nat) option \<Rightarrow> 'w act"
| S_fork "'w act" "int \<Rightarrow> 'w act"
| S_wait "'w act"
| S_chdir 'w "int \<Rightarrow> 'w act"
| S_fprintf nat string "'w list" "'w act"
| S_never

definition sh_panic :: "string \<Rightarrow> 'w act" where
  "sh_panic s = S_fprintf 2 (s @ [CHR 0x0A]) [] (S_exit 1)"

definition fork1 :: "'w act \<Rightarrow> 'w act \<Rightarrow> 'w act" where
  "fork1 child parent = S_fork child (\<lambda>pid. if pid = - 1 then sh_panic ''fork'' else parent)"

primrec runcmd :: "'w cmd \<Rightarrow> 'w act" where
  "runcmd (EXEC ws) =
     (case ws of
        [] \<Rightarrow> S_exit 1
      | w # _ \<Rightarrow> S_exec w ws (S_fprintf 2 (''exec %s failed'' @ [CHR 0x0A]) [w] (S_exit 0)))"
| "runcmd (REDIR c file mode fd) =
     S_close fd (
     S_open file mode (\<lambda>r.
     if r < 0 then S_fprintf 2 (''open %s failed'' @ [CHR 0x0A]) [file] (S_exit 1)
     else runcmd c))"
| "runcmd (LIST left right) = fork1 (runcmd left) (S_wait (runcmd right))"
| "runcmd (PIPE left right) =
     S_pipe (\<lambda>p. case p of
       None \<Rightarrow> sh_panic ''pipe''
     | Some (p0, p1) \<Rightarrow>
         fork1 (S_close 1 (S_dup p1 (S_close p0 (S_close p1 (runcmd left)))))
        (fork1 (S_close 0 (S_dup p0 (S_close p0 (S_close p1 (runcmd right)))))
        (S_close p0 (S_close p1 (S_wait (S_wait (S_exit 0)))))))"
| "runcmd (BACK c) = fork1 (runcmd c) (S_exit 0)"

text \<open>\<^verbatim>\<open>main\<close> on the contents of the buffer after each call of \<^verbatim>\<open>gets\<close>; an empty one is the end of the input.\<close>

primrec open_console :: "nat \<Rightarrow> 'w \<Rightarrow> 'w act \<Rightarrow> 'w act" where
  "open_console 0 console rest = S_never"
| "open_console (Suc n) console rest =
     S_open console 2 (\<lambda>fd. if 0 \<le> fd then if 3 \<le> fd then S_close (nat fd) rest else open_console n console rest else rest)"

definition run_line :: "u8 list \<Rightarrow> u8 list act" where
  "run_line buf =
     (case parsecmd (4 * length buf + 4) (\<lambda>i. if i < length buf then buf ! i else 0) 0 of
        None \<Rightarrow> S_never
      | Some (Inl e) \<Rightarrow> sh_panic e
      | Some (Inr (c, b)) \<Rightarrow> runcmd (map_cmd (\<lambda>w. cstr (snd w - fst w + 1) b (fst w)) c))"

primrec sh_loop :: "u8 list list \<Rightarrow> u8 list act" where
  "sh_loop [] = S_fprintf 2 ''$ '' [] (S_exit 0)"
| "sh_loop (buf # bufs) =
     S_fprintf 2 ''$ '' [] (
     if buf = [] then S_exit 0
     else if take 3 buf = [99, 100, 32] then
       let dir = drop 3 (butlast buf) in
       S_chdir dir (\<lambda>r. if r < 0 then S_fprintf 2 (''cannot cd %s'' @ [CHR 0x0A]) [dir] (sh_loop bufs) else sh_loop bufs)
     else fork1 (run_line buf) (S_wait (sh_loop bufs)))"

definition sh_main :: "u8 list list \<Rightarrow> u8 list act" where
  "sh_main bufs = open_console 4 [99, 111, 110, 115, 111, 108, 101] (sh_loop bufs)"

subsection \<open>Descriptors\<close>

text \<open>
  What a descriptor refers to: something inherited, an opened file, or an end of a pipe, named by the path of the process that
  made it in the tree of processes. The kernel takes the lowest free descriptor.
\<close>

datatype 'w obj = Inherited nat | File 'w nat | PipeRead "nat list" | PipeWrite "nat list"

type_synonym 'w fds = "nat \<Rightarrow> 'w obj option"

datatype 'w event = Runs "'w list" "'w fds" | Waits "'w fds"

definition lowest :: "'w fds \<Rightarrow> nat option" where
  "lowest t = find (\<lambda>d. t d = None) [0..<NOFILE]"

primrec events :: "'w act \<Rightarrow> nat list \<Rightarrow> 'w fds \<Rightarrow> 'w event list" where
  "events (S_exit n) k t = []"
| "events (S_exec w ws rest) k t = [Runs ws t]"
| "events (S_close d rest) k t = events rest k (t(d := None))"
| "events (S_dup d rest) k t = events rest k (case lowest t of None \<Rightarrow> t | Some e \<Rightarrow> t(e := t d))"
| "events (S_open f m rest) k t =
     (case lowest t of None \<Rightarrow> events (rest (- 1)) k t | Some d \<Rightarrow> events (rest (int d)) k (t(d := Some (File f m))))"
| "events (S_pipe rest) k t =
     (case lowest t of
        None \<Rightarrow> events (rest None) k t
      | Some p0 \<Rightarrow>
          let t' = t(p0 := Some (PipeRead k)) in
          case lowest t' of
            None \<Rightarrow> events (rest None) k t
          | Some p1 \<Rightarrow> events (rest (Some (p0, p1))) k (t'(p1 := Some (PipeWrite k))))"
| "events (S_fork child parent) k t = events child (0 # k) t @ events (parent 1) (1 # k) t"
| "events (S_wait rest) k t = Waits t # events rest k t"
| "events (S_chdir d rest) k t = events (rest 0) k t"
| "events (S_fprintf d s ws rest) k t = events rest k t"
| "events S_never k t = []"

text \<open>The meaning of commands: the programs they run, and what descriptors 0 and 1 of each are.\<close>

primrec meant :: "'w cmd \<Rightarrow> nat list \<Rightarrow> 'w fds \<Rightarrow> 'w event list" where
  "meant (EXEC ws) k t = (if ws = [] then [] else [Runs ws t])"
| "meant (REDIR c f m d) k t = meant c k (t(d \<mapsto> File f m))"
| "meant (LIST c d) k t = meant c (0 # k) t @ Waits t # meant d (1 # k) t"
| "meant (PIPE c d) k t =
     meant c (0 # k) (t(1 \<mapsto> PipeWrite k)) @ meant d (0 # 1 # k) (t(0 \<mapsto> PipeRead k)) @ [Waits t, Waits t]"
| "meant (BACK c) k t = meant c (0 # k) t"

primrec redirects_std :: "'w cmd \<Rightarrow> bool" where
  "redirects_std (EXEC ws) = True"
| "redirects_std (REDIR c f m d) = (d \<in> {0, 1} \<and> redirects_std c)"
| "redirects_std (PIPE c d) = (redirects_std c \<and> redirects_std d)"
| "redirects_std (LIST c d) = (redirects_std c \<and> redirects_std d)"
| "redirects_std (BACK c) = redirects_std c"

definition std_fds :: "'w fds \<Rightarrow> bool" where
  "std_fds t \<longleftrightarrow> (\<forall>d. t d = None \<longleftrightarrow> 3 \<le> d)"

lemma std_fds_upd [simp]: "std_fds t \<Longrightarrow> d < 3 \<Longrightarrow> std_fds (t(d \<mapsto> x))"
  by (auto simp: std_fds_def)

lemma lowest_is:
  assumes "t d = None" "\<And>e. e < d \<Longrightarrow> t e \<noteq> None" "d < NOFILE"
  shows "lowest t = Some d"
  using assms by (auto simp: lowest_def find_Some_iff intro!: exI [of _ d])

lemma runcmd_events:
  "std_fds t \<Longrightarrow> redirects_std c \<Longrightarrow> events (runcmd c) k t = meant c k t"
proof (induction c arbitrary: k t)
  case (EXEC ws)
  then show ?case by (cases ws) simp_all
next
  case (REDIR c f m d)
  have "lowest (t(d := None)) = Some d" by (rule lowest_is) (use REDIR.prems in \<open>auto simp: std_fds_def\<close>)
  moreover have "std_fds (t(d \<mapsto> File f m))" by (rule std_fds_upd) (use REDIR.prems in auto)
  then have "events (runcmd c) k (t(d \<mapsto> File f m)) = meant c k (t(d \<mapsto> File f m))"
    by (rule REDIR.IH) (use REDIR.prems in simp)
  ultimately show ?case by simp
next
  case (PIPE c d)
  let ?t = "t(3 \<mapsto> PipeRead k, 4 \<mapsto> PipeWrite k)"
  have std: "\<And>e. t e = None \<longleftrightarrow> 3 \<le> e" using PIPE.prems by (simp add: std_fds_def)
  have op: "\<exists>y. t e = Some y" if "e < 3" for e using std [of e] that by auto
  have p0: "lowest t = Some 3" by (rule lowest_is) (use std in auto)
  have p1: "lowest (t(3 \<mapsto> PipeRead k)) = Some 4" by (rule lowest_is) (use std op in auto)
  have d1: "lowest (?t(1 := None)) = Some 1" by (rule lowest_is) (use std in auto)
  have d0: "lowest (?t(0 := None)) = Some 0" by (rule lowest_is) (use std in auto)
  have n: "t 3 = None" "t 4 = None" using std by auto
  have w: "t(3 := None, 4 := None) = t" "t(0 \<mapsto> x, 3 := None, 4 := None) = t(0 \<mapsto> x)" "t(Suc 0 \<mapsto> x, 3 := None, 4 := None) = t(Suc 0 \<mapsto> x)" for x
    using n by (auto simp: fun_eq_iff)
  have "std_fds (t(0 \<mapsto> PipeRead k))" "std_fds (t(Suc 0 \<mapsto> PipeWrite k))" using PIPE.prems by simp_all
  then show ?case using PIPE by (simp add: fork1_def p0 p1 d0 d1 [unfolded One_nat_def] w Let_def del: fun_upd_apply) (simp add: w)
qed (simp_all add: fork1_def)

subsection \<open>From the line to the programs\<close>

lemma redirects_std_map [simp]: "redirects_std (map_cmd f c) = redirects_std c"
  by (induction c) auto

lemma redirects_std_add [simp]: "redirects_std (add_arg w c) = redirects_std c"
  by (induction w c rule: add_arg.induct) auto

definition keeps_std :: "span cmd parsed \<Rightarrow> bool" where
  "keeps_std r \<longleftrightarrow> (\<forall>c s. r = Some (Inr (c, s)) \<longrightarrow> redirects_std c)"

lemma keeps_std_simps [simp]:
  "keeps_std None" "keeps_std (Some (Inl e))" "keeps_std (Some (Inr (c, s))) \<longleftrightarrow> redirects_std c"
  by (auto simp: keeps_std_def)

lemma keeps_std_pbind: "keeps_std r \<Longrightarrow> (\<And>c s. redirects_std c \<Longrightarrow> keeps_std (k c s)) \<Longrightarrow> keeps_std (pbind r k)"
  by (cases r rule: parsed_cases) auto

lemma parseredirs_std: "redirects_std c \<Longrightarrow> keeps_std (parseredirs n b es c s)"
  by (induction n arbitrary: c s) (auto simp: Let_def split: prod.splits)

lemma parseargs_std: "redirects_std c \<Longrightarrow> keeps_std (parseargs n b es c a s)"
  by (induction n arbitrary: c a s) (auto simp: Let_def split: prod.splits intro!: keeps_std_pbind parseredirs_std)

lemma parseamps_std: "redirects_std c \<Longrightarrow> keeps_std (parseamps n b es c s)"
  by (induction n arbitrary: c s) (auto simp: Let_def split: prod.splits)

lemma parse_std:
  "keeps_std (parseline n b es s) \<and> keeps_std (parsepipe n b es s) \<and> keeps_std (parseexec n b es s) \<and> keeps_std (parseblock n b es s)"
  by (induction n arbitrary: s)
    (auto simp: Let_def split: prod.splits intro!: keeps_std_pbind parseredirs_std parseargs_std parseamps_std)

lemma parsecmd_std: "parsecmd n b s = Some (Inr (c, b')) \<Longrightarrow> redirects_std c"
proof -
  assume p: "parsecmd n b s = Some (Inr (c, b'))"
  then obtain l where l: "u_strlen b s = Some l" by (cases "u_strlen b s") (auto simp: parsecmd_def)
  show ?thesis
  proof (cases "parseline n b (s + l) s" rule: parsed_cases)
    case (3 c' s')
    then show ?thesis
      using p l parse_std [of n b "s + l" s] by (auto simp: parsecmd_def Let_def split: prod.splits if_splits)
  qed (use p l in \<open>auto simp: parsecmd_def Let_def\<close>)
qed

text \<open>Every line is parsed with the fuel given, and runs what the parsed command means.\<close>

definition line_at :: "u8 list \<Rightarrow> bytes" where
  "line_at buf = (\<lambda>i. if i < length buf then buf ! i else 0)"

lemma line_strlen: "0 \<notin> set buf \<Longrightarrow> u_strlen (line_at buf) 0 = Some (length buf)"
  using u_strlen_loop_first [of 0 "length buf" "line_at buf" 0] by (auto simp: u_strlen_def line_at_def in_set_conv_nth)

lemma parsecmd_line:
  assumes "0 \<notin> set buf"
  shows "parsecmd (4 * length buf + 4) (line_at buf) 0 \<noteq> None"
proof -
  have "pok (length buf) 0 (cmd_ok (word_ok (line_at buf) 0 (length buf))) (parseline (4 * length buf + 4) (line_at buf) (length buf) 0)"
    using parse_returns [of "line_at buf" "length buf" 0 "4 * length buf + 4"] by (simp add: returns_def line_at_def)
  then show ?thesis
    by (cases "parseline (4 * length buf + 4) (line_at buf) (length buf) 0" rule: parsed_cases)
      (auto simp: parsecmd_def line_strlen [OF assms] Let_def split: prod.splits)
qed

definition line_cmd :: "u8 list \<Rightarrow> u8 list cmd option" where
  "line_cmd buf =
     (case parsecmd (4 * length buf + 4) (line_at buf) 0 of
        Some (Inr (c, b)) \<Rightarrow> Some (map_cmd (\<lambda>w. cstr (snd w - fst w + 1) b (fst w)) c)
      | _ \<Rightarrow> None)"

definition line_meant :: "u8 list \<Rightarrow> nat list \<Rightarrow> u8 list fds \<Rightarrow> u8 list event list" where
  "line_meant buf k t = (case line_cmd buf of None \<Rightarrow> [] | Some c \<Rightarrow> meant c k t)"

lemma run_line_events: "std_fds t \<Longrightarrow> events (run_line buf) k t = line_meant buf k t"
  using parsecmd_std [of "4 * length buf + 4" "line_at buf" 0]
  by (auto simp: run_line_def line_meant_def line_cmd_def line_at_def [symmetric] sh_panic_def runcmd_events
      split: option.splits sum.splits)

primrec session :: "u8 list list \<Rightarrow> nat list \<Rightarrow> u8 list fds \<Rightarrow> u8 list event list" where
  "session [] k t = []"
| "session (buf # bufs) k t =
     (if buf = [] then []
      else if take 3 buf = [99, 100, 32] then session bufs k t
      else line_meant buf (0 # k) t @ Waits t # session bufs (1 # k) t)"

lemma sh_loop_events: "std_fds t \<Longrightarrow> events (sh_loop bufs) k t = session bufs k t"
  by (induction bufs arbitrary: k) (simp_all add: fork1_def run_line_events Let_def)

lemma open_console_events:
  assumes "\<forall>d. t d = None \<longleftrightarrow> i \<le> d" "i \<le> 3" "3 < i + n"
  shows "events (open_console n c rest) k t = events rest k (\<lambda>d. if i \<le> d \<and> d < 3 then Some (File c 2) else t d)"
  using assms
proof (induction n arbitrary: i t)
  case (Suc n)
  have l: "lowest t = Some i" by (rule lowest_is) (use Suc.prems in auto)
  show ?case
  proof (cases "i = 3")
    case True
    then have "t 3 = None" using Suc.prems(1) by simp
    then have "t(3 := None) = (\<lambda>d. if 3 \<le> d \<and> d < 3 then Some (File c 2) else t d)" by (auto simp: fun_eq_iff)
    moreover have "events (open_console (Suc n) c rest) k t = events rest k (t(3 := None))" using True l by simp
    ultimately show ?thesis using True by simp
  next
    case False
    let ?t = "t(i \<mapsto> File c 2)"
    have "?t d = None \<longleftrightarrow> i + 1 \<le> d" for d using Suc.prems(1) by (cases "d = i") (simp_all add: Suc_le_eq order.strict_iff_order)
    then have "events (open_console n c rest) k ?t = events rest k (\<lambda>d. if i + 1 \<le> d \<and> d < 3 then Some (File c 2) else ?t d)"
      using Suc.prems(2,3) False by (intro Suc.IH allI) simp_all
    moreover have "(\<lambda>d. if i + 1 \<le> d \<and> d < 3 then Some (File c 2) else ?t d) = (\<lambda>d. if i \<le> d \<and> d < 3 then Some (File c 2) else t d)"
      using False Suc.prems(2) by (intro ext) (simp add: Suc_le_eq order.strict_iff_order)
    moreover have "events (open_console (Suc n) c rest) k t = events (open_console n c rest) k ?t" using l False Suc.prems(2) by simp
    ultimately show ?thesis by simp
  qed
qed simp

text \<open>
  C14. The shell connects programs as its command lines say. Started with some of the descriptors 0, 1 and 2 open, it opens the
  console on the others; then every line without NUL is parsed, and the programs started and the waits are those of the meaning of
  the parsed command, one line after the wait for the line before. In a pipe the left program writes to and the right
  program reads from the same pipe, a redirected program has the file in the place of its input or output, every other descriptor is
  the inherited one, no program and no waiting shell has a descriptor left over, so that a reader sees the end of its input
  when the writers are gone, and the second command of a list starts after the wait for the first. This is for runs in which
  \<^verbatim>\<open>fork\<close>, \<^verbatim>\<open>exec\<close> and \<^verbatim>\<open>chdir\<close> succeed, and \<^verbatim>\<open>open\<close> and \<^verbatim>\<open>pipe\<close> fail only if the table of descriptors is full.
\<close>

theorem shell_plumbing:
  assumes "\<forall>d. t d = None \<longleftrightarrow> i \<le> d" "i \<le> 3" "\<forall>buf \<in> set bufs. 0 \<notin> set buf"
  shows "events (sh_main bufs) k t =
      session bufs k (\<lambda>d. if i \<le> d \<and> d < 3 then Some (File [99, 111, 110, 115, 111, 108, 101] 2) else t d) \<and>
    (\<forall>buf \<in> set bufs. parsecmd (4 * length buf + 4) (line_at buf) 0 \<noteq> None)"
proof -
  let ?t = "\<lambda>d. if i \<le> d \<and> d < 3 then Some (File [99, 111, 110, 115, 111, 108, 101] 2) else t d"
  have "std_fds ?t" unfolding std_fds_def using assms(1,2) by (simp add: not_le)
  moreover have "events (sh_main bufs) k t = events (sh_loop bufs) k ?t"
    unfolding sh_main_def by (rule open_console_events [OF assms(1,2)]) simp
  ultimately have "events (sh_main bufs) k t = session bufs k ?t" by (simp only: sh_loop_events)
  then show ?thesis using parsecmd_line assms(3) by blast
qed

definition demo_fds :: "u8 list fds" where
  "demo_fds d = (if d < 2 then Some (Inherited d) else None)"

theorem shell_plumbing_witness:
  "\<exists>t. t 2 = Some (File [99, 111, 110, 115, 111, 108, 101] 2) \<and> t 0 = Some (Inherited 0) \<and> t 1 = Some (Inherited 1) \<and>
    events (sh_main [[97, 124, 98, 10]]) [] demo_fds =
      [Runs [[97]] (t(1 \<mapsto> PipeWrite [0])), Runs [[98]] (t(0 \<mapsto> PipeRead [0])), Waits t, Waits t, Waits t]"
proof -
  let ?t = "\<lambda>d. if 2 \<le> d \<and> d < 3 then Some (File [99, 111, 110, 115, 111, 108, 101] 2) else demo_fds d"
  have "line_cmd [97, 124, 98, 10] = Some (PIPE (EXEC [[97]]) (EXEC [[98]]))"
    unfolding line_cmd_def parsecmd_def using line_strlen [of "[97, 124, 98, 10]"] by simp code_simp
  moreover have "events (sh_main [[97, 124, 98, 10]]) [] demo_fds = session [[97, 124, 98, 10]] [] ?t"
    using shell_plumbing [of demo_fds 2 "[[97, 124, 98, 10]]" "[]"] by (auto simp: demo_fds_def)
  ultimately show ?thesis by (intro exI [of _ ?t]) (simp add: line_meant_def, simp add: demo_fds_def)
qed

end
