(* ===== verification/Fs_Spec.thy ===== *)
theory Fs_Spec
  imports Pipe Log_Spec
begin

text \<open>
  The layout of the file system on disk and path names: inodes in their blocks, the bits of the free map, and the
  elements of a path, as \<^verbatim>\<open>kernel/fs.c\<close> reads and writes them.
\<close>

subsection \<open>Inodes in a block\<close>

text \<open>The fields of an inode fit the fields of the structure on disk.\<close>

definition inode_fits :: "inode \<Rightarrow> bool" where
  "inode_fits ip = (list_all (\<lambda>v. - (2 ^ 15) \<le> v \<and> v < 2 ^ 15) [itype ip, imajor ip, iminor ip, inlink ip] \<and>
     isize ip < 2 ^ 32 \<and> (\<forall>k \<le> NDIRECT. iaddrs ip k < 2 ^ 32))"

lemma fold_wr_other:
  "(\<And>k. k \<in> set ks \<Longrightarrow> off' + m \<le> g k \<or> g k + n \<le> off') \<Longrightarrow> rd m (fold (\<lambda>k. wr n (f k) (g k)) ks d) off' = rd m d off'"
  by (induction ks arbitrary: d) (auto simp: rd_wr_other)

lemma fold_wr_same:
  assumes "distinct ks" "k \<in> set ks" "f k < 256 ^ n" "\<And>j. j \<in> set ks \<Longrightarrow> j \<noteq> k \<Longrightarrow> g k + n \<le> g j \<or> g j + n \<le> g k"
  shows "rd n (fold (\<lambda>k. wr n (f k) (g k)) ks d) (g k) = f k"
  using assms
proof (induction ks arbitrary: d)
  case (Cons j ks)
  show ?case
  proof (cases "j = k")
    case True
    then have "rd n (fold (\<lambda>k. wr n (f k) (g k)) ks (wr n (f k) (g k) d)) (g k) = rd n (wr n (f k) (g k) d) (g k)"
      using Cons.prems by (intro fold_wr_other) auto
    then show ?thesis using True Cons.prems(3) by (simp add: rd_wr_same)
  next
    case False
    then show ?thesis using Cons by auto
  qed
qed simp

lemma s16_field: "- (2 ^ 15) \<le> v \<Longrightarrow> v < 2 ^ 15 \<Longrightarrow> s16 (rd 2 (wr 2 (bits16 v) a d) a) = v"
proof -
  assume v: "- (2 ^ 15) \<le> v" "v < 2 ^ 15"
  have "bits16 v < 256 ^ 2" using bits16_less [of v] by simp
  then show ?thesis by (simp only: rd_wr_same s16_bits16 [OF v])
qed

lemma write_dinode_field:
  assumes "inode_fits ip"
  shows "s16 (rd 2 (write_dinode ip at d) at) = itype ip" "s16 (rd 2 (write_dinode ip at d) (at + 2)) = imajor ip"
    "s16 (rd 2 (write_dinode ip at d) (at + 4)) = iminor ip" "s16 (rd 2 (write_dinode ip at d) (at + 6)) = inlink ip"
    "rd 4 (write_dinode ip at d) (at + 8) = isize ip" "k \<le> NDIRECT \<Longrightarrow> rd 4 (write_dinode ip at d) (at + 12 + 4 * k) = iaddrs ip k"
proof -
  have o: "rd m (write_dinode ip at d) (at + j) = rd m (wr 4 (isize ip) (at + 8) (wr 2 (bits16 (inlink ip)) (at + 6) (wr 2 (bits16 (iminor ip)) (at + 4)
        (wr 2 (bits16 (imajor ip)) (at + 2) (wr 2 (bits16 (itype ip)) at d))))) (at + j)" if "j + m \<le> 12" for j m
    unfolding write_dinode_def using that by (intro fold_wr_other) auto
  show "s16 (rd 2 (write_dinode ip at d) at) = itype ip" "s16 (rd 2 (write_dinode ip at d) (at + 2)) = imajor ip"
    "s16 (rd 2 (write_dinode ip at d) (at + 4)) = iminor ip" "s16 (rd 2 (write_dinode ip at d) (at + 6)) = inlink ip"
    "rd 4 (write_dinode ip at d) (at + 8) = isize ip"
    using assms o [of 0 2] o [of 2 2] o [of 4 2] o [of 6 2] o [of 8 4] by (simp_all add: inode_fits_def le_simps s16_field)
  show "rd 4 (write_dinode ip at d) (at + 12 + 4 * k) = iaddrs ip k" if "k \<le> NDIRECT"
    unfolding write_dinode_def using assms that
    by (intro fold_wr_same [where g = "\<lambda>k. at + 12 + 4 * k"]) (auto simp: inode_fits_def)
qed

lemma wr_out: "i < off \<or> off + n \<le> i \<Longrightarrow> wr n v off d i = d i"
  by (auto simp: wr_def)

lemma wr_at: "d i = e i \<Longrightarrow> wr n v off d i = wr n v off e i"
  by (simp add: wr_def)

lemma fold_wr_out: "(\<And>k. k \<in> set ks \<Longrightarrow> i < g k \<or> g k + n \<le> i) \<Longrightarrow> fold (\<lambda>k. wr n (f k) (g k)) ks d i = d i"
  by (induction ks arbitrary: d) (simp_all add: wr_out)

lemma fold_wr_at: "d i = e i \<Longrightarrow> fold (\<lambda>k. wr n (f k) (g k)) ks d i = fold (\<lambda>k. wr n (f k) (g k)) ks e i"
proof (induction ks arbitrary: d e)
  case (Cons k ks)
  show ?case unfolding fold_simps by (rule Cons.IH) (rule wr_at [of d i e, OF Cons.prems])
qed simp

lemma write_dinode_other:
  assumes "i < at \<or> at + 64 \<le> i"
  shows "write_dinode ip at d i = d i"
proof -
  have "fold (\<lambda>k. wr 4 (iaddrs ip k) (at + 12 + 4 * k)) [0..<NDIRECT + 1] e i = e i" for e
    by (rule fold_wr_out) (use assms in auto)
  then have "write_dinode ip at d i = wr 4 (isize ip) (at + 8) (wr 2 (bits16 (inlink ip)) (at + 6) (wr 2 (bits16 (iminor ip)) (at + 4)
        (wr 2 (bits16 (imajor ip)) (at + 2) (wr 2 (bits16 (itype ip)) at d)))) i" by (simp only: write_dinode_def)
  also have "\<dots> = d i" using assms by (elim disjE) (simp_all add: wr_out)
  finally show ?thesis .
qed

lemma write_dinode_cong: "d i = e i \<Longrightarrow> write_dinode ip at d i = write_dinode ip at e i"
  unfolding write_dinode_def
  by (rule fold_wr_at [where f = "iaddrs ip" and g = "\<lambda>k. at + 12 + 4 * k"], rule wr_at, rule wr_at, rule wr_at, rule wr_at, rule wr_at)

lemma dip_bound: "dip i + 64 \<le> BSIZE"
proof -
  have "i mod 16 < 16" by simp
  then show ?thesis by (simp add: dip_def)
qed

lemma dip_apart: "dip i \<noteq> dip j \<Longrightarrow> dip i + 64 \<le> dip j \<or> dip j + 64 \<le> dip i"
  by (auto simp: dip_def)

lemma read_dinode_cong:
  assumes "\<And>j. at \<le> j \<Longrightarrow> j < at + 64 \<Longrightarrow> d j = e j"
  shows "read_dinode d at ip = read_dinode e at ip"
proof -
  have r: "rd n d (at + k) = rd n e (at + k)" if "k + n \<le> 64" for n k using that assms by (intro rd_cong) auto
  have "(\<lambda>k. if k \<le> NDIRECT then rd 4 d (at + 12 + 4 * k) else iaddrs ip k) = (\<lambda>k. if k \<le> NDIRECT then rd 4 e (at + 12 + 4 * k) else iaddrs ip k)"
    using r [of "12 + 4 * k" 4 for k] by (auto simp: fun_eq_iff add.assoc)
  then show ?thesis using r [of 0 2] r [of 2 2] r [of 4 2] r [of 6 2] r [of 8 4] by (simp add: read_dinode_def)
qed

lemma trunc_write_dinode: "trunc (write_dinode ip at d) = trunc (write_dinode ip at (trunc d))"
  unfolding trunc_def fun_eq_iff by (auto intro!: write_dinode_cong)

lemma beyond_fs:
  fixes s t :: "'x fsstate_scheme"
  assumes "beyond (t\<lparr>the_log := the_log s\<rparr>) = beyond s"
  shows "itable t = itable s" "sb t = sb s"
proof -
  have "bstate.more (t\<lparr>the_log := the_log s\<rparr>) = bstate.more s" using assms by (simp add: beyond_def)
  then show "itable t = itable s" "sb t = sb s" by (cases t, cases s, simp)+
qed

text \<open>The inode read back: the fields on disk of \<open>ip\<close>, the others of \<open>jp\<close>.\<close>

definition with_fields :: "inode \<Rightarrow> inode \<Rightarrow> inode" where
  "with_fields ip jp = jp\<lparr>itype := itype ip, imajor := imajor ip, iminor := iminor ip, inlink := inlink ip, isize := isize ip,
     iaddrs := (\<lambda>k. if k \<le> NDIRECT then iaddrs ip k else iaddrs jp k)\<rparr>"

lemma read_write_dinode:
  assumes "inode_fits ip"
  shows "read_dinode (trunc (write_dinode ip (dip i) d)) (dip i) jp = with_fields ip jp"
proof -
  have "read_dinode (trunc (write_dinode ip (dip i) d)) (dip i) jp = read_dinode (write_dinode ip (dip i) d) (dip i) jp"
    using dip_bound [of i] by (intro read_dinode_cong) (simp add: trunc_def)
  also have "\<dots> = with_fields ip jp"
    using write_dinode_field [OF assms, where at = "dip i" and d = d] by (auto simp: read_dinode_def with_fields_def cong: if_cong)
  finally show ?thesis .
qed

lemma read_other_dinode: "dip i \<noteq> dip j \<Longrightarrow> read_dinode (trunc (write_dinode ip (dip i) d)) (dip j) jp = read_dinode (trunc d) (dip j) jp"
  using dip_apart [of i j] by (intro read_dinode_cong) (auto simp: trunc_def write_dinode_other)

text \<open>
  C8. \<^verbatim>\<open>iupdate\<close> inside a transaction stores the inode: the block of the inode becomes part of the transaction, reading the inode from the
  current contents of the disk, as \<^verbatim>\<open>ilock\<close> does, gives back exactly the fields that were stored, every other inode on the
  disk reads as before, and no other block changes. Nothing is written to the disk before the commit.
\<close>

theorem iupdate_stores:
  fixes s :: "'x fsstate_scheme"
  assumes inv: "log_inv p L s" and ip: "ip = itable s k" "idev ip = ROOTDEV" "inode_fits ip"
    and n: "n = IBLOCK (inum ip) (sb s)" "\<not> in_log L n" "n \<notin> holds s"
    and room: "lh_n (the_log s) < log_size (the_log s) - 1" "n \<in> logged s \<or> card (logged s \<union> holds s) < NBUF"
      "1 \<le> outstanding (the_log s)"
  shows "\<exists>t. iupdate k s = Done () t \<and> log_inv p L t \<and> logged t = insert n (logged s) \<and> itable t = itable s \<and> disk t = disk s \<and>
    read_dinode (cur t n) (dip (inum ip)) jp = with_fields ip jp \<and>
    (\<forall>i. (IBLOCK i (sb s), dip i) \<noteq> (n, dip (inum ip)) \<longrightarrow>
      read_dinode (cur t (IBLOCK i (sb s))) (dip i) jp = read_dinode (cur s (IBLOCK i (sb s))) (dip i) jp) \<and>
    (\<forall>m. m \<noteq> n \<longrightarrow> cur t m = cur s m)"
proof -
  let ?f = "write_dinode ip (dip (inum ip))"
  have n32: "n < 2 ^ 32" by (simp add: n(1) IBLOCK_def add32_def)
  obtain t where t: "bind (bread ROOTDEV n) (\<lambda>b. seq (set_buf b (\<lambda>x. x\<lparr>bdata := ?f (bdata x)\<rparr>)) (seq (log_write b) (brelse b))) s = Done () t"
    "log_inv p L t" "logged t = insert n (logged s)" "disk t = disk s" "beyond (t\<lparr>the_log := the_log s\<rparr>) = beyond s"
    "\<forall>m. cur t m = (if m = n then trunc (?f (cur s n)) else cur s m)"
    using logged_update [OF inv n(2) n32 n(3) room, of ?f] trunc_write_dinode by blast
  have "iupdate k s = Done () t" using t(1) by (simp add: iupdate_def exec_simps set_data_def ip(2) n(1) flip: ip(1))
  moreover have "trunc (cur s n) = cur s n" by (auto simp: cur_def trunc_def split: option.splits)
  moreover have "read_dinode (cur t n) (dip (inum ip)) jp = with_fields ip jp" using t(6) read_write_dinode [OF ip(3)] by simp
  ultimately show ?thesis
    using t beyond_fs [OF t(5)] read_other_dinode [of "inum ip" _ ip "cur s n" jp] by auto
qed

text \<open>The root directory in slot 0 of the inode table, inside a transaction; its block is the first after the log.\<close>

definition demo_inode :: inode where
  "demo_inode = \<lparr>idev = 1, inum = 1, iref = 1, ivalid = True, itype = 1, imajor = 0, iminor = 0, inlink = - 3, isize = 1024, iaddrs = (\<lambda>_. 47)\<rparr>"

theorem iupdate_stores_witness:
  "\<exists>s t. binit (demo_fs\<lparr>itable := \<lambda>_. demo_inode\<rparr>) = Done () s \<and> iupdate 0 s = Done () t \<and>
    inlink (read_dinode (cur t 32) 64 (demo_inode\<lparr>inlink := 0\<rparr>)) = - 3"
proof -
  let ?d = "demo_fs\<lparr>itable := \<lambda>_. demo_inode\<rparr>"
  note defs = demo_fs_def demo_u_def demo_lg_def demo_b_def lgstate.defs bstate.defs ustate.defs fsstate.defs
  have d: "quiet 1 ?d" "\<forall>b < NBUF. bdev (bufs ?d b) = 0 \<and> brefcnt (bufs ?d b) = 0" "the_log ?d = the_log demo_lg" "sb_inodestart (sb ?d) = 32"
    "disk ?d = disk demo_b" by (simp_all add: defs quiet_def)
  obtain s where s: "binit ?d = Done () s" "bio 1 {} s" "holds s = {}" "\<forall>n. cur s n = trunc (disk demo_b n)" "beyond s = beyond ?d"
    using binit_spec [OF d(1,2)] d(5) by auto
  have l: "the_log s = the_log demo_lg" using beyond_log(1) [OF s(5)] d(3) by simp
  have f: "itable s = (\<lambda>_. demo_inode)" "sb s = sb ?d"
    using beyond_fs [of ?d s] beyond_log(2) [OF s(5), of "the_log ?d"] by simp_all
  have "hd_n (cur s 2) = 0" using s(4) by (simp add: demo_b_def hd_n_def trunc_def rd_def le_val_def s32_def)
  then have inv: "log_inv 1 2 s" using s(2) l demo_lg_simps(2,3,5) by (simp add: log_inv_def Let_def)
  have n: "IBLOCK (inum demo_inode) (sb s) = 32" using d(4) by (simp add: f(2) IBLOCK_def add32_def demo_inode_def)
  have fits: "inode_fits demo_inode" "idev demo_inode = ROOTDEV" by (simp_all add: inode_fits_def demo_inode_def)
  have "\<exists>t. iupdate 0 s = Done () t \<and> read_dinode (cur t 32) (dip (inum demo_inode)) (demo_inode\<lparr>inlink := 0\<rparr>) = with_fields demo_inode (demo_inode\<lparr>inlink := 0\<rparr>)"
    using iupdate_stores [OF inv, of demo_inode 0 32 "demo_inode\<lparr>inlink := 0\<rparr>"] fits f(1) n s(3) l demo_lg_simps(3-5)
    by (auto simp: in_log_def logged_def)
  then show ?thesis using s(1) by (auto simp: dip_def demo_inode_def with_fields_def)
qed

end
