(* ===== verification/File_Spec.thy ===== *)
theory File_Spec
  imports Sysfile
begin

text \<open>
  File descriptors of \<^verbatim>\<open>kernel/sysfile.c\<close> over the table of open files of \<^verbatim>\<open>kernel/file.c\<close>: the reference count of an open file is
  the number of descriptors that refer to it, and the calls that copy and close descriptors keep it so.
\<close>

text \<open>The descriptors of all processes that refer to file \<open>f\<close>.\<close>

definition descs :: "(nat \<Rightarrow> proc) \<Rightarrow> nat \<Rightarrow> (nat \<times> nat) set" where
  "descs ps f = {(p, fd). p < NPROC \<and> fd < NOFILE \<and> ofile (ps p) fd = Some f}"

definition refs_ok :: "'x ftstate_scheme \<Rightarrow> bool" where
  "refs_ok s = ((\<forall>f < NFILE. fref (ftable s f) = int (card (descs (procs s) f))) \<and> (\<forall>f. NFILE \<le> f \<longrightarrow> descs (procs s) f = {}))"

lemma finite_descs [simp]: "finite (descs ps f)"
  by (rule finite_subset [of _ "{..<NPROC} \<times> {..<NOFILE}"]) (auto simp: descs_def)

lemma descs_open:
  "p < NPROC \<Longrightarrow> k < NOFILE \<Longrightarrow> ofile (ps p) k = None \<Longrightarrow> q = (ps p)\<lparr>ofile := (ofile (ps p))(k := Some f)\<rparr> \<Longrightarrow>
   descs (ps(p := q)) g = (if g = f then insert (p, k) (descs ps f) else descs ps g)"
  by (auto simp: descs_def split: if_splits)

lemma descs_close:
  "ofile (ps p) k = Some f \<Longrightarrow> q = (ps p)\<lparr>ofile := (ofile (ps p))(k := None)\<rparr> \<Longrightarrow>
   descs (ps(p := q)) g = (if g = f then descs ps f - {(p, k)} else descs ps g)"
  by (auto simp: descs_def split: if_splits)

text \<open>An open descriptor refers to a file with a positive reference count.\<close>

lemma refs_pos:
  assumes "refs_ok s" "p < NPROC" "k < NOFILE" "ofile (procs s p) k = Some f"
  shows "f < NFILE" "0 < fref (ftable s f)"
proof -
  have m: "(p, k) \<in> descs (procs s) f" using assms by (simp add: descs_def)
  then show f: "f < NFILE" using assms(1) unfolding refs_ok_def by (cases "f < NFILE") auto
  have "0 < card (descs (procs s) f)" using m by (auto simp: card_gt_0_iff)
  then show "0 < fref (ftable s f)" using assms(1) f by (simp add: refs_ok_def)
qed

lemma refs_ok_open:
  assumes "refs_ok s" "p < NPROC" "k < NOFILE" "ofile (procs s p) k = None" "f < NFILE"
    and "procs t = (procs s)(p := (procs s p)\<lparr>ofile := (ofile (procs s p))(k := Some f)\<rparr>)"
    and "ftable t = (ftable s)(f := (ftable s f)\<lparr>fref := fref (ftable s f) + 1\<rparr>)"
  shows "refs_ok t"
proof -
  have "(p, k) \<notin> descs (procs s) f" using assms(4) by (simp add: descs_def)
  then show ?thesis using assms(1,5) by (auto simp: refs_ok_def assms(6,7) descs_open [of p k "procs s", OF assms(2-4) refl])
qed

lemma refs_ok_close:
  assumes "refs_ok s" "p < NPROC" "k < NOFILE" "ofile (procs s p) k = Some f"
    and "\<And>g. descs (procs t) g = descs ((procs s)(p := (procs s p)\<lparr>ofile := (ofile (procs s p))(k := None)\<rparr>)) g"
    and "fref (ftable t f) = fref (ftable s f) - 1" "\<And>g. g \<noteq> f \<Longrightarrow> ftable t g = ftable s g"
  shows "refs_ok t"
proof -
  have m: "(p, k) \<in> descs (procs s) f" using assms by (simp add: descs_def)
  have "card (descs (procs s) f - {(p, k)}) = card (descs (procs s) f) - 1" "0 < card (descs (procs s) f)"
    using m by (auto simp: card_gt_0_iff)
  then show ?thesis using assms(1,6,7) by (auto simp: refs_ok_def assms(5) descs_close [of "procs s", OF assms(4) refl])
qed

subsection \<open>The system calls\<close>

text \<open>The first argument of a system call of process \<open>p\<close> as an \<^verbatim>\<open>int\<close>, and the file it refers to as a descriptor.\<close>

definition arg0 :: "nat \<Rightarrow> 'x ftstate_scheme \<Rightarrow> int" where
  "arg0 p s = s32 (unat (load64 (mem s) (trapframe (procs s p) + tf_a0)) mod 2 ^ 32)"

definition arg_file :: "nat \<Rightarrow> 'x ftstate_scheme \<Rightarrow> nat option" where
  "arg_file p s = (if 0 \<le> arg0 p s \<and> arg0 p s < int NOFILE then ofile (procs s p) (nat (arg0 p s)) else None)"

lemma argfd_exec:
  "quiet p s \<Longrightarrow> argfd 0 s = Done (map_option (\<lambda>f. (nat (arg0 p s), f)) (arg_file p s)) (s\<lparr>mach := settle (mach s)\<rparr>)"
  by (auto simp: quiet_def argfd_def argint_def argraw_def get_tf_def arg0_def arg_file_def exec_simps lock_simps split: option.splits)

lemma sys_dup_exec:
  assumes q: "quiet p s"
  shows "arg_file p s = None \<Longrightarrow> sys_dup s = Done (- 1) (s\<lparr>mach := settle (mach s)\<rparr>)"
    and "\<forall>k < NOFILE. ofile (procs s p) k \<noteq> None \<Longrightarrow> sys_dup s = Done (- 1) (s\<lparr>mach := settle (mach s)\<rparr>)"
    and "arg_file p s = Some f \<Longrightarrow> 0 < fref (ftable s f) \<Longrightarrow> k < NOFILE \<Longrightarrow> ofile (procs s p) k = None \<Longrightarrow>
      \<forall>j < k. ofile (procs s p) j \<noteq> None \<Longrightarrow>
      sys_dup s = Done (of_nat k) (s\<lparr>mach := settle (mach s), procs := (procs s)(p := (procs s p)\<lparr>ofile := (ofile (procs s p))(k := Some f)\<rparr>),
        ftable := (ftable s)(f := (ftable s f)\<lparr>fref := fref (ftable s f) + 1\<rparr>)\<rparr>)"
proof -
  note x = quietD [OF q] and d = sys_dup_def argfd_exec [OF q] exec_simps lock_simps fdalloc_def set_ofile_def filedup_def
  show "sys_dup s = Done (- 1) (s\<lparr>mach := settle (mach s)\<rparr>)" if "arg_file p s = None" using that by (simp add: d)
  show "sys_dup s = Done (- 1) (s\<lparr>mach := settle (mach s)\<rparr>)" if full: "\<forall>k < NOFILE. ofile (procs s p) k \<noteq> None"
  proof -
    have "find (\<lambda>fd. ofile (procs s p) fd = None) [0..<NOFILE] = None" using full by (simp add: find_None_iff)
    then show ?thesis using x by (cases "arg_file p s") (simp_all add: d)
  qed
  show "sys_dup s = Done (of_nat k) (s\<lparr>mach := settle (mach s), procs := (procs s)(p := (procs s p)\<lparr>ofile := (ofile (procs s p))(k := Some f)\<rparr>),
        ftable := (ftable s)(f := (ftable s f)\<lparr>fref := fref (ftable s f) + 1\<rparr>)\<rparr>)"
    if a: "arg_file p s = Some f" "0 < fref (ftable s f)" "k < NOFILE" "ofile (procs s p) k = None" "\<forall>j < k. ofile (procs s p) j \<noteq> None"
  proof -
    have "find (\<lambda>fd. ofile (procs s p) fd = None) [0..<NOFILE] = Some k"
      unfolding find_Some_iff using a(3-5) by (intro exI [of _ k]) simp
    then show ?thesis using x a(1,2) by (simp add: d)
  qed
qed

lemma sys_close_exec:
  assumes q: "quiet p s"
  shows "arg_file p s = None \<Longrightarrow> sys_close s = Done (- 1) (s\<lparr>mach := settle (mach s)\<rparr>)"
    and "arg_file p s = Some f \<Longrightarrow> 1 < fref (ftable s f) \<Longrightarrow> sys_close s = Done 0 (s\<lparr>mach := settle (mach s),
        procs := (procs s)(p := (procs s p)\<lparr>ofile := (ofile (procs s p))(nat (arg0 p s) := None)\<rparr>),
        ftable := (ftable s)(f := (ftable s f)\<lparr>fref := fref (ftable s f) - 1\<rparr>)\<rparr>)"
proof -
  note x = quietD [OF q] and d = sys_close_def argfd_exec [OF q] exec_simps lock_simps set_ofile_def fileclose_def
  show "sys_close s = Done (- 1) (s\<lparr>mach := settle (mach s)\<rparr>)" if "arg_file p s = None" using that by (simp add: d)
  show "sys_close s = Done 0 (s\<lparr>mach := settle (mach s),
        procs := (procs s)(p := (procs s p)\<lparr>ofile := (ofile (procs s p))(nat (arg0 p s) := None)\<rparr>),
        ftable := (ftable s)(f := (ftable s f)\<lparr>fref := fref (ftable s f) - 1\<rparr>)\<rparr>)"
    if "arg_file p s = Some f" "1 < fref (ftable s f)" using that x by (simp add: d)
qed

subsection \<open>What the lower layers leave alone\<close>

text \<open>The open files, descriptors, inodes and pipes: the layers below the inodes do not touch them.\<close>

definition files :: "'x ftstate_scheme \<Rightarrow> _" where
  "files s = (ftable s, (\<lambda>r. ofile (procs s r)), itable s, pipes s)"

lemma files_lock [stays_intros]:
  "stays files (acquire l)" "stays files (release l)" "stays files (holding l)" "stays files mycpu" "stays files intr_get"
  "stays files myproc" "stays files myproc_ref"
proof -
  have m: "stays files (set_mycpu f)" "stays files (set_lock l g)" "stays files mycpu" "stays files (holding l)" "stays files cpuid" for l f g
    unfolding set_mycpu_def set_lock_def mycpu_def holding_def cpuid_def by (intro stays_intros stays_modify; simp add: files_def)+
  have i: "stays files intr_get" "stays files intr_on" "stays files intr_off"
    unfolding intr_get_def intr_on_def intr_off_def by (intro stays_intros m)+
  have o: "stays files push_off" "stays files pop_off"
    unfolding push_off_def pop_off_def by (intro stays_intros m i)+
  have t: "stays files (test_and_set l)" for l
    unfolding test_and_set_def by (intro stays_intros m)
  show "stays files (acquire l)" "stays files (release l)"
    unfolding acquire_def acquire_enter_def acquire_record_def release_def release_clear_def release_unlock_def by (intro stays_intros m i o t)+
  show p: "stays files myproc" unfolding myproc_def by (intro stays_intros m o)
  show "stays files myproc_ref" unfolding myproc_ref_def by (intro stays_intros p)
qed (simp_all add: mycpu_def holding_def intr_get_def stays_intros)

lemma files_sched [stays_intros]:
  "stays files (get_proc p)" "stays files sched" "stays files (sleep c lk)" "stays files (wakeup c)"
proof -
  show g: "stays files (get_proc p)" for p unfolding get_proc_def by (intro stays_intros)
  have s: "stays files (set_proc p f)" if "\<And>q. ofile (f q) = ofile q" for p f
    unfolding set_proc_def by (rule stays_modify) (auto simp: files_def that)
  show sch: "stays files sched" unfolding sched_def by (intro stays_intros g s; simp)
  show "stays files (sleep c lk)" unfolding sleep_def by (intro stays_intros sch s; simp)
  show "stays files (wakeup c)" unfolding wakeup_def wake_one_def by (intro stays_intros g s; simp)
qed

lemma files_sleeplock [stays_intros]:
  "stays files (acquiresleep l)" "stays files (releasesleep l)" "stays files (holdingsleep l)"
proof -
  have s: "stays files (set_sl l k)" for l k unfolding set_sl_def by (rule stays_modify) (simp add: files_def)
  show "stays files (acquiresleep l)" "stays files (releasesleep l)" "stays files (holdingsleep l)"
    unfolding acquiresleep_def acquiresleep_loop_def releasesleep_def holdingsleep_def
    by (intro stays_intros s stays_modify; simp add: files_def)+
qed

lemma files_buf [stays_intros]:
  "stays files (get_buf b)" "stays files (set_buf b f)" "stays files (disk_rw b wrt)" "stays files (set_next a c)" "stays files (set_prev a c)"
  unfolding get_buf_def set_buf_def disk_rw_def set_next_def set_prev_def
  by (intro stays_intros stays_modify; simp add: files_def Let_def)+

lemma files_bio [stays_intros]:
  "stays files (bread d n)" "stays files (bwrite b)" "stays files (brelse b)" "stays files (bpin b)" "stays files (bunpin b)"
  unfolding bread_def bget_def bwrite_def brelse_def insert_head_def bpin_def bunpin_def
  by (intro stays_intros)+

lemma files_log [stays_intros]:
  "stays files (log_write b)" "stays files begin_op" "stays files end_op"
proof -
  have l: "stays files get_log" "stays files (set_log f)" for f
    unfolding get_log_def set_log_def by (intro stays_intros stays_modify; simp add: files_def)+
  have c: "stays files commit"
    unfolding commit_def write_log_def write_log_one_def write_head_def install_trans_def install_one_def by (intro stays_intros l)
  show "stays files (log_write b)" "stays files begin_op" "stays files end_op"
    unfolding log_write_def begin_op_def begin_op_loop_def end_op_def by (intro stays_intros l c)+
qed

text \<open>The open files and the descriptors alone: neither inodes nor pipes touch them.\<close>

definition fds :: "'x ftstate_scheme \<Rightarrow> _" where
  "fds s = (ftable s, (\<lambda>r. ofile (procs s r)))"

lemma fds_files: "stays files m \<Longrightarrow> stays fds m"
  unfolding stays_def files_def fds_def by blast

lemma fds_iput: "stays fds (iput k)"
proof -
  have g: "stays fds (get_inode k)" "stays fds (set_inode k f)" for k f
    unfolding get_inode_def set_inode_def by (intro stays_intros stays_modify; simp add: fds_def)+
  have d: "stays fds (set_data b f)" for b f unfolding set_data_def by (intro stays_intros fds_files)
  note low = fds_files [OF files_lock(1)] fds_files [OF files_lock(2)] fds_files [OF files_sleeplock(1)] fds_files [OF files_sleeplock(2)]
    fds_files [OF files_buf(1)] fds_files [OF files_bio(1)] fds_files [OF files_bio(3)] fds_files [OF files_log(1)]
  have u: "stays fds (iupdate k)" "stays fds (bfree dv n)" for k dv n
    unfolding iupdate_def bfree_def by (intro stays_intros g d low)+
  have t: "stays fds (itrunc k)" for k unfolding itrunc_def by (intro stays_intros g u low)
  show ?thesis unfolding iput_def by (intro stays_intros g u t low)
qed

lemma fds_pipeclose: "stays fds (pipeclose pi w)"
proof -
  have g: "stays fds (get_pipe pi)" "stays fds (set_pipe pi f)" for pi f
    unfolding get_pipe_def set_pipe_def by (intro stays_intros stays_modify; simp add: fds_def)+
  have k: "stays fds (kfree pa)" for pa
    unfolding kfree_def by (intro stays_intros stays_modify fds_files files_lock; simp add: fds_def)
  note low = fds_files [OF files_lock(1)] fds_files [OF files_lock(2)] fds_files [OF files_sched(4)]
  show ?thesis unfolding pipeclose_def by (intro stays_intros g k low)
qed

subsection \<open>The last descriptor of a file\<close>

text \<open>What \<^verbatim>\<open>fileclose\<close> does with the last reference, and the state in which it does so.\<close>

definition last_close :: "kfile \<Rightarrow> ('x ftstate_scheme, unit) thread" where
  "last_close x = (if ftype x = FD_PIPE then pipeclose (fpipe x) (writable x)
     else whenM (ftype x = FD_INODE \<or> ftype x = FD_DEVICE) (seq begin_op (seq (iput (fip x)) end_op)))"

definition closed :: "nat \<Rightarrow> nat \<Rightarrow> 'x ftstate_scheme \<Rightarrow> 'x ftstate_scheme" where
  "closed p f s = s\<lparr>
     procs := (procs s)(p := (procs s p)\<lparr>ofile := (ofile (procs s p))(nat (arg0 p s) := None)\<rparr>),
     ftable := (ftable s)(f := (ftable s f)\<lparr>fref := 0, ftype := FD_NONE\<rparr>), mach := settle (mach s)\<rparr>"

lemma sys_close_last:
  assumes q: "quiet p s" and f: "arg_file p s = Some f" "fref (ftable s f) = 1"
  shows "sys_close s = seq (last_close (ftable s f)) (ret 0) (closed p f s)"
  using quietD [OF q] f
  by (simp add: sys_close_def argfd_exec [OF q] exec_simps lock_simps set_ofile_def fileclose_def last_close_def closed_def cong: if_cong)

lemma fds_last_close: "stays fds (last_close x)"
  unfolding last_close_def
  by (intro stays_intros fds_pipeclose fds_iput fds_files [OF files_log(2)] fds_files [OF files_log(3)])

lemma quiet_closed: "quiet p s \<Longrightarrow> quiet p (closed p f s)"
  by (simp add: closed_def)

lemma refs_ok_closed:
  assumes ok: "refs_ok s" "p < NPROC" and f: "arg_file p s = Some f" "fref (ftable s f) = 1" and t: "fds t = fds (closed p f s)"
  shows "refs_ok t" "ofile (procs t p) = (ofile (procs s p))(nat (arg0 p s) := None)"
proof -
  have o: "nat (arg0 p s) < NOFILE" "ofile (procs s p) (nat (arg0 p s)) = Some f" using f(1) by (auto simp: arg_file_def split: if_splits)
  have p: "ofile (procs t r) = ofile (procs (closed p f s) r)" "ftable t = ftable (closed p f s)" for r
    using t by (auto simp: fds_def fun_eq_iff)
  have "descs (procs t) g = descs (procs (closed p f s)) g" for g by (simp only: descs_def p)
  then show "refs_ok t" by (intro refs_ok_close [OF ok o]) (use f(2) p(2) in \<open>simp_all add: closed_def\<close>)
  show "ofile (procs t p) = (ofile (procs s p))(nat (arg0 p s) := None)" by (simp add: p closed_def)
qed

lemma pipeclose_exec:
  fixes s :: "'x ftstate_scheme" and pi :: u64 and w :: bool
  assumes q: "quiet p s"
  defines "c \<equiv> if w then Ch_nread pi else Ch_nwrite pi"
  defines "x \<equiv> if w then (pipes s pi)\<lparr>writeopen := False\<rparr> else (pipes s pi)\<lparr>readopen := False\<rparr>"
  defines "t \<equiv> s\<lparr>pipes := (pipes s)(pi := x), procs := \<lambda>r. if r < NPROC \<and> p \<noteq> r then woken c (procs s r) else procs s r, mach := settle (mach s)\<rparr>"
  shows "pipeclose pi w s = (if \<not> readopen x \<and> \<not> writeopen x then kfree pi t else Done () t)"
proof -
  have tf: "table_free (Some p) (acq (Lk_pipe pi) (mach s))" using quietD [OF q] by (simp add: table_free_def lock_simps)
  show ?thesis
    using quietD [OF q] tf by (cases w) (simp_all add: pipeclose_def exec_simps lock_simps t_def x_def c_def cong: if_cong)
qed

text \<open>The page of the pipe is a page of the allocator.\<close>

definition pipe_page :: "'x ftstate_scheme \<Rightarrow> u64 \<Rightarrow> bool" where
  "pipe_page s pi = (pi mod PGSIZE = 0 \<and> kend s \<le> pi \<and> pi < PHYSTOP)"

lemma kfree_page:
  fixes s :: "'x ftstate_scheme"
  assumes "quiet p s" "pipe_page s pa"
  shows "\<exists>t. kfree pa s = Done () t \<and> freelist t = pa \<and> procs t = procs s \<and> quiet p t \<and> pipes t = pipes s"
  using quietD [OF assms(1)] assms by (simp add: pipe_page_def kfree_def exec_simps lock_simps linorder_not_less linorder_not_le)

text \<open>After one end of a pipe is closed nobody sleeps there waiting for the other, and when both are closed its page is free.\<close>

definition end_closed :: "nat \<Rightarrow> bool \<Rightarrow> u64 \<Rightarrow> 'x ftstate_scheme \<Rightarrow> bool" where
  "end_closed p w pi t = (\<not> (if w then writeopen else readopen) (pipes t pi) \<and>
     (\<forall>r < NPROC. r \<noteq> p \<longrightarrow> \<not> (pstate (procs t r) = SLEEPING \<and> chan (procs t r) = Some (if w then Ch_nread pi else Ch_nwrite pi))) \<and>
     (\<not> readopen (pipes t pi) \<and> \<not> writeopen (pipes t pi) \<longrightarrow> freelist t = pi))"

lemma pipeclose_ok:
  assumes q: "quiet p s" and pg: "(if w then readopen else writeopen) (pipes s pi) \<or> pipe_page s pi"
  shows "\<exists>t. pipeclose pi w s = Done () t \<and> quiet p t \<and> end_closed p w pi t"
proof -
  let ?c = "if w then Ch_nread pi else Ch_nwrite pi"
  let ?x = "if w then (pipes s pi)\<lparr>writeopen := False\<rparr> else (pipes s pi)\<lparr>readopen := False\<rparr>"
  let ?t = "s\<lparr>pipes := (pipes s)(pi := ?x), procs := \<lambda>r. if r < NPROC \<and> p \<noteq> r then woken ?c (procs s r) else procs s r, mach := settle (mach s)\<rparr>"
  note run = pipeclose_exec [OF q, of pi w]
  have t: "quiet p ?t" using q by simp
  have e: "\<not> (if w then writeopen else readopen) (pipes ?t pi)"
      "\<forall>r < NPROC. r \<noteq> p \<longrightarrow> \<not> (pstate (procs ?t r) = SLEEPING \<and> chan (procs ?t r) = Some ?c)" by (auto simp: woken_def)
  show ?thesis
  proof (cases "readopen ?x \<or> writeopen ?x")
    case True
    then have "pipeclose pi w s = Done () ?t" unfolding run by auto
    moreover have "end_closed p w pi ?t" unfolding end_closed_def using e True by (cases w) simp_all
    ultimately show ?thesis using t by blast
  next
    case False
    then have "pipe_page ?t pi" using pg by (auto simp: pipe_page_def split: if_splits)
    from kfree_page [OF t this]
    obtain v where v: "kfree pi ?t = Done () v" "freelist v = pi" "procs v = procs ?t" "quiet p v" "pipes v = pipes ?t" by (elim exE conjE)
    have "pipeclose pi w s = Done () v" unfolding run using False v(1) by (simp only: if_True de_Morgan_disj simp_thms)
    moreover have "end_closed p w pi v" unfolding end_closed_def v(3,5) using e v(2) by blast
    ultimately show ?thesis using v(4) by blast
  qed
qed

text \<open>
  Giving up the reference to an inode, when the operation needs no wait: the log has room and is not committing. The inode must
  still have other references or links, so that it is not freed.
\<close>

definition log_ready :: "nat \<Rightarrow> nat \<Rightarrow> 'x lgstate_scheme \<Rightarrow> bool" where
  "log_ready p L s = (log_inv p L s \<and> holds s = {} \<and> \<not> committing (the_log s) \<and> 0 \<le> outstanding (the_log s) \<and>
     lh_n (the_log s) + (outstanding (the_log s) + 1) * int MAXOPBLOCKS \<le> int LOGSIZE)"

definition stays_used :: "inode \<Rightarrow> bool" where
  "stays_used ip = (\<not> (iref ip = 1 \<and> ivalid ip \<and> inlink ip = 0))"

lemma iput_exec:
  assumes "quiet p s" "stays_used (itable s k)"
  shows "iput k s = Done () (s\<lparr>itable := (itable s)(k := (itable s k)\<lparr>iref := iref (itable s k) - 1\<rparr>), mach := settle (mach s)\<rparr>)"
proof -
  have "\<not> (iref (itable s k) = 1 \<and> ivalid (itable s k) \<and> inlink (itable s k) = 0)" using assms(2) by (simp add: stays_used_def)
  then have w: "whenM (iref (itable s k) = 1 \<and> ivalid (itable s k) \<and> inlink (itable s k) = 0) m = ret ()" for m :: "('a fsstate_scheme, unit) thread"
    by (simp only: whenM_def if_False)
  show ?thesis using quietD [OF assms(1)] by (simp add: iput_def w exec_simps lock_simps)
qed

lemma end_op_ok:
  assumes inv: "log_inv p L s" "holds s = {}" and op: "1 \<le> outstanding (the_log s)" "\<not> committing (the_log s)"
  shows "\<exists>t. end_op s = Done () t \<and> quiet p t"
proof (cases "outstanding (the_log s) = 1")
  case True
  then obtain t where "end_op s = Done () t" "log_inv p L t" using end_op_commits [OF inv True op(2)] by blast
  then show ?thesis using bioD(1) [OF log_invD(7)] by blast
next
  case False
  have q: "quiet p s" using bioD(1) [OF log_invD(7) [OF inv(1)]] .
  have "table_free (Some p) (acq Lk_log (mach s))" using quietD [OF q] by (simp add: table_free_def lock_simps)
  then show ?thesis using quietD [OF q] q op(2) False by (simp add: end_op_def exec_simps lock_simps cong: if_cong)
qed

lemma log_inv_cong:
  assumes inv: "log_inv p L s" and t: "quiet p t" "bufs t = bufs s" "bnext t = bnext s" "bprev t = bprev s" "disk t = disk s" "sleeplocks t = sleeplocks s"
    "pid (procs t p) = pid (procs s p)" "the_log t = (the_log s)\<lparr>outstanding := x\<rparr>"
  shows "log_inv p L t" "holds t = holds s"
proof -
  have b: "blocked t = blocked s" "cached t = cached s" using t(2,6) by (simp_all add: blocked_def cached_def fun_eq_iff)
  then have c: "cur t n = cur s n" for n using t(2,5) by (simp add: cur_def split: option.split)
  show "holds t = holds s" using b(1) t(2) by (simp add: holds_def)
  have "bio p P t" if "bio p P s" for P
    using that t b by (simp add: bio_def lru_def bufs_unique_def buf_ok_def)
  then show "log_inv p L t" using inv c by (simp add: log_inv_def Let_def t(8) log_at_def)
qed

lemma put_in_op:
  fixes s :: "'x ftstate_scheme"
  assumes r: "log_ready p L s" and k: "stays_used (itable s k)"
  shows "\<exists>t. seq begin_op (seq (iput k) end_op) s = Done () t \<and> quiet p t \<and> itable t = (itable s)(k := (itable s k)\<lparr>iref := iref (itable s k) - 1\<rparr>)"
proof -
  have inv: "log_inv p L s" "holds s = {}" using r by (simp_all add: log_ready_def)
  have q: "quiet p s" using bioD(1) [OF log_invD(7) [OF inv(1)]] .
  let ?i = "(itable s)(k := (itable s k)\<lparr>iref := iref (itable s k) - 1\<rparr>)" and ?l = "(the_log s)\<lparr>outstanding := outstanding (the_log s) + 1\<rparr>"
  let ?u = "s\<lparr>mach := settle (mach s), the_log := ?l\<rparr>"
  let ?v = "?u\<lparr>itable := ?i, mach := settle (mach ?u)\<rparr>"
  have b: "begin_op s = Done () ?u" using r by (intro begin_op_exec [OF q]) (simp_all add: log_ready_def)
  have "quiet p ?u" "stays_used (itable ?u k)" using q k by simp_all
  from iput_exec [OF this] have i: "iput k ?u = Done () ?v" by simp
  have v: "log_inv p L ?v" "holds ?v = holds s"
    by (rule log_inv_cong [OF inv(1), of _ "outstanding (the_log s) + 1"]; use q in \<open>simp add: quiet_def lock_simps\<close>)+
  have "1 \<le> outstanding (the_log ?v)" "\<not> committing (the_log ?v)" "holds ?v = {}" using r v(2) by (simp_all add: log_ready_def)
  from end_op_ok [OF v(1) this(3,1,2)] obtain t where t: "end_op ?v = Done () t" "quiet p t" by (elim exE conjE)
  have "itable t = ?i" using staysD [OF files_log(3), of ?v _ t] t(1) by (simp add: files_def)
  then show ?thesis using b i t by (simp add: seq_exec)
qed

lemma log_ready_closed:
  assumes r: "log_ready p L s"
  shows "log_ready p L (closed p f s)"
proof -
  have inv: "log_inv p L s" using r by (simp add: log_ready_def)
  have q: "quiet p s" using bioD(1) [OF log_invD(7) [OF inv]] .
  have "log_inv p L (closed p f s)" "holds (closed p f s) = holds s"
    by (rule log_inv_cong [OF inv quiet_closed [OF q], of _ "outstanding (the_log s)"]; simp add: closed_def)+
  then show ?thesis using r by (simp add: log_ready_def closed_def)
qed

lemma sys_close_pipe:
  assumes q: "quiet p s" and f: "arg_file p s = Some f" "fref (ftable s f) = 1" "ftype (ftable s f) = FD_PIPE"
    and pg: "(if writable (ftable s f) then readopen else writeopen) (pipes s (fpipe (ftable s f))) \<or> pipe_page s (fpipe (ftable s f))"
  shows "\<exists>t. sys_close s = Done 0 t \<and> quiet p t \<and> end_closed p (writable (ftable s f)) (fpipe (ftable s f)) t"
proof -
  have "(if writable (ftable s f) then readopen else writeopen) (pipes (closed p f s) (fpipe (ftable s f))) \<or> pipe_page (closed p f s) (fpipe (ftable s f))"
    using pg by (simp add: closed_def pipe_page_def)
  from pipeclose_ok [OF quiet_closed [OF q] this]
  show ?thesis unfolding sys_close_last [OF q f(1,2)] by (auto simp: last_close_def f(3) seq_exec ret_exec)
qed

lemma sys_close_inode:
  assumes q: "quiet p s" and f: "arg_file p s = Some f" "fref (ftable s f) = 1" "ftype (ftable s f) = FD_INODE \<or> ftype (ftable s f) = FD_DEVICE"
    and r: "log_ready p L s" "stays_used (itable s (fip (ftable s f)))"
  shows "\<exists>t. sys_close s = Done 0 t \<and> quiet p t \<and> iref (itable t (fip (ftable s f))) = iref (itable s (fip (ftable s f))) - 1"
proof -
  have i: "itable (closed p f s) = itable s" by (simp add: closed_def)
  obtain t where t: "seq begin_op (seq (iput (fip (ftable s f))) end_op) (closed p f s) = Done () t" "quiet p t"
    "itable t = (itable s)(fip (ftable s f) := (itable s (fip (ftable s f)))\<lparr>iref := iref (itable s (fip (ftable s f))) - 1\<rparr>)"
    using put_in_op [OF log_ready_closed [OF r(1), of f], of "fip (ftable s f)"] r(2) unfolding i by blast
  then have "last_close (ftable s f) (closed p f s) = Done () t" using f(3) by (auto simp: last_close_def whenM_def)
  then have "sys_close s = Done 0 t" unfolding sys_close_last [OF q f(1,2)] by (simp add: seq_exec ret_exec)
  then show ?thesis using t(2,3) by simp
qed

lemma sys_close_counts:
  assumes q: "quiet p s" "p < NPROC" and ok: "refs_ok s" and f: "arg_file p s = Some f"
    and t: "sys_close s = Done r t \<or> sys_close s = Swtch t \<or> sys_close s = Spin t"
  shows "refs_ok t \<and> ofile (procs t p) = (ofile (procs s p))(nat (arg0 p s) := None) \<and> (sys_close s = Done r t \<longrightarrow> r = 0)"
proof (cases "fref (ftable s f) = 1")
  case True
  note run = sys_close_last [OF q(1) f True]
  have "stays fds (seq (last_close (ftable s f)) (ret 0) :: ('a ftstate_scheme, u64) thread)" by (intro stays_intros fds_last_close)
  from staysD [OF this, of "closed p f s" r t] have "fds t = fds (closed p f s)" using t unfolding run by blast
  then show ?thesis
    using refs_ok_closed [OF ok q(2) f True, of t] by (auto simp: run seq_exec ret_exec split: outcome.splits)
next
  case False
  have o: "nat (arg0 p s) < NOFILE" "ofile (procs s p) (nat (arg0 p s)) = Some f" using f by (auto simp: arg_file_def split: if_splits)
  then have "1 < fref (ftable s f)" using refs_pos(2) [OF ok q(2) o] False by simp
  note run = sys_close_exec(2) [OF q(1) f this]
  have "t = s\<lparr>mach := settle (mach s), procs := (procs s)(p := (procs s p)\<lparr>ofile := (ofile (procs s p))(nat (arg0 p s) := None)\<rparr>),
        ftable := (ftable s)(f := (ftable s f)\<lparr>fref := fref (ftable s f) - 1\<rparr>)\<rparr>" "sys_close s = Done r t \<longrightarrow> r = 0" using t unfolding run by auto
  moreover from this(1) have "refs_ok t" using o by (intro refs_ok_close [OF ok q(2), of _ f]) simp_all
  ultimately show ?thesis by simp
qed

text \<open>
  C15. The reference count of every open file is the number of descriptors that refer to it, and a descriptor refers to an open
  file; \<^verbatim>\<open>dup\<close> and \<^verbatim>\<open>close\<close> keep this. \<^verbatim>\<open>dup\<close> of an open descriptor returns the lowest free one, which then refers to the same file. With an
  argument that is not an open descriptor both calls return -1 and change nothing, and so does \<^verbatim>\<open>dup\<close> when no
  descriptor is free. \<^verbatim>\<open>close\<close> of any open descriptor frees it: whenever the call returns, it returns 0 and the counts are right, and they are also right whenever
  it gives up the processor or waits for a lock. It does return when the file has other descriptors; when it was the last one
  of an end of a pipe, which is then closed with no process left asleep waiting for it, and with the page of the pipe freed
  if the other end was closed before; and when it was the last one of an inode that stays in use, which loses a reference, while the log has room for the
  operation.
\<close>

theorem descriptors_counted:
  fixes s :: "'x ftstate_scheme"
  assumes q: "quiet p s" "p < NPROC" and ok: "refs_ok s"
  shows "(arg_file p s = None \<longrightarrow> sys_dup s = Done (- 1) (s\<lparr>mach := settle (mach s)\<rparr>) \<and> sys_close s = Done (- 1) (s\<lparr>mach := settle (mach s)\<rparr>)) \<and>
    ((\<forall>k < NOFILE. ofile (procs s p) k \<noteq> None) \<longrightarrow> sys_dup s = Done (- 1) (s\<lparr>mach := settle (mach s)\<rparr>)) \<and>
    (\<forall>f k. arg_file p s = Some f \<and> k < NOFILE \<and> ofile (procs s p) k = None \<and> (\<forall>j < k. ofile (procs s p) j \<noteq> None) \<longrightarrow>
      (\<exists>t. sys_dup s = Done (of_nat k) t \<and> refs_ok t \<and> quiet p t \<and> ofile (procs t p) = (ofile (procs s p))(k := Some f))) \<and>
    (\<forall>f r t. arg_file p s = Some f \<and> (sys_close s = Done r t \<or> sys_close s = Swtch t \<or> sys_close s = Spin t) \<longrightarrow>
      refs_ok t \<and> ofile (procs t p) = (ofile (procs s p))(nat (arg0 p s) := None) \<and> (sys_close s = Done r t \<longrightarrow> r = 0)) \<and>
    (\<forall>f. arg_file p s = Some f \<and> 1 < fref (ftable s f) \<longrightarrow> (\<exists>t. sys_close s = Done 0 t \<and> quiet p t)) \<and>
    (\<forall>f. arg_file p s = Some f \<and> fref (ftable s f) = 1 \<and> ftype (ftable s f) = FD_PIPE \<and>
        ((if writable (ftable s f) then readopen else writeopen) (pipes s (fpipe (ftable s f))) \<or> pipe_page s (fpipe (ftable s f))) \<longrightarrow>
      (\<exists>t. sys_close s = Done 0 t \<and> quiet p t \<and> end_closed p (writable (ftable s f)) (fpipe (ftable s f)) t)) \<and>
    (\<forall>f L. arg_file p s = Some f \<and> fref (ftable s f) = 1 \<and> (ftype (ftable s f) = FD_INODE \<or> ftype (ftable s f) = FD_DEVICE) \<and>
        log_ready p L s \<and> stays_used (itable s (fip (ftable s f))) \<longrightarrow>
      (\<exists>t. sys_close s = Done 0 t \<and> quiet p t \<and> iref (itable t (fip (ftable s f))) = iref (itable s (fip (ftable s f))) - 1))"
proof (intro conjI allI impI)
  have opn: "nat (arg0 p s) < NOFILE" "ofile (procs s p) (nat (arg0 p s)) = Some f" if "arg_file p s = Some f" for f
    using that by (auto simp: arg_file_def split: if_splits)
  note pos = refs_pos [OF ok q(2) opn]
  show "sys_dup s = Done (- 1) (s\<lparr>mach := settle (mach s)\<rparr>)" "sys_close s = Done (- 1) (s\<lparr>mach := settle (mach s)\<rparr>)"
    if "arg_file p s = None" using sys_dup_exec(1) [OF q(1) that] sys_close_exec(1) [OF q(1) that] by blast+
  show "sys_dup s = Done (- 1) (s\<lparr>mach := settle (mach s)\<rparr>)" if "\<forall>k < NOFILE. ofile (procs s p) k \<noteq> None"
    using sys_dup_exec(2) [OF q(1) that] .
  fix f
  show "\<exists>t. sys_dup s = Done (of_nat k) t \<and> refs_ok t \<and> quiet p t \<and> ofile (procs t p) = (ofile (procs s p))(k := Some f)"
    if "arg_file p s = Some f \<and> k < NOFILE \<and> ofile (procs s p) k = None \<and> (\<forall>j < k. ofile (procs s p) j \<noteq> None)" for k
    using that sys_dup_exec(3) [OF q(1), of f k] pos [of f] q(1) by (auto intro!: refs_ok_open [OF ok q(2), of k f])
  show "refs_ok t" "ofile (procs t p) = (ofile (procs s p))(nat (arg0 p s) := None)" "sys_close s = Done r t \<Longrightarrow> r = 0"
    if "arg_file p s = Some f \<and> (sys_close s = Done r t \<or> sys_close s = Swtch t \<or> sys_close s = Spin t)" for r t
    using sys_close_counts [OF q ok, of f r t] that by blast+
  show "\<exists>t. sys_close s = Done 0 t \<and> quiet p t" if "arg_file p s = Some f \<and> 1 < fref (ftable s f)"
    using that sys_close_exec(2) [OF q(1), of f] q(1) by auto
  show "\<exists>t. sys_close s = Done 0 t \<and> quiet p t \<and> end_closed p (writable (ftable s f)) (fpipe (ftable s f)) t"
    if "arg_file p s = Some f \<and> fref (ftable s f) = 1 \<and> ftype (ftable s f) = FD_PIPE \<and>
      ((if writable (ftable s f) then readopen else writeopen) (pipes s (fpipe (ftable s f))) \<or> pipe_page s (fpipe (ftable s f)))"
    using sys_close_pipe [OF q(1)] that by blast
  show "\<exists>t. sys_close s = Done 0 t \<and> quiet p t \<and> iref (itable t (fip (ftable s f))) = iref (itable s (fip (ftable s f))) - 1"
    if "arg_file p s = Some f \<and> fref (ftable s f) = 1 \<and> (ftype (ftable s f) = FD_INODE \<or> ftype (ftable s f) = FD_DEVICE) \<and>
      log_ready p L s \<and> stays_used (itable s (fip (ftable s f)))" for L
    using sys_close_inode [OF q(1)] that by blast
qed

text \<open>Process 1 has the writing end of a pipe as descriptor 0, no other descriptor is open, and the argument of its call is 0.\<close>

definition demo_fd :: ftstate where
  "demo_fd = demo_ft\<lparr>mem := (\<lambda>_. 0), procs := (\<lambda>p. (procs demo_ft p)\<lparr>ofile := (\<lambda>k. if p = 1 \<and> k = 0 then Some 0 else None)\<rparr>),
     ftable := (ftable demo_ft)(0 := \<lparr>ftype = FD_PIPE, fref = 1, readable = False, writable = True, fpipe = 7, fip = 0, foff = 0, fmajor = 0\<rparr>),
     pipes := (\<lambda>_. \<lparr>pdata = (\<lambda>_. 0), nread = 0, nwrite = 0, readopen = True, writeopen = True\<rparr>)\<rparr>"

text \<open>The same with a file instead of the pipe, whose inode has two references.\<close>

definition demo_fi :: ftstate where
  "demo_fi = demo_fd\<lparr>ftable := (ftable demo_fd)(0 := (ftable demo_fd 0)\<lparr>ftype := FD_INODE\<rparr>), itable := (\<lambda>k. (itable demo_fd k)\<lparr>iref := 2\<rparr>)\<rparr>"

lemma demo_fd_ok:
  assumes o: "\<And>p. ofile (procs s p) = ofile (procs demo_fd p)" "\<And>p. trapframe (procs s p) = trapframe (procs demo_fd p)" "mem s = mem demo_fd"
    and t: "\<And>f. fref (ftable s f) = fref (ftable demo_fd f)"
  shows "refs_ok s" "arg_file 1 s = Some 0" "arg0 1 s = 0"
proof -
  have o': "ofile (procs s p) = (\<lambda>k. if p = 1 \<and> k = 0 then Some 0 else None)" for p by (simp add: o demo_fd_def)
  have z: "fref (ftable s f) = (if f = 0 then 1 else 0)" for f
    by (simp add: t demo_fd_def demo_ft_def fsstate.defs ftstate.defs)
  have d: "descs (procs s) f = (if f = 0 then {(1, 0)} else {})" for f by (auto simp: descs_def o')
  show "refs_ok s" by (auto simp: refs_ok_def d z)
  show a: "arg0 1 s = 0" unfolding arg0_def o by (simp add: demo_fd_def load64_def rd_def le_val_def s32_def)
  show "arg_file 1 s = Some 0" unfolding arg_file_def a o' by simp
qed

lemma beyond_files:
  fixes s t :: "'x ftstate_scheme"
  assumes "beyond s = beyond t"
  shows "ftable s = ftable t \<and> itable s = itable t"
proof -
  have "bstate.more s = bstate.more t" using assms by (simp add: beyond_def)
  then show ?thesis by (cases s, cases t) simp
qed

lemma demo_fi_boot:
  "\<exists>s. binit demo_fi = Done () s \<and> quiet 1 s \<and> refs_ok s \<and> arg_file 1 s = Some 0 \<and> log_ready 1 2 s \<and>
    ftable s = ftable demo_fi \<and> itable s = itable demo_fi"
proof -
  note defs = demo_fi_def demo_fd_def demo_ft_def demo_fs_def demo_u_def demo_lg_def demo_b_def lgstate.defs bstate.defs ustate.defs fsstate.defs ftstate.defs
  have q: "quiet 1 demo_fi" by (simp add: defs quiet_def)
  have "\<forall>b < NBUF. bdev (bufs demo_fi b) = 0 \<and> brefcnt (bufs demo_fi b) = 0" by (simp add: defs)
  then obtain s where s: "binit demo_fi = Done () s" "bio 1 {} s" "holds s = {}" "\<forall>n. cur s n = trunc (disk demo_fi n)" "beyond s = beyond demo_fi"
    using binit_spec [OF q] by blast
  have l: "the_log s = the_log demo_lg" using beyond_log(1) [OF s(5)] by (simp add: defs)
  have m: "ftable s = ftable demo_fi" "itable s = itable demo_fi" using beyond_files [OF s(5)] by blast+
  have p: "at_rest (procs s p) = at_rest (procs demo_fi p)" for p using s(5) by (simp add: beyond_def fun_eq_iff)
  have "ofile (procs s p) = ofile (procs demo_fi p)" "trapframe (procs s p) = trapframe (procs demo_fi p)" for p
    using arg_cong [OF p, of ofile] arg_cong [OF p, of trapframe] by (simp_all add: at_rest_def)
  moreover have "mem s = mem demo_fi" using s(5) by (simp add: beyond_def)
  ultimately have fd: "refs_ok s" "arg_file 1 s = Some 0" by (intro demo_fd_ok; simp add: m(1) demo_fi_def)+
  have "rd 4 (\<lambda>_. 0) 0 = 0" by (simp add: rd_def)
  moreover have "disk demo_fi 2 = (\<lambda>_. 0)" by (simp add: defs)
  ultimately have "hd_n (cur s 2) = 0" using s(4) by (simp add: hd_n_def rd_trunc s32_def)
  then have "log_ready 1 2 s" using s(2,3) l demo_lg_simps(2-6) by (simp add: log_ready_def log_inv_def Let_def)
  then show ?thesis using s(1) bioD(1) [OF s(2)] fd m by blast
qed

theorem descriptors_counted_witness:
  "(\<exists>t. sys_dup demo_fd = Done 1 t \<and> ofile (procs t 1) 1 = Some 0) \<and> (\<exists>t. sys_close demo_fd = Done 0 t \<and> refs_ok t \<and> \<not> writeopen (pipes t 7)) \<and>
   (\<exists>s t. binit demo_fi = Done () s \<and> sys_close s = Done 0 t \<and> refs_ok t \<and> iref (itable t 0) = 1)"
proof -
  have q: "quiet 1 demo_fd" by (simp add: demo_fd_def demo_ft_def demo_fs_def demo_u_def demo_lg_def demo_b_def quiet_def
      lgstate.defs bstate.defs ustate.defs fsstate.defs ftstate.defs)
  have t: "ftable demo_fd 0 = \<lparr>ftype = FD_PIPE, fref = 1, readable = False, writable = True, fpipe = 7, fip = 0, foff = 0, fmajor = 0\<rparr>"
    "readopen (pipes demo_fd 7)" "ofile (procs demo_fd 1) = (\<lambda>k. if k = 0 then Some 0 else None)" by (simp_all add: demo_fd_def)
  have d: "refs_ok demo_fd" "arg_file 1 demo_fd = Some 0" by (rule demo_fd_ok; simp)+
  note r = descriptors_counted [OF q _ d(1), THEN conjunct2, THEN conjunct2]
  have "\<exists>t. sys_dup demo_fd = Done (of_nat 1) t \<and> refs_ok t \<and> quiet 1 t \<and> ofile (procs t 1) = (ofile (procs demo_fd 1))(1 := Some 0)"
    by (rule r [THEN conjunct1, THEN spec [of _ 0], THEN spec [of _ 1], THEN mp]) (simp_all add: d(2) [unfolded One_nat_def] t(3) [unfolded One_nat_def])
  then have "\<exists>t. sys_dup demo_fd = Done 1 t \<and> ofile (procs t 1) 1 = Some 0" by auto
  moreover have "\<exists>t. sys_close demo_fd = Done 0 t \<and> quiet 1 t \<and> end_closed 1 (writable (ftable demo_fd 0)) (fpipe (ftable demo_fd 0)) t"
    by (rule r [THEN conjunct2, THEN conjunct2, THEN conjunct2, THEN conjunct1, THEN spec [of _ 0], THEN mp]) (simp_all add: d(2) [unfolded One_nat_def] t(1,2))
  then have "\<exists>t. sys_close demo_fd = Done 0 t \<and> \<not> writeopen (pipes t 7)" by (auto simp: t end_closed_def)
  moreover have "refs_ok t" if "sys_close demo_fd = Done 0 t" for t
    using r [THEN conjunct2, THEN conjunct1, rule_format, of 0 0 t] d(2) that by simp
  moreover obtain s where s: "binit demo_fi = Done () s" "quiet 1 s" "refs_ok s" "arg_file 1 s = Some 0" "log_ready 1 2 s"
    "ftable s = ftable demo_fi" "itable s = itable demo_fi" using demo_fi_boot by blast
  note c = descriptors_counted [OF s(2) _ s(3), THEN conjunct2, THEN conjunct2, THEN conjunct2]
  have x: "ftype (ftable s 0) = FD_INODE" "fref (ftable s 0) = 1" "fip (ftable s 0) = 0" "iref (itable s 0) = 2"
    by (simp_all add: s(6,7) demo_fi_def demo_fd_def)
  have "\<exists>t. sys_close s = Done 0 t \<and> quiet 1 t \<and> iref (itable t (fip (ftable s 0))) = iref (itable s (fip (ftable s 0))) - 1"
    by (rule c [THEN conjunct2, THEN conjunct2, THEN conjunct2, THEN spec [of _ 0], THEN spec [of _ 2], THEN mp])
      (use s(4,5) x in \<open>simp_all add: stays_used_def\<close>)
  moreover have "refs_ok t" if "sys_close s = Done 0 t" for t
    using c [THEN conjunct1, rule_format, of 0 0 t] s(4) that by simp
  ultimately show ?thesis using s(1) x(3,4) by fastforce
qed

end
