(* ===== verification/Sched_Spec.thy ===== *)
theory Sched_Spec
  imports Trap
begin

text \<open>
  Progress of the scheduler of \<^verbatim>\<open>kernel/proc.c\<close>: the loop over the process table is round-robin, so a process that stays
  runnable is chosen after a bounded number of turns. What a process does between the switch to it and
  its switch back, and what interrupts and other harts do meanwhile, is a parameter.
\<close>

text \<open>The state of the hart when process \<open>q\<close> has switched to the scheduler.\<close>

definition handed_back :: "nat \<Rightarrow> 'x pkstate_scheme \<Rightarrow> bool" where
  "handed_back q s = (q < NPROC \<and> mach_ok (mach s) \<and> lk_held (Lk_proc q) (mach s) \<and> intr_disabled (mach s) \<and>
     noff (this_cpu (mach s)) = 1 \<and> table_free (Some q) (mach s))"

text \<open>The state of the hart when the scheduler has chosen process \<open>q\<close>: the same, and the hart runs \<open>q\<close>.\<close>

definition switched_to :: "nat \<Rightarrow> 'x pkstate_scheme \<Rightarrow> bool" where
  "switched_to q s = (handed_back q s \<and> cpu_proc (this_cpu (mach s)) = Some q \<and> pstate (procs s q) = RUNNING)"

lemma scheduler_back_frees:
  assumes "handed_back q s"
  shows "\<exists>m. scheduler_back q s = Done () (s\<lparr>mach := m\<rparr>) \<and> mach_ok m \<and> table_free None m \<and> noff (this_cpu m) = 0"
proof -
  let ?m = "rel (Lk_proc q) ((mach s)\<lparr>cpus := (cpus (mach s))(hart (mach s) := (this_cpu (mach s))\<lparr>cpu_proc := None\<rparr>)\<rparr>)"
  have "scheduler_back q s = Done () (s\<lparr>mach := ?m\<rparr>)" using assms by (intro scheduler_back_exec) (simp_all add: handed_back_def)
  moreover have "mach_ok ?m" "table_free None ?m" "noff (this_cpu ?m) = 0"
    using assms by (auto simp: handed_back_def rel_def mach_ok_def table_free_def lk_free_def lk_held_def)
  ultimately show ?thesis by blast
qed

lemma scheduler_scan_none:
  assumes "mach_ok (mach s)" "table_free None (mach s)" "\<And>r. from \<le> r \<Longrightarrow> r < NPROC \<Longrightarrow> pstate (procs s r) \<noteq> RUNNABLE"
  shows "\<exists>m. scheduler_scan from s = Done None (s\<lparr>mach := m\<rparr>) \<and> mach_ok m \<and> table_free None m \<and> noff (this_cpu m) = noff (this_cpu (mach s))"
proof -
  have "scheduler_scan from s = Done None (if [from..<NPROC] = [] then s else s\<lparr>mach := settle (mach s)\<rparr>)"
    unfolding scheduler_scan_def
    by (rule scan_miss) (use assms in \<open>auto simp: exec_simps lock_simps table_free_def\<close>)
  then show ?thesis
    using assms(1,2) by (cases "[from..<NPROC] = []") (auto simp: lock_simps table_free_def intro: exI [of _ "mach s"] exI [of _ "settle (mach s)"])
qed

lemma scheduler_scan_some:
  assumes m: "mach_ok (mach s)" "table_free None (mach s)" "noff (this_cpu (mach s)) = 0"
    and q: "from \<le> q" "q < NPROC" "pstate (procs s q) = RUNNABLE" "\<And>r. from \<le> r \<Longrightarrow> r < q \<Longrightarrow> pstate (procs s r) \<noteq> RUNNABLE"
  shows "\<exists>t. scheduler_scan from s = Done (Some q) t \<and> switched_to q t \<and> procs t = (procs s)(q := (procs s q)\<lparr>pstate := RUNNING\<rparr>)"
proof -
  let ?m = "acq (Lk_proc q) (mach s)"
  let ?t = "s\<lparr>mach := ?m\<lparr>cpus := (cpus ?m)(hart (mach s) := (this_cpu ?m)\<lparr>cpu_proc := Some q\<rparr>)\<rparr>,
    procs := (procs s)(q := (procs s q)\<lparr>pstate := RUNNING\<rparr>)\<rparr>"
  have "[from..<NPROC] = [from..<q] @ q # [Suc q..<NPROC]"
    using q(1,2) upt_add_eq_append [of "from" q "NPROC - q"] by (simp add: upt_conv_Cons)
  moreover have "scan ([from..<q] @ q # [Suc q..<NPROC]) (\<lambda>p.
       seq (acquire (Lk_proc p)) (
       bind (get_proc p) (\<lambda>q.
       if pstate q = RUNNABLE then
         seq (set_proc p (\<lambda>q. q\<lparr>pstate := RUNNING\<rparr>)) (
         seq (set_mycpu (\<lambda>c. c\<lparr>cpu_proc := Some p\<rparr>))
             (ret (Some p)))
       else seq (release (Lk_proc p)) (ret None)))) s = Done (Some q) ?t"
    by (rule scan_hit [where t = "s\<lparr>mach := settle (mach s)\<rparr>"])
      (use m q in \<open>auto simp: exec_simps lock_simps table_free_def set_mycpu_def\<close>)
  ultimately have "scheduler_scan from s = Done (Some q) ?t" unfolding scheduler_scan_def by (simp only:)
  moreover have "switched_to q ?t"
    using m q(2) by (auto simp: switched_to_def handed_back_def acq_def mach_ok_def lk_held_def lk_free_def intr_disabled_def table_free_def)
  ultimately show ?thesis by fastforce
qed

text \<open>The first runnable process at or after a slot.\<close>

lemma scheduler_pass_some:
  assumes m: "mach_ok (mach s)" "table_free None (mach s)" "noff (this_cpu (mach s)) = 0"
    and p: "from \<le> p" "p < NPROC" "pstate (procs s p) = RUNNABLE"
  shows "\<exists>q t. scheduler_pass from k s = Swtch t \<and> switched_to q t \<and> from \<le> q \<and> q \<le> p \<and>
    procs t = (procs s)(q := (procs s q)\<lparr>pstate := RUNNING\<rparr>)"
proof -
  let ?P = "\<lambda>r. from \<le> r \<and> pstate (procs s r) = RUNNABLE"
  define q where "q = (LEAST r. ?P r)"
  have q: "from \<le> q" "pstate (procs s q) = RUNNABLE" "q \<le> p" using LeastI [of ?P p] Least_le [of ?P p] p by (auto simp: q_def)
  have "pstate (procs s r) \<noteq> RUNNABLE" if "from \<le> r" "r < q" for r using not_less_Least [of r ?P] that by (auto simp: q_def)
  from scheduler_scan_some [OF m q(1) _ q(2) this] q(3) p(2) obtain t where
    "scheduler_scan from s = Done (Some q) t" "switched_to q t" "procs t = (procs s)(q := (procs s q)\<lparr>pstate := RUNNING\<rparr>)" by auto
  then show ?thesis using q by (intro exI [of _ q] exI [of _ t]) (simp add: scheduler_pass_def bind_Done)
qed

text \<open>How many slots the scheduler still passes, cyclically, from slot \<open>q\<close> to slot \<open>p\<close>.\<close>

definition slots_to :: "nat \<Rightarrow> nat \<Rightarrow> nat" where
  "slots_to p q = (if q < p then p - q else NPROC - q + p)"

lemma scheduler_resume_picks:
  fixes s :: "'x pkstate_scheme"
  assumes b: "handed_back q s" and p: "p < NPROC" "pstate (procs s p) = RUNNABLE"
  shows "\<exists>r t. scheduler_resume q s = Swtch t \<and> switched_to r t \<and> (r = p \<or> slots_to p r < slots_to p q) \<and>
    procs t = (procs s)(r := (procs s r)\<lparr>pstate := RUNNING\<rparr>)"
proof -
  obtain m where m: "scheduler_back q s = Done () (s\<lparr>mach := m\<rparr>)" "mach_ok m" "table_free None m" "noff (this_cpu m) = 0"
    using scheduler_back_frees [OF b] by blast
  have q: "q < NPROC" using b by (simp add: handed_back_def)
  let ?s = "s\<lparr>mach := m\<rparr>" and ?k = "seq intr_on (scheduler_pass 0 scheduler_wait) :: ('x pkstate_scheme, unit) thread"
  have res: "scheduler_resume q s = scheduler_pass (Suc q) ?k ?s" using m(1) by (simp add: scheduler_resume_def seq_exec)
  show ?thesis
  proof (cases "\<exists>r. Suc q \<le> r \<and> r < NPROC \<and> pstate (procs s r) = RUNNABLE")
    case True
    have "\<exists>r0. Suc q \<le> r0 \<and> r0 < NPROC \<and> pstate (procs s r0) = RUNNABLE \<and> (q < p \<longrightarrow> r0 \<le> p)"
      by (cases "q < p") (use True p in \<open>auto intro: exI [of _ p]\<close>)
    then obtain r0 where r0: "Suc q \<le> r0" "r0 < NPROC" "pstate (procs ?s r0) = RUNNABLE" and le: "q < p \<longrightarrow> r0 \<le> p" by auto
    obtain r t where
      t: "scheduler_pass (Suc q) ?k ?s = Swtch t" "switched_to r t" "Suc q \<le> r" "r \<le> r0" "procs t = (procs s)(r := (procs s r)\<lparr>pstate := RUNNING\<rparr>)"
      using scheduler_pass_some [of ?s "Suc q" r0 ?k] m(2-4) r0 by auto
    then have "r = p \<or> slots_to p r < slots_to p q" using le r0(2) q by (auto simp: slots_to_def)
    then show ?thesis using res t by auto
  next
    case False
    then have "p \<le> q" using p by (auto simp: not_le [symmetric] Suc_le_eq)
    obtain m' where m': "scheduler_scan (Suc q) ?s = Done None (?s\<lparr>mach := m'\<rparr>)" "mach_ok m'" "table_free None m'" "noff (this_cpu m') = 0"
      using scheduler_scan_none [of ?s "Suc q"] m(2-4) False by auto
    let ?u = "s\<lparr>mach := m'\<lparr>cpus := (cpus m')(hart m' := (this_cpu m')\<lparr>sie := True\<rparr>)\<rparr>\<rparr>"
    have "scheduler_pass (Suc q) ?k ?s = scheduler_pass 0 scheduler_wait ?u"
      using m'(1) by (simp add: scheduler_pass_def bind_Done seq_exec intr_on_def set_mycpu_def exec_simps)
    moreover have u: "mach_ok (mach ?u)" "table_free None (mach ?u)" "noff (this_cpu (mach ?u)) = 0"
      using m'(2-4) by (auto simp: mach_ok_def table_free_def lk_free_def)
    ultimately obtain r t where "scheduler_resume q s = Swtch t" "switched_to r t" "r \<le> p" "procs t = (procs s)(r := (procs s r)\<lparr>pstate := RUNNING\<rparr>)"
      using scheduler_pass_some [OF u le0 p(1), of scheduler_wait] p(2) res by auto
    moreover from this have "r = p \<or> slots_to p r < slots_to p q" using \<open>p \<le> q\<close> q by (auto simp: slots_to_def)
    ultimately show ?thesis by blast
  qed
qed

text \<open>
  Turns of the scheduler: it chooses a process, and \<open>env\<close> is all that happens until that process has switched
  back. \<open>None\<close> is that the scheduler does not choose a process.
\<close>

definition turn :: "('x pkstate_scheme \<Rightarrow> 'x pkstate_scheme) \<Rightarrow> nat \<times> 'x pkstate_scheme \<Rightarrow> (nat \<times> 'x pkstate_scheme) option" where
  "turn env qs = (case scheduler_resume (fst qs) (snd qs) of
     Swtch t \<Rightarrow> map_option (\<lambda>r. (r, env t)) (cpu_proc (this_cpu (mach t)))
   | _ \<Rightarrow> None)"

primrec turns :: "('x pkstate_scheme \<Rightarrow> 'x pkstate_scheme) \<Rightarrow> nat \<Rightarrow> nat \<times> 'x pkstate_scheme \<Rightarrow> (nat \<times> 'x pkstate_scheme) option" where
  "turns env 0 qs = Some qs"
| "turns env (Suc k) qs = Option.bind (turn env qs) (turns env k)"

lemma turns_reach:
  fixes s :: "'x pkstate_scheme"
  assumes env: "\<And>r t. switched_to r t \<Longrightarrow> handed_back r (env t)"
    and stays: "\<And>r t. switched_to r t \<Longrightarrow> r \<noteq> p \<Longrightarrow> pstate (procs t p) = RUNNABLE \<Longrightarrow> pstate (procs (env t) p) = RUNNABLE"
    and p: "p < NPROC" and start: "handed_back q s" "pstate (procs s p) = RUNNABLE"
  shows "\<exists>k t. 0 < k \<and> k \<le> slots_to p q \<and> turns env k (q, s) = Some (p, t)"
  using start
proof (induction "slots_to p q" arbitrary: q s rule: less_induct)
  case less
  have pos: "0 < slots_to p q" using less.prems(1) by (auto simp: slots_to_def handed_back_def)
  obtain r t where t: "scheduler_resume q s = Swtch t" "switched_to r t" "r = p \<or> slots_to p r < slots_to p q"
      "procs t = (procs s)(r := (procs s r)\<lparr>pstate := RUNNING\<rparr>)"
    using scheduler_resume_picks [OF less.prems(1) p less.prems(2)] by blast
  have turn: "turn env (q, s) = Some (r, env t)" using t(1,2) by (simp add: turn_def switched_to_def)
  show ?case
  proof (cases "r = p")
    case True
    then show ?thesis using turn pos by (intro exI [of _ 1] exI [of _ "env t"]) simp
  next
    case False
    have "handed_back r (env t)" using env [OF t(2)] .
    moreover have "pstate (procs (env t) p) = RUNNABLE" using stays [OF t(2) False] t(4) less.prems(2) False by simp
    ultimately obtain k u where "0 < k" "k \<le> slots_to p r" "turns env k (r, env t) = Some (p, u)"
      using less.hyps t(3) False by blast
    then show ?thesis using turn t(3) False by (intro exI [of _ "Suc k"] exI [of _ u]) simp
  qed
qed

text \<open>
  C11. The scheduler starves no process: from the moment a process has switched back, a process that stays runnable until it is
  chosen is chosen after at most \<^verbatim>\<open>NPROC\<close> turns, whatever the processes chosen before it do, as long as each switches back holding only
  its own lock. No turn panics, waits or finds nothing to run.
\<close>

theorem scheduler_progress:
  fixes s :: "'x pkstate_scheme"
  assumes "\<And>r t. switched_to r t \<Longrightarrow> handed_back r (env t)"
    and "\<And>r t. switched_to r t \<Longrightarrow> r \<noteq> p \<Longrightarrow> pstate (procs t p) = RUNNABLE \<Longrightarrow> pstate (procs (env t) p) = RUNNABLE"
    and p: "p < NPROC" and start: "handed_back q s" "pstate (procs s p) = RUNNABLE"
  shows "\<exists>k \<le> NPROC. \<exists>t. 0 < k \<and> turns env k (q, s) = Some (p, t)"
proof -
  have "slots_to p q \<le> NPROC" using p by (auto simp: slots_to_def)
  moreover have "\<exists>k t. 0 < k \<and> k \<le> slots_to p q \<and> turns env k (q, s) = Some (p, t)"
    by (rule turns_reach, erule assms(1), erule (2) assms(2), rule p, rule start(1), rule start(2))
  then obtain k t where "0 < k" "k \<le> slots_to p q" "turns env k (q, s) = Some (p, t)" by blast
  ultimately show ?thesis by (intro exI [of _ k] conjI exI [of _ t]) auto
qed

text \<open>Processes 1 and 3 take turns; each yields as soon as it is chosen.\<close>

theorem scheduler_progress_witness:
  "\<exists>k \<le> NPROC. \<exists>t. 0 < k \<and> turns (\<lambda>t. t\<lparr>procs := \<lambda>r. if pstate (procs t r) = RUNNING then (procs t r)\<lparr>pstate := RUNNABLE\<rparr> else procs t r\<rparr>) k
     (1, (demo_pk (acq (Lk_proc 1) idle_machine))\<lparr>procs := (demo_procs)(3 := (demo_procs 3)\<lparr>pstate := RUNNABLE\<rparr>)\<rparr>) = Some (3, t)"
proof (rule scheduler_progress)
  fix r :: nat and t :: pkstate
  let ?e = "t\<lparr>procs := \<lambda>r. if pstate (procs t r) = RUNNING then (procs t r)\<lparr>pstate := RUNNABLE\<rparr> else procs t r\<rparr>"
  assume "switched_to r t"
  then show "handed_back r ?e" by (simp add: switched_to_def handed_back_def)
  show "pstate (procs ?e 3) = RUNNABLE" if "pstate (procs t 3) = RUNNABLE" using that by simp
next
  show "handed_back 1 ((demo_pk (acq (Lk_proc 1) idle_machine))\<lparr>procs := (demo_procs)(3 := (demo_procs 3)\<lparr>pstate := RUNNABLE\<rparr>)\<rparr>)"
    by (simp add: handed_back_def demo_pk_def idle_machine_def acq_def mach_ok_def lk_held_def lk_free_def intr_disabled_def table_free_def)
qed simp_all

end
