(* ===== verification/Trap_Spec.thy ===== *)
theory Trap_Spec
  imports Trap Virtio_Spec
begin

unbundle bit_operations_syntax

text \<open>
  What the return to user space of \<^verbatim>\<open>kernel/trap.c\<close> guarantees, and the treatment of system calls by number.
\<close>

lemma tf_exec [exec_simps]:
  "set_tf p field v s = Done () (s\<lparr>mem := store64 (trapframe (procs s p) + field) v (mem s)\<rparr>)"
  "get_tf p field s = Done (load64 (mem s) (trapframe (procs s p) + field)) s"
  by (simp_all add: set_tf_def get_tf_def exec_simps)

lemma sstatus_exec [exec_simps]:
  "r_sstatus s = Done (if sie (this_cpu (mach s)) then csrs s (hart (mach s)) Sstatus OR SSTATUS_SIE
     else csrs s (hart (mach s)) Sstatus AND NOT SSTATUS_SIE) s"
  "w_sstatus v s = Done () (s\<lparr>csrs := (csrs s)(hart (mach s) := (csrs s (hart (mach s)))(Sstatus := v)),
     mach := (mach s)\<lparr>cpus := (cpus (mach s))(hart (mach s) := (this_cpu (mach s))\<lparr>sie := bit v 1\<rparr>)\<rparr>\<rparr>)"
  by (simp_all add: r_sstatus_def w_sstatus_def intr_get_def mycpu_def set_mycpu_def exec_simps)

lemma intr_exec:
  "intr_on s = Done () (s\<lparr>mach := (mach s)\<lparr>cpus := (cpus (mach s))(hart (mach s) := (this_cpu (mach s))\<lparr>sie := True\<rparr>)\<rparr>\<rparr>)"
  "intr_off s = Done () (s\<lparr>mach := (mach s)\<lparr>cpus := (cpus (mach s))(hart (mach s) := (this_cpu (mach s))\<lparr>sie := False\<rparr>)\<rparr>\<rparr>)"
  by (simp_all add: intr_on_def intr_off_def set_mycpu_def exec_simps)

lemma sstatus_bits:
  fixes x :: u64
  shows "bit ((x AND NOT SSTATUS_SPP) OR SSTATUS_SPIE) n \<longleftrightarrow> n = 5 \<or> n \<noteq> 8 \<and> bit x n"
proof -
  have "bit (0x100 :: u64) n \<longleftrightarrow> n = 8" "bit (0x20 :: u64) n \<longleftrightarrow> n = 5"
    using bit_push_bit_iff [of 8 "1 :: u64" n] bit_push_bit_iff [of 5 "1 :: u64" n] by (auto simp: bit_1_iff push_bit_eq_mult)
  then show ?thesis using bit_imp_le_length [of x n] by (auto simp: bit_simps)
qed

text \<open>The fields of a trap frame that does not wrap around the end of memory.\<close>

definition tf_fits :: "u64 \<Rightarrow> bool" where
  "tf_fits tf = (unat tf + 4096 < 2 ^ 64)"

lemma unat_tf: "tf_fits tf \<Longrightarrow> unat k < 4096 \<Longrightarrow> unat (tf + k) = unat tf + unat k"
  by (rule unat_plus_simple [THEN iffD1]) (simp add: tf_fits_def word_le_nat_alt unat_word_ariths)

lemma load64_field:
  "tf_fits tf \<Longrightarrow> unat j < 4096 \<Longrightarrow> unat k < 4096 \<Longrightarrow> unat j + 8 \<le> unat k \<or> unat k + 8 \<le> unat j \<Longrightarrow>
   load64 (store64 (tf + k) v m) (tf + j) = load64 m (tf + j)"
  by (rule load64_store64_other) (auto simp: unat_tf)

text \<open>
  The registers and the trap frame with which process \<open>p\<close> may run in user mode after the state \<open>s\<close>: traps go to the trampoline, the
  return instruction goes to user mode with interrupts on, at the program counter of the trap frame, and
  the trap frame says how to enter the kernel again.
\<close>

definition user_ready :: "nat \<Rightarrow> 'x trstate_scheme \<Rightarrow> 'x trstate_scheme \<Rightarrow> bool" where
  "user_ready p s t = (let h = hart (mach s); q = procs s p; c = csrs t h in
     \<not> sie (this_cpu (mach t)) \<and>
     c Stvec = TRAMPOLINE + (link_uservec s - link_trampoline s) \<and>
     c Sepc = load64 (mem s) (trapframe q + tf_epc) \<and> \<not> bit (c Sstatus) 8 \<and> bit (c Sstatus) 5 \<and>
     load64 (mem t) (trapframe q + 0) = satp s h \<and> load64 (mem t) (trapframe q + 8) = kstack q + PGSIZE \<and>
     load64 (mem t) (trapframe q + 16) = link_usertrap s \<and> load64 (mem t) (trapframe q + 32) = of_nat h \<and>
     (\<forall>i. i < unat (trapframe q) \<or> unat (trapframe q) + 40 \<le> i \<or> unat (trapframe q) + 24 \<le> i \<and> i < unat (trapframe q) + 32 \<longrightarrow> mem t i = mem s i))"

lemma usertrapret_exec:
  assumes "mach_ok (mach s)" "cpu_proc (this_cpu (mach s)) = Some p" "tf_fits (trapframe (procs s p))"
  shows "\<exists>t. usertrapret s = Done (TRAMPOLINE + (link_userret s - link_trampoline s), MAKE_SATP (pagetable (procs s p))) t \<and>
    user_ready p s t \<and> procs t = procs s"
proof -
  let ?q = "procs s p" and ?h = "hart (mach s)" and ?c = "csrs s (hart (mach s))"
  let ?m = "(settle (mach s))\<lparr>cpus := (cpus (settle (mach s)))(?h := (cpus (settle (mach s)) ?h)\<lparr>sie := False\<rparr>)\<rparr>"
  let ?x = "((?c Sstatus AND NOT SSTATUS_SIE) AND NOT SSTATUS_SPP) OR SSTATUS_SPIE"
  let ?mem = "store64 (trapframe ?q + 32) (of_nat ?h) (store64 (trapframe ?q + 16) (link_usertrap s)
    (store64 (trapframe ?q + 8) (kstack ?q + PGSIZE) (store64 (trapframe ?q + 0) (satp s ?h) (mem s))))"
  have nb: "\<not> bit ?x 1" using sstatus_bits [of "?c Sstatus AND NOT SSTATUS_SIE" 1] by (simp add: bit_simps)
  define t where "t = s\<lparr>mach := ?m, mem := ?mem, csrs := (csrs s)(?h := ?c(Stvec := TRAMPOLINE + (link_uservec s - link_trampoline s),
    Sstatus := ?x, Sepc := load64 ?mem (trapframe ?q + tf_epc)))\<rparr>"
  have "usertrapret s = Done (TRAMPOLINE + (link_userret s - link_trampoline s), MAKE_SATP (pagetable ?q)) t"
    using assms(1,2) nb by (simp add: usertrapret_def exec_simps lock_simps intr_exec cpuid_def t_def)
  moreover have "user_ready p s t"
  proof -
    note f = load64_field [OF assms(3)] and u = unat_tf [OF assms(3)]
    have "load64 ?mem (trapframe ?q + tf_epc) = load64 (mem s) (trapframe ?q + tf_epc)" by (simp add: f tf_epc_def del: add_0_right)
    moreover have "load64 ?mem (trapframe ?q + 0) = satp s ?h" "load64 ?mem (trapframe ?q + 8) = kstack ?q + PGSIZE"
      "load64 ?mem (trapframe ?q + 16) = link_usertrap s" by (simp_all add: f del: add_0_right)
    moreover have "?mem i = mem s i" if "i < unat (trapframe ?q) \<or> unat (trapframe ?q) + 40 \<le> i \<or>
        unat (trapframe ?q) + 24 \<le> i \<and> i < unat (trapframe ?q) + 32" for i
      using that by (auto simp: store64_def wr_def u)
    ultimately show ?thesis using sstatus_bits by (simp add: user_ready_def t_def lock_simps)
  qed
  moreover have "procs t = procs s" by (simp add: t_def)
  ultimately show ?thesis by blast
qed

lemma spp_iff: "(x :: u64) AND SSTATUS_SPP = 0 \<longleftrightarrow> \<not> bit x 8"
proof -
  have b: "bit (0x100 :: u64) n \<longleftrightarrow> n = 8" for n
    using bit_push_bit_iff [of 8 "1 :: u64" n] by (auto simp: bit_1_iff push_bit_eq_mult)
  have "x AND SSTATUS_SPP = 0 \<longleftrightarrow> (\<forall>n. \<not> bit (x AND SSTATUS_SPP) n)" by (auto intro: bit_word_eqI)
  also have "\<dots> \<longleftrightarrow> \<not> bit x 8" unfolding bit_and_iff b by blast
  finally show ?thesis .
qed

lemma spp_sie:
  "\<not> bit (x :: u64) 8 \<Longrightarrow> (x OR SSTATUS_SIE) AND SSTATUS_SPP = 0" "\<not> bit (x :: u64) 8 \<Longrightarrow> (x AND NOT SSTATUS_SIE) AND SSTATUS_SPP = 0"
  unfolding spp_iff by (simp_all add: bit_simps)

subsection \<open>A system call from trap to return\<close>

text \<open>The state in which the handler of a system call of process \<open>p\<close> runs, when the trap was taken in state \<open>s\<close>.\<close>

definition entered :: "nat \<Rightarrow> 'x trstate_scheme \<Rightarrow> 'x trstate_scheme" where
  "entered p s = (let h = hart (mach s); tf = trapframe (procs s p) in
     s\<lparr>csrs := (csrs s)(h := (csrs s h)(Stvec := link_kernelvec s)),
       mem := store64 (tf + tf_epc) (csrs s h Sepc + 4) (store64 (tf + tf_epc) (csrs s h Sepc) (mem s)),
       mach := settle ((settle (mach s))\<lparr>cpus := (cpus (settle (mach s)))(h := (cpus (settle (mach s)) h)\<lparr>sie := True\<rparr>)\<rparr>)\<rparr>)"

text \<open>An exception of user code: a system call of a process that was not killed.\<close>

definition ecall :: "nat \<Rightarrow> 'x trstate_scheme \<Rightarrow> bool" where
  "ecall p s = (quiet p s \<and> noff (this_cpu (mach s)) = 0 \<and> \<not> bit (csrs s (hart (mach s)) Sstatus) 8 \<and>
     csrs s (hart (mach s)) Scause = 8 \<and> pkilled (procs s p) = 0 \<and> tf_fits (trapframe (procs s p)))"

lemma usertrap_enters:
  fixes s :: "'x trstate_scheme"
  assumes e: "ecall p s" and n: "0 < n" "n < 22" "unat (load64 (mem s) (trapframe (procs s p) + tf_a7)) mod 2 ^ 32 = n"
  shows "usertrap s = seq (bind (syscalls n) (\<lambda>v. set_tf p tf_a0 v)) (usertrap_finish p 0) (entered p s)"
proof -
  have q: "mach_ok (mach s)" "\<And>l. lk_free l (mach s)" "cpu_proc (this_cpu (mach s)) = Some p" using e by (simp_all add: ecall_def quiet_def)
  let ?m = "(settle (mach s))\<lparr>cpus := (cpus (settle (mach s)))(hart (mach s) := (cpus (settle (mach s)) (hart (mach s)))\<lparr>sie := True\<rparr>)\<rparr>"
  have m: "mach_ok ?m" "cpu_proc (cpus ?m (hart ?m)) = Some p"
    using q e by (simp_all add: mach_ok_def settle_def ecall_def)
  have a7: "load64 (mem (entered p s)) (trapframe (procs s p) + tf_a7) = load64 (mem s) (trapframe (procs s p) + tf_a7)"
    using e by (simp add: entered_def Let_def load64_field tf_epc_def tf_a7_def ecall_def)
  have "s32 (unat (load64 (mem s) (trapframe (procs s p) + tf_a7)) mod 2 ^ 32) = int n" using n(2) by (simp only: n(3)) (simp add: s32_def)
  then show ?thesis
    using q e n m a7 spp_sie [of "csrs s (hart (mach s)) Sstatus"]
    by (simp add: usertrap_def syscall_def exec_simps lock_simps intr_exec ecall_def entered_def Let_def)
qed

text \<open>
  C10. A system call from the trap to the return. A process in user mode that executes \<^verbatim>\<open>ecall\<close> with the number of a
  system call in the low half of register \<^verbatim>\<open>a7\<close>, which is all that \<^verbatim>\<open>syscall\<close> reads, reaches exactly the handler of that number, with interrupts on
  and the address of the instruction after the call saved in the trap frame. When the handler is done and has left the process alive, with its trap
  frame in place and no lock held, \<^verbatim>\<open>usertrap\<close> returns to user space with the result in
  register \<^verbatim>\<open>a0\<close> of the trap frame, at the program counter that the handler left there: the instruction after the call, unless the handler
  stored another, as \<^verbatim>\<open>exec\<close> does. The registers are safe for user mode: traps go to the trampoline, interrupts are off until
  the return, which goes to user mode and enables them, and the trap frame holds what the next trap needs. The rest of
  the memory is as the handler left it.
\<close>

theorem system_call:
  fixes s :: "'x trstate_scheme"
  assumes e: "ecall p s" and n: "0 < n" "n < 22" "unat (load64 (mem s) (trapframe (procs s p) + tf_a7)) mod 2 ^ 32 = n"
    and h: "syscalls n (entered p s) = Done v u" "quiet p u" "pkilled (procs u p) = 0" "trapframe (procs u p) = trapframe (procs s p)"
  shows "sie (this_cpu (mach (entered p s))) \<and> load64 (mem (entered p s)) (trapframe (procs s p) + tf_epc) = csrs s (hart (mach s)) Sepc + 4 \<and>
    (\<exists>t. usertrap s = Done (TRAMPOLINE + (link_userret u - link_trampoline u), MAKE_SATP (pagetable (procs u p))) t \<and>
      user_ready p (u\<lparr>mem := store64 (trapframe (procs s p) + tf_a0) v (mem u)\<rparr>) t \<and>
      load64 (mem t) (trapframe (procs s p) + tf_a0) = v \<and> csrs t (hart (mach u)) Sepc = load64 (mem u) (trapframe (procs s p) + tf_epc) \<and>
      (load64 (mem u) (trapframe (procs s p) + tf_epc) = load64 (mem (entered p s)) (trapframe (procs s p) + tf_epc) \<longrightarrow>
        csrs t (hart (mach u)) Sepc = csrs s (hart (mach s)) Sepc + 4))"
proof -
  let ?tf = "trapframe (procs s p)"
  let ?u = "u\<lparr>mem := store64 (?tf + tf_a0) v (mem u), mach := settle (mach u)\<rparr>"
  have fits: "tf_fits ?tf" using e by (simp add: ecall_def)
  note f = load64_field [OF fits] and q = quietD [OF h(2)]
  have "usertrap s = usertrapret ?u"
    using usertrap_enters [OF e n] h q by (simp add: seq_exec bind_Done usertrap_finish_def exec_simps)
  moreover obtain t where t: "usertrapret ?u = Done (TRAMPOLINE + (link_userret u - link_trampoline u), MAKE_SATP (pagetable (procs u p))) t"
    "user_ready p ?u t" using usertrapret_exec [of ?u p] q fits h(4) by (auto simp: lock_simps)
  moreover have "user_ready p (u\<lparr>mem := store64 (?tf + tf_a0) v (mem u)\<rparr>) t" using t(2) by (simp add: user_ready_def Let_def lock_simps)
  moreover have "load64 (mem t) (?tf + tf_a0) = load64 (mem ?u) (?tf + tf_a0)"
    using t(2) h(4) unat_tf [OF fits, of tf_a0] by (intro load64_cong) (auto simp: user_ready_def Let_def tf_a0_def)
  moreover have "csrs t (hart (mach u)) Sepc = load64 (mem u) (?tf + tf_epc)"
    using t(2) h(4) by (simp add: user_ready_def Let_def lock_simps f tf_a0_def tf_epc_def)
  moreover have "sie (this_cpu (mach (entered p s)))" "load64 (mem (entered p s)) (?tf + tf_epc) = csrs s (hart (mach s)) Sepc + 4"
    by (simp_all add: entered_def Let_def settle_def)
  ultimately show ?thesis by auto
qed

text \<open>Process 1 asks for its number, with other bits set in the upper half of \<^verbatim>\<open>a7\<close>.\<close>

definition demo_tr :: trstate where
  "demo_tr = vstate.extend (demo_v\<lparr>mem := store64 (0x80001000 + tf_a7) 0x10000000b (\<lambda>_. 0),
       procs := (procs demo_v)(1 := (procs demo_v 1)\<lparr>trapframe := 0x80001000, pid := 5, pkilled := 0\<rparr>)\<rparr>)
     (trstate.fields (\<lambda>_ c. if c = Scause then 8 else if c = Sepc then 0x40 else 0) (\<lambda>_. 0) [] False True 0 0x80000100 0x80000200 0x80000300 0x80000400 0)"

lemma sys_getpid_exec:
  "quiet p s \<Longrightarrow> sys_getpid s = Done (of_int (pid (procs s p))) (s\<lparr>mach := settle (mach s)\<rparr>)"
  by (simp add: sys_getpid_def quiet_def exec_simps)

lemma quiet_entered: "ecall p s \<Longrightarrow> quiet p (entered p s)"
  by (simp add: ecall_def quiet_def entered_def Let_def mach_ok_def settle_def lk_free_def)

theorem system_call_witness:
  "\<exists>a t. unat (load64 (mem demo_tr) (0x80001000 + tf_a7)) = 2 ^ 32 + 11 \<and> usertrap demo_tr = Done a t \<and> load64 (mem t) (0x80001000 + tf_a0) = 5 \<and> csrs t (hart (mach demo_tr)) Sepc = 0x44"
proof -
  note defs = demo_tr_def demo_v_def demo_ft_def demo_fs_def demo_u_def demo_lg_def demo_b_def lgstate.defs bstate.defs ustate.defs
    fsstate.defs ftstate.defs vstate.defs trstate.defs demo_procs_def demo_proc_def
  have d: "trapframe (procs demo_tr 1) = 0x80001000" "pid (procs demo_tr 1) = 5" "pkilled (procs demo_tr 1) = 0"
    "mem demo_tr = store64 (0x80001000 + tf_a7) 0x10000000b (\<lambda>_. 0)" "csrs demo_tr h Scause = 8" "csrs demo_tr h Sepc = 0x40" "csrs demo_tr h Sstatus = 0" for h
    by (simp_all add: defs)
  note d' = d [unfolded One_nat_def]
  have "quiet 1 demo_tr" "noff (this_cpu (mach demo_tr)) = 0" by (simp_all add: defs quiet_def)
  then have e: "ecall 1 demo_tr" by (simp add: ecall_def d' tf_fits_def)
  let ?u = "(entered 1 demo_tr)\<lparr>mach := settle (mach (entered 1 demo_tr))\<rparr>"
  have "syscalls 11 (entered 1 demo_tr) = Done (of_int (pid (procs (entered 1 demo_tr) 1))) ?u"
    using sys_getpid_exec [OF quiet_entered [OF e]] by (simp add: syscalls_def)
  then have run: "syscalls 11 (entered 1 demo_tr) = Done 5 ?u" by (simp add: entered_def Let_def d')
  have "hart (mach ?u) = hart (mach demo_tr)" by (simp add: entered_def Let_def lock_simps settle_def)
  moreover have "quiet 1 ?u" using quiet_entered [OF e] by simp
  moreover have "pkilled (procs ?u 1) = 0" "trapframe (procs ?u 1) = trapframe (procs demo_tr 1)"
    "load64 (mem ?u) (trapframe (procs demo_tr 1) + tf_epc) = load64 (mem (entered 1 demo_tr)) (trapframe (procs demo_tr 1) + tf_epc)"
    by (simp_all add: entered_def Let_def d')
  moreover have a7: "unat (load64 (mem demo_tr) (trapframe (procs demo_tr 1) + tf_a7)) = 2 ^ 32 + 11" unfolding d by simp
  moreover have "unat (load64 (mem demo_tr) (trapframe (procs demo_tr 1) + tf_a7)) mod 2 ^ 32 = 11" unfolding a7 by simp
  ultimately show ?thesis
    using system_call [OF e _ _ _ run] unfolding d by (auto simp: d)
qed

end
