(* ===== verification/Umalloc.thy ===== *)
theory Umalloc
  imports Ulib
begin

text \<open>
  \<^verbatim>\<open>user/umalloc.c\<close>: the memory allocator of user programs. The free blocks form a circular list through the
  headers in front of them, which are stored in the memory of the process; a header is 16 bytes, the pointer at offset 0 and
  the size in headers at offset 8. The static header \<^verbatim>\<open>base\<close> has a fixed address below the heap. The walks
  along the list are partial functions, with value \<open>None\<close> when they do not return. The system call \<^verbatim>\<open>sbrk\<close>
  has as an argument the kernel's decision whether there is memory for the growth. The theorem at the end shows that blocks
  are handed out without overlap, that no byte is lost, and that both operations return.
\<close>

record uheap =
  um :: bytes
  freep :: nat
  base :: nat
  brk :: nat

definition h_ptr :: "bytes \<Rightarrow> nat \<Rightarrow> nat" where
  "h_ptr m p = rd 8 m p"

definition h_size :: "bytes \<Rightarrow> nat \<Rightarrow> nat" where
  "h_size m p = rd 4 m (p + 8)"

definition set_ptr :: "nat \<Rightarrow> nat \<Rightarrow> bytes \<Rightarrow> bytes" where
  "set_ptr v p = wr 8 v p"

definition set_size :: "nat \<Rightarrow> nat \<Rightarrow> bytes \<Rightarrow> bytes" where
  "set_size n p = wr 4 n (p + 8)"

partial_function (option) free_place :: "bytes \<Rightarrow> nat \<Rightarrow> nat \<Rightarrow> nat option" where
  "free_place m bp p =
     (if bp > p \<and> bp < h_ptr m p then Some p
      else if p \<ge> h_ptr m p \<and> (bp > p \<or> bp < h_ptr m p) then Some p
      else free_place m bp (h_ptr m p))"

definition join_upper :: "nat \<Rightarrow> nat \<Rightarrow> bytes \<Rightarrow> bytes" where
  "join_upper p bp m =
     (if bp + 16 * h_size m bp = h_ptr m p then
        let m1 = set_size (h_size m bp + h_size m (h_ptr m p)) bp m
        in set_ptr (h_ptr m1 (h_ptr m1 p)) bp m1
      else set_ptr (h_ptr m p) bp m)"

definition join_lower :: "nat \<Rightarrow> nat \<Rightarrow> bytes \<Rightarrow> bytes" where
  "join_lower p bp m =
     (if p + 16 * h_size m p = bp then
        let m1 = set_size (h_size m p + h_size m bp) p m
        in set_ptr (h_ptr m1 bp) p m1
      else set_ptr bp p m)"

definition u_free :: "nat \<Rightarrow> uheap \<Rightarrow> uheap option" where
  "u_free ap s =
     (let bp = ap - 16 in
      case free_place (um s) bp (freep s) of
        None \<Rightarrow> None
      | Some p \<Rightarrow> Some (s\<lparr>um := join_lower p bp (join_upper p bp (um s)), freep := p\<rparr>))"

definition u_sbrk :: "(nat \<Rightarrow> nat \<Rightarrow> bool) \<Rightarrow> int \<Rightarrow> uheap \<Rightarrow> int \<times> uheap" where
  "u_sbrk grow n s =
     (if 0 < n then
        if grow (brk s) (nat n) then (int (brk s), s\<lparr>brk := brk s + nat n\<rparr>) else (- 1, s)
      else if 0 \<le> int (brk s) + n then (int (brk s), s\<lparr>brk := nat (int (brk s) + n)\<rparr>)
      else (int (brk s), s))"

definition morecore :: "(nat \<Rightarrow> nat \<Rightarrow> bool) \<Rightarrow> nat \<Rightarrow> uheap \<Rightarrow> (nat \<times> uheap) option" where
  "morecore grow nu s =
     (let nu = (if nu < 4096 then 4096 else nu);
          (p, s) = u_sbrk grow (s32 (nu * 16 mod 2 ^ 32)) s
      in if p = - 1 then Some (0, s)
         else
           let hp = nat p; s = s\<lparr>um := set_size nu hp (um s)\<rparr>
           in case u_free (hp + 16) s of None \<Rightarrow> None | Some s \<Rightarrow> Some (freep s, s))"

definition malloc_take :: "nat \<Rightarrow> nat \<Rightarrow> nat \<Rightarrow> uheap \<Rightarrow> nat \<times> uheap" where
  "malloc_take nunits prevp p s =
     (if h_size (um s) p = nunits then (p + 16, s\<lparr>um := set_ptr (h_ptr (um s) p) prevp (um s), freep := prevp\<rparr>)
      else
        let m1 = set_size (h_size (um s) p - nunits) p (um s); p = p + 16 * h_size m1 p
        in (p + 16, s\<lparr>um := set_size nunits p m1, freep := prevp\<rparr>))"

partial_function (option) malloc_loop :: "(nat \<Rightarrow> nat \<Rightarrow> bool) \<Rightarrow> nat \<Rightarrow> nat \<Rightarrow> nat \<Rightarrow> uheap \<Rightarrow> (nat \<times> uheap) option" where
  "malloc_loop grow nunits prevp p s =
     (if h_size (um s) p \<ge> nunits then Some (malloc_take nunits prevp p s)
      else if p = freep s then
        (case morecore grow nunits s of
           None \<Rightarrow> None
         | Some (r, s') \<Rightarrow> if r = 0 then Some (0, s') else malloc_loop grow nunits r (h_ptr (um s') r) s')
      else malloc_loop grow nunits p (h_ptr (um s) p) s)"

definition u_malloc :: "(nat \<Rightarrow> nat \<Rightarrow> bool) \<Rightarrow> nat \<Rightarrow> uheap \<Rightarrow> (nat \<times> uheap) option" where
  "u_malloc grow nbytes s =
     (let nunits = (nbytes + 16 - 1) div 16 + 1;
          s = (if freep s = 0 then s\<lparr>um := set_size 0 (base s) (set_ptr (base s) (base s) (um s)), freep := base s\<rparr> else s)
      in malloc_loop grow nunits (freep s) (h_ptr (um s) (freep s)) s)"

subsection \<open>The free list\<close>

definition nxt :: "nat \<Rightarrow> (nat \<times> nat) list \<Rightarrow> nat" where
  "nxt e xs = (case xs of [] \<Rightarrow> e | x # _ \<Rightarrow> fst x)"

primrec linked :: "bytes \<Rightarrow> nat \<Rightarrow> (nat \<times> nat) list \<Rightarrow> bool" where
  "linked m e [] = True"
| "linked m e (x # xs) = (h_ptr m (fst x) = nxt e xs \<and> h_size m (fst x) = snd x \<and> linked m e xs)"

definition apart :: "nat \<times> nat \<Rightarrow> nat \<times> nat \<Rightarrow> bool" where
  "apart x y \<longleftrightarrow> fst x + 16 * snd x < fst y"

lemma nxt_simps [simp]: "nxt e [] = e" "nxt e (x # xs) = fst x" "nxt e (us @ x # xs) = nxt (fst x) us"
  by (auto simp: nxt_def split: list.splits)

lemma linked_append: "linked m e (xs @ ys) \<longleftrightarrow> linked m (nxt e ys) xs \<and> linked m e ys"
  by (induction xs) (auto simp: nxt_def split: list.splits)

lemma linked_cong:
  "(\<And>x. x \<in> set xs \<Longrightarrow> h_ptr m' (fst x) = h_ptr m (fst x) \<and> h_size m' (fst x) = h_size m (fst x)) \<Longrightarrow>
   linked m' e xs = linked m e xs"
  by (induction xs) auto

lemma head_simps:
  "v < 2 ^ 64 \<Longrightarrow> h_ptr (set_ptr v p m) p = v"
  "n < 2 ^ 32 \<Longrightarrow> h_size (set_size n p m) p = n"
  "h_ptr (set_size n p m) p = h_ptr m p"
  "h_size (set_ptr v p m) p = h_size m p"
  "q + 16 \<le> p \<or> p + 16 \<le> q \<Longrightarrow> h_ptr (set_ptr v p m) q = h_ptr m q"
  "q + 16 \<le> p \<or> p + 16 \<le> q \<Longrightarrow> h_size (set_size n p m) q = h_size m q"
  "q + 16 \<le> p \<or> p + 16 \<le> q \<Longrightarrow> h_ptr (set_size n p m) q = h_ptr m q"
  "q + 16 \<le> p \<or> p + 16 \<le> q \<Longrightarrow> h_size (set_ptr v p m) q = h_size m q"
  by (auto simp: h_ptr_def h_size_def set_ptr_def set_size_def rd_wr_same rd_wr_other)

lemma head_outside:
  "i < p \<or> p + 16 \<le> i \<Longrightarrow> set_ptr v p m i = m i"
  "i < p \<or> p + 16 \<le> i \<Longrightarrow> set_size n p m i = m i"
  by (auto simp: set_ptr_def set_size_def wr_def)

text \<open>The place for a block in the list is found from every node.\<close>

lemma free_place_upto:
  assumes "linked m e (us @ (p, n) # vs)" "sorted_wrt apart (us @ (p, n) # vs)" "p < bp"
    and "\<And>v. v \<in> set vs \<Longrightarrow> bp < fst v" "e \<le> p" "a \<in> fst ` set (us @ [(p, n)])"
  shows "free_place m bp a = Some p"
  using assms
proof (induction us arbitrary: a)
  case Nil
  then show ?case by (subst free_place.simps) (auto simp: nxt_def split: list.splits)
next
  case (Cons u us)
  have IH: "free_place m bp a' = Some p" if "a' \<in> fst ` set (us @ [(p, n)])" for a'
    by (rule Cons.IH) (use Cons.prems that in auto)
  show ?case
  proof (cases "a \<in> fst ` set (us @ [(p, n)])")
    case False
    then have a: "a = fst u" using Cons.prems(6) by auto
    let ?q = "nxt p us"
    have q: "h_ptr m a = ?q" "?q \<in> fst ` set (us @ [(p, n)])" "a < ?q" "?q \<le> p"
      using Cons.prems(1,2) a by (cases us; force simp: apart_def)+
    have "free_place m bp a = free_place m bp ?q"
      using q Cons.prems(3) by (subst free_place.simps) simp
    then show ?thesis using IH [OF q(2)] by simp
  qed (rule IH)
qed

lemma free_place_wrap:
  assumes "linked m e vs" "sorted_wrt apart vs" "\<And>v. v \<in> set vs \<Longrightarrow> bp < fst v" "e < bp" "a \<in> fst ` set vs"
  shows "free_place m bp a = free_place m bp e"
  using assms
proof (induction vs arbitrary: a)
  case (Cons v vs)
  have IH: "free_place m bp a' = free_place m bp e" if "a' \<in> fst ` set vs" for a'
    by (rule Cons.IH) (use Cons.prems that in auto)
  show ?case
  proof (cases "a \<in> fst ` set vs")
    case False
    then have a: "a = fst v" using Cons.prems(5) by auto
    have b: "bp < a" using Cons.prems(3) a by auto
    show ?thesis
    proof (cases vs)
      case Nil
      then have "h_ptr m a = e" using Cons.prems(1) a by simp
      then show ?thesis using b Cons.prems(4) by (subst free_place.simps) auto
    next
      case (Cons w ws)
      then have "h_ptr m a = fst w" "a < fst w" "bp < fst w" "fst w \<in> fst ` set vs"
        using Cons.prems(1,2,3) a by (auto simp: apart_def)
      then show ?thesis using IH [of "fst w"] b by (subst free_place.simps) auto
    qed
  qed (rule IH)
qed simp

lemma free_place_exec:
  assumes "linked m e xs" "sorted_wrt apart xs" "xs = us @ (p, n) # vs" "e = fst (hd xs)" "p < bp"
    and "\<And>v. v \<in> set vs \<Longrightarrow> bp < fst v" "a \<in> fst ` set xs"
  shows "free_place m bp a = Some p"
proof -
  have e: "e \<le> p" using assms(2-4) by (cases us) (auto simp: apart_def)
  have upto: "free_place m bp a' = Some p" if "a' \<in> fst ` set (us @ [(p, n)])" for a'
    by (rule free_place_upto [where us = us and n = n and vs = vs and e = e]) (use assms that e in auto)
  show ?thesis
  proof (cases "a \<in> fst ` set (us @ [(p, n)])")
    case False
    have "free_place m bp a = free_place m bp e"
      by (rule free_place_wrap [where vs = vs]) (use assms False e in \<open>auto simp: linked_append sorted_wrt_append\<close>)
    moreover have "e \<in> fst ` set (us @ [(p, n)])" using assms(3,4) by (cases us) auto
    ultimately show ?thesis using upto by simp
  qed (rule upto)
qed

text \<open>The bytes of a block, and the effect of the two halves of \<^verbatim>\<open>free\<close> on the list.\<close>

definition cells :: "nat \<times> nat \<Rightarrow> nat set" where
  "cells b = {fst b ..< fst b + 16 * snd b}"

definition below :: "nat \<times> nat \<Rightarrow> bool" where
  "below b \<longleftrightarrow> 0 < snd b \<and> fst b + 16 * snd b \<le> 2 ^ 30"

lemma below_bounds: "below b \<Longrightarrow> fst b < 2 ^ 64 \<and> snd b < 2 ^ 32 \<and> 0 < snd b \<and> fst b + 16 \<le> 2 ^ 30"
  by (auto simp: below_def)

lemma cells_join: "fst b + 16 * snd b = q \<Longrightarrow> cells (fst b, snd b + j) = cells b \<union> cells (q, j)"
  by (auto simp: cells_def)

lemma join_upper_ok:
  assumes L: "linked m e (us @ (p, n) # vs)" and sorted: "sorted_wrt apart vs"
    and heads: "\<And>x. x \<in> set (us @ [(p, n)]) \<Longrightarrow> fst x + 16 \<le> bp" and e: "e < bp"
    and k: "h_size m bp = k" "below (bp, k)"
    and up: "\<And>v. v \<in> set vs \<Longrightarrow> bp + 16 * k \<le> fst v \<and> below v"
  shows "\<exists>k' vs'. linked (join_upper p bp m) e ((bp, k') # vs') \<and> linked (join_upper p bp m) p us \<and>
    h_size (join_upper p bp m) p = n \<and> sorted_wrt apart ((bp, k') # vs') \<and> set vs' \<subseteq> set vs \<and> k \<le> k' \<and> below (bp, k') \<and>
    cells (bp, k') \<union> \<Union> (cells ` set vs') = cells (bp, k) \<union> \<Union> (cells ` set vs)"
proof -
  have p: "h_ptr m p = nxt e vs" "h_size m p = n" "linked m p us" "linked m e vs" "p + 16 \<le> bp"
    using L heads [of "(p, n)"] by (auto simp: linked_append)
  have bb: "bp < 2 ^ 64" "e < 2 ^ 64" "k < 2 ^ 32" "0 < k" using below_bounds [OF k(2)] e by auto
  have us: "linked (join_upper p bp m) p us \<and> h_size (join_upper p bp m) p = n"
  proof -
    have same: "h_ptr (join_upper p bp m) a = h_ptr m a" "h_size (join_upper p bp m) a = h_size m a" if "a + 16 \<le> bp" for a
      using that by (simp_all add: join_upper_def Let_def head_simps)
    have "linked (join_upper p bp m) p us = linked m p us"
      by (rule linked_cong) (use heads same in auto)
    then show ?thesis using p same by simp
  qed
  show ?thesis
  proof (cases "\<exists>j vs'. vs = (bp + 16 * k, j) # vs'")
    case True
    then obtain j vs' where vs: "vs = (bp + 16 * k, j) # vs'" by blast
    let ?q = "bp + 16 * k"
    have q: "h_size m ?q = j" "h_ptr m ?q = nxt e vs'" "linked m e vs'" "below (?q, j)"
      using p(4) up vs by auto
    have nx: "nxt e vs' < 2 ^ 64" using up vs bb below_bounds by (fastforce simp: nxt_def split: list.splits)
    have kj: "k + j < 2 ^ 32" "below (bp, k + j)" using q(4) by (auto simp: below_def)
    have M: "join_upper p bp m = set_ptr (nxt e vs') bp (set_size (k + j) bp m)"
      using p(1,5) k(1) q vs bb by (simp add: join_upper_def Let_def head_simps)
    have far: "bp + 16 \<le> fst v" "apart (?q, j) v" if "v \<in> set vs'" for v using up [of v] sorted vs that bb by auto
    have "linked (join_upper p bp m) e vs' = linked m e vs'"
      by (rule linked_cong) (use far in \<open>simp add: M head_simps\<close>)
    moreover have "sorted_wrt apart ((bp, k + j) # vs')" using sorted vs far(2) by (auto simp: apart_def)
    moreover have "cells (bp, k + j) \<union> \<Union> (cells ` set vs') = cells (bp, k) \<union> \<Union> (cells ` set vs)"
      using cells_join [of "(bp, k)" ?q j] vs by auto
    ultimately show ?thesis
      using us q(3) kj nx vs by (intro exI [of _ "k + j"] exI [of _ vs']) (auto simp: M head_simps)
  next
    case False
    have nx: "nxt e vs < 2 ^ 64" using up bb below_bounds by (fastforce simp: nxt_def split: list.splits)
    have ne: "bp + 16 * k \<noteq> nxt e vs" using False e by (cases vs) auto
    have M: "join_upper p bp m = set_ptr (nxt e vs) bp m" using ne p(1) k(1) by (simp add: join_upper_def)
    have far: "bp + 16 \<le> fst v" "apart (bp, k) v" if v: "v \<in> set vs" for v
    proof -
      obtain w ws where vs: "vs = w # ws" using v by (cases vs) auto
      have "bp + 16 * k < fst w" using up [of w] False vs by (cases w) auto
      moreover have "fst w \<le> fst v" using sorted v vs by (auto simp: apart_def)
      ultimately show "bp + 16 \<le> fst v" "apart (bp, k) v" using bb by (auto simp: apart_def)
    qed
    have "linked (join_upper p bp m) e vs = linked m e vs"
      by (rule linked_cong) (use far in \<open>simp add: M head_simps\<close>)
    then show ?thesis
      using us p(4) nx k sorted far(2) by (intro exI [of _ k] exI [of _ vs]) (auto simp: M head_simps)
  qed
qed

lemma join_lower_ok:
  assumes L: "linked m e ((bp, k) # vs)" "linked m p us" "h_size m p = n" "e < 2 ^ 64" "p + 16 \<le> bp"
    and S: "sorted_wrt apart (us @ [(p, n)])" "sorted_wrt apart ((bp, k) # vs)" "p + 16 * n \<le> bp"
    and heads: "\<And>u. u \<in> set us \<Longrightarrow> fst u + 16 \<le> p" and B: "below (bp, k)" "\<And>v. v \<in> set vs \<Longrightarrow> below v"
  shows "\<exists>xs. linked (join_lower p bp m) e (us @ xs) \<and> sorted_wrt apart (us @ xs) \<and> fst (hd xs) = p \<and> xs \<noteq> [] \<and>
    (if n = 0 then xs = (p, n) # (bp, k) # vs else \<forall>x \<in> set xs. below x) \<and> (\<exists>x \<in> set xs. k \<le> snd x) \<and>
    (\<forall>x \<in> set (tl xs). x = (bp, k) \<or> x \<in> set vs) \<and>
    \<Union> (cells ` set xs) = cells (p, n) \<union> cells (bp, k) \<union> \<Union> (cells ` set vs)"
proof -
  have bk: "h_ptr m bp = nxt e vs" "h_size m bp = k" "linked m e vs" using L(1) by auto
  have bb: "bp < 2 ^ 64" "k < 2 ^ 32" "0 < k" "p < 2 ^ 64" using below_bounds [OF B(1)] L(5) by auto
  have nx: "nxt e vs < 2 ^ 64" using B(2) L(4) below_bounds by (fastforce simp: nxt_def split: list.splits)
  have far: "bp + 16 * k < fst v" if "v \<in> set vs" for v using S(2) that by (auto simp: apart_def)
  have us: "fst u + 16 * snd u < p" if "u \<in> set us" for u using S(1) that by (auto simp: apart_def sorted_wrt_append)
  have same: "linked (join_lower p bp m) p us" "linked (join_lower p bp m) e vs"
  proof -
    have "h_ptr (join_lower p bp m) a = h_ptr m a \<and> h_size (join_lower p bp m) a = h_size m a" if "a + 16 \<le> p \<or> p + 16 \<le> a" for a
      using that by (simp add: join_lower_def Let_def head_simps)
    moreover have "p + 16 \<le> fst v" if "v \<in> set vs" for v using far [OF that] L(5) by simp
    ultimately show "linked (join_lower p bp m) p us" "linked (join_lower p bp m) e vs"
      using L(2) bk(3) heads by (simp_all cong: linked_cong)
  qed
  show ?thesis
  proof (cases "p + 16 * n = bp")
    case True
    then have n: "n \<noteq> 0" "below (p, n + k)" using L(5) B(1) by (auto simp: below_def)
    have M: "join_lower p bp m = set_ptr (nxt e vs) p (set_size (n + k) p m)"
      using True bk L(3,5) by (simp add: join_lower_def Let_def head_simps)
    have "n + k < 2 ^ 32" using n(2) below_bounds by fastforce
    moreover have "apart (p, n + k) v" if "v \<in> set vs" for v using far [OF that] True by (simp add: apart_def)
    moreover have "apart u v" if "u \<in> set us" "v \<in> set vs" for u v using far [OF that(2)] us [OF that(1)] L(5) by (simp add: apart_def)
    moreover have "apart u (p, n + k)" if "u \<in> set us" for u using us [OF that] by (simp add: apart_def)
    ultimately show ?thesis
      using same nx n S B(2) cells_join [of "(p, n)" bp k] True
      by (intro exI [of _ "(p, n + k) # vs"]) (auto simp: M linked_append head_simps sorted_wrt_append)
  next
    case False
    have M: "join_lower p bp m = set_ptr bp p m" using False L(3) by (simp add: join_lower_def)
    have b: "h_ptr (join_lower p bp m) bp = nxt e vs" "h_size (join_lower p bp m) bp = k"
      using bk L(5) by (simp_all add: M head_simps)
    have "below (p, n)" if "n \<noteq> 0" using that S(3) B(1) by (auto simp: below_def)
    moreover have "apart u v" if "u \<in> set us" "v \<in> set vs" for u v using far [OF that(2)] us [OF that(1)] L(5) by (simp add: apart_def)
    moreover have "apart (p, n) v" if "v \<in> set vs" for v using far [OF that] S(3) by (simp add: apart_def)
    moreover have "apart u (bp, k)" if "u \<in> set us" for u using us [OF that] L(5) by (simp add: apart_def)
    moreover have "apart (p, n) (bp, k)" using False S(3) by (simp add: apart_def)
    ultimately show ?thesis
      using same bb L(3) S B b by (intro exI [of _ "(p, n) # (bp, k) # vs"]) (auto simp: M linked_append head_simps sorted_wrt_append)
  qed
qed

subsection \<open>The invariant of the heap\<close>

text \<open>
  The free list starts at \<^verbatim>\<open>base\<close>, is sorted by address, and no two free blocks touch. The set \<open>A\<close> has the
  blocks that the program holds, and \<open>C\<close> the bytes that the allocator got from the kernel: every byte of \<open>C\<close> is in exactly
  one block.
\<close>

definition heap_list :: "(nat \<times> nat) list \<Rightarrow> uheap \<Rightarrow> bool" where
  "heap_list xs s \<longleftrightarrow> linked (um s) (base s) xs \<and> sorted_wrt apart xs \<and> xs \<noteq> [] \<and> hd xs = (base s, 0) \<and>
     (\<forall>x \<in> set (tl xs). base s + 16 \<le> fst x \<and> below x) \<and> freep s \<in> fst ` set xs \<and> 0 < base s"

definition owns :: "nat set \<Rightarrow> (nat \<times> nat) set \<Rightarrow> nat set \<Rightarrow> bool" where
  "owns C A F \<longleftrightarrow> (\<forall>a \<in> A. below a) \<and> (\<forall>a \<in> A. \<forall>b \<in> A. a \<noteq> b \<longrightarrow> cells a \<inter> cells b = {}) \<and>
     \<Union> (cells ` A) \<inter> F = {} \<and> \<Union> (cells ` A) \<union> F = C"

definition heap_at :: "nat set \<Rightarrow> (nat \<times> nat) set \<Rightarrow> (nat \<times> nat) list \<Rightarrow> uheap \<Rightarrow> bool" where
  "heap_at C A xs s \<longleftrightarrow> heap_list xs s \<and> owns C A (\<Union> (cells ` set xs)) \<and> (\<forall>a \<in> A. h_size (um s) (fst a) = snd a) \<and>
     C \<subseteq> {base s + 16 ..< brk s} \<and> base s + 16 \<le> brk s \<and> brk s \<le> 2 ^ 27"

definition heap_ok :: "nat set \<Rightarrow> (nat \<times> nat) set \<Rightarrow> uheap \<Rightarrow> bool" where
  "heap_ok C A s \<longleftrightarrow> (if freep s = 0 then C = {} \<and> A = {} \<and> 0 < base s \<and> base s + 16 \<le> brk s \<and> brk s \<le> 2 ^ 27
     else \<exists>xs. heap_at C A xs s)"

lemma split_at:
  "sorted_wrt apart xs \<Longrightarrow> xs \<noteq> [] \<Longrightarrow> fst (hd xs) < a \<Longrightarrow>
   \<exists>us y vs. xs = us @ y # vs \<and> fst y < a \<and> (\<forall>v \<in> set vs. a \<le> fst v)"
proof (induction xs)
  case (Cons x xs)
  show ?case
  proof (cases "xs \<noteq> [] \<and> fst (hd xs) < a")
    case True
    then have "\<exists>us y vs. xs = us @ y # vs \<and> fst y < a \<and> (\<forall>v \<in> set vs. a \<le> fst v)"
      using Cons.IH Cons.prems(1) by simp
    then obtain us y vs where "xs = us @ y # vs" "fst y < a" "\<forall>v \<in> set vs. a \<le> fst v" by blast
    then show ?thesis by (intro exI [of _ "x # us"]) auto
  next
    case False
    then have "\<forall>v \<in> set xs. a \<le> fst v" using Cons.prems(1) by (cases xs) (auto simp: apart_def)
    then show ?thesis using Cons.prems(3) by (intro exI [of _ "[]"]) auto
  qed
qed simp

lemma disjoint_order:
  assumes "below a" "below b" "cells a \<inter> cells b = {}" "fst a \<le> fst b"
  shows "fst a + 16 * snd a \<le> fst b"
proof (rule ccontr)
  assume "\<not> ?thesis"
  then have "fst b \<in> cells a \<inter> cells b" using assms by (auto simp: cells_def below_def)
  then show False using assms(3) by simp
qed

lemma heap_list_heads:
  assumes "heap_list (us @ y # vs) s" "u \<in> set us"
  shows "fst u + 16 \<le> fst y"
proof (cases "u = (base s, 0)")
  case True
  have "y \<in> set (tl (us @ y # vs))" using assms(2) by (cases us) auto
  then show ?thesis using assms(1) True by (auto simp: heap_list_def)
next
  case False
  then have "u \<in> set (tl (us @ y # vs))" using assms by (cases us) (auto simp: heap_list_def)
  then have "below u" "apart u y" using assms by (auto simp: heap_list_def sorted_wrt_append)
  then show ?thesis by (auto simp: below_def apart_def)
qed

lemma join_outside:
  "i \<notin> {p ..< p + 16} \<Longrightarrow> i \<notin> {bp ..< bp + 16} \<Longrightarrow> join_lower p bp (join_upper p bp m) i = m i"
  by (simp add: join_lower_def join_upper_def Let_def head_outside not_le not_less)

lemma h_size_cells: "(\<And>i. i \<in> cells a \<Longrightarrow> m' i = m i) \<Longrightarrow> below a \<Longrightarrow> h_size m' (fst a) = h_size m (fst a)"
  unfolding h_size_def by (rule rd_cong) (auto simp: cells_def below_def)

lemma owns_release:
  assumes "owns C A F" "b \<in> A" "F' = F \<union> cells b"
  shows "owns C (A - {b}) F'"
  using assms unfolding owns_def by (auto; blast)

text \<open>Freeing a block puts its bytes on the free list.\<close>

lemma heap_at_split:
  assumes H: "heap_at C A xs s" and b: "(bp, k) \<in> A"
  shows "\<exists>us p n vs. xs = us @ (p, n) # vs \<and> p + 16 \<le> bp \<and> p + 16 * n \<le> bp \<and> (\<forall>v \<in> set vs. bp + 16 * k \<le> fst v) \<and>
    below (bp, k) \<and> base s + 16 \<le> bp"
proof -
  have L: "heap_list xs s" and O: "owns C A (\<Union> (cells ` set xs))" and C: "C \<subseteq> {base s + 16 ..< brk s}"
    using H by (auto simp: heap_at_def)
  have bk: "below (bp, k)" using O b by (auto simp: owns_def)
  have "bp \<in> cells (bp, k)" using bk by (auto simp: cells_def below_def)
  then have "bp \<in> C" using O b unfolding owns_def by blast
  then have bp: "base s + 16 \<le> bp" using C by auto
  have "\<exists>us y vs. xs = us @ y # vs \<and> fst y < bp \<and> (\<forall>v \<in> set vs. bp \<le> fst v)"
    by (rule split_at) (use L bp in \<open>auto simp: heap_list_def\<close>)
  then obtain us y vs where xs: "xs = us @ y # vs" and y: "fst y < bp" and vs: "\<forall>v \<in> set vs. bp \<le> fst v" by blast
  have dis: "cells x \<inter> cells (bp, k) = {}" if "x \<in> set xs" for x using O b that unfolding owns_def by blast
  have "fst y + 16 \<le> bp \<and> fst y + 16 * snd y \<le> bp"
  proof (cases "y = (base s, 0)")
    case False
    then have "below y" using L xs by (cases us) (auto simp: heap_list_def)
    moreover from this have "fst y + 16 * snd y \<le> bp" using disjoint_order [of y "(bp, k)"] dis [of y] bk y xs by simp
    ultimately show ?thesis by (auto simp: below_def)
  qed (use bp in simp)
  moreover have "bp + 16 * k \<le> fst v" if "v \<in> set vs" for v
  proof -
    have "below v" using L xs that by (cases us) (auto simp: heap_list_def)
    then show ?thesis using disjoint_order [of "(bp, k)" v] dis [of v] bk vs that xs by auto
  qed
  ultimately show ?thesis using xs bk bp by (intro exI [of _ us] exI [of _ "fst y"] exI [of _ "snd y"] exI [of _ vs]) auto
qed

lemma u_free_list:
  assumes H: "heap_at C A xs s" and b: "(bp, k) \<in> A"
  shows "\<exists>xs' p m. u_free (bp + 16) s = Some (s\<lparr>um := m, freep := p\<rparr>) \<and> heap_list xs' (s\<lparr>um := m, freep := p\<rparr>) \<and>
    \<Union> (cells ` set xs') = \<Union> (cells ` set xs) \<union> cells (bp, k) \<and> (\<exists>x \<in> set xs'. k \<le> snd x) \<and>
    (\<forall>i. i \<notin> {bp ..< bp + 16} \<and> i \<notin> {base s ..< base s + 16} \<and> i \<notin> \<Union> (cells ` set xs) \<longrightarrow> m i = um s i)"
proof -
  obtain us p n vs where xs: "xs = us @ (p, n) # vs" and p: "p + 16 \<le> bp" "p + 16 * n \<le> bp"
    and vs: "\<forall>v \<in> set vs. bp + 16 * k \<le> fst v" and bk: "below (bp, k)" and bp: "base s + 16 \<le> bp"
    using heap_at_split [OF H b] by blast
  have L: "heap_list xs s" and k: "h_size (um s) bp = k" using H b by (auto simp: heap_at_def)
  then have lk: "linked (um s) (base s) xs" and so: "sorted_wrt apart xs" and hd: "hd xs = (base s, 0)" and fp: "freep s \<in> fst ` set xs"
    by (auto simp: heap_list_def)
  have tl: "base s + 16 \<le> fst x \<and> below x" if "x \<in> set (tl xs)" for x using L that by (auto simp: heap_list_def)
  have tvs: "v \<in> set (tl xs)" if "v \<in> set vs" for v using xs that by (cases us) auto
  have k0: "0 < k" using bk by (simp add: below_def)
  have heads: "fst u + 16 \<le> p" if "u \<in> set us" for u using heap_list_heads [of us "(p, n)" vs s u] L xs that by simp
  have place: "free_place (um s) bp (freep s) = Some p"
    by (rule free_place_exec [OF lk so xs]) (use hd p vs fp k0 in auto)
  let ?m = "join_upper p bp (um s)"
  obtain k' vs' where U: "linked ?m (base s) ((bp, k') # vs')" "linked ?m p us" "h_size ?m p = n" "sorted_wrt apart ((bp, k') # vs')"
      "set vs' \<subseteq> set vs" "k \<le> k'" "below (bp, k')"
      "cells (bp, k') \<union> \<Union> (cells ` set vs') = cells (bp, k) \<union> \<Union> (cells ` set vs)"
    using join_upper_ok [of "um s" "base s" us p n vs bp k] lk so xs heads p bp k bk vs tl tvs
    by (fastforce simp: sorted_wrt_append)
  have bs: "base s < 2 ^ 64" using bp bk by (auto simp: below_def)
  have so1: "sorted_wrt apart (us @ [(p, n)])" using so xs by (auto simp: sorted_wrt_append)
  have bvs: "below v" if "v \<in> set vs'" for v using U(5) tl tvs that by blast
  obtain ys where Y: "linked (join_lower p bp ?m) (base s) (us @ ys)" "sorted_wrt apart (us @ ys)" "fst (hd ys) = p" "ys \<noteq> []"
      "if n = 0 then ys = (p, n) # (bp, k') # vs' else \<forall>x \<in> set ys. below x" "\<exists>x \<in> set ys. k' \<le> snd x"
      "\<forall>x \<in> set (tl ys). x = (bp, k') \<or> x \<in> set vs'"
      "\<Union> (cells ` set ys) = cells (p, n) \<union> cells (bp, k') \<union> \<Union> (cells ` set vs')"
    using join_lower_ok [OF U(1,2,3) bs p(1) so1 U(4) p(2) heads U(7) bvs] by blast
  let ?t = "s\<lparr>um := join_lower p bp ?m, freep := p\<rparr>"
  have ge: "base s + 16 \<le> fst x" if "x \<in> set (tl ys)" for x using Y(7) that bp U(5) tl tvs by fastforce
  have "hd (us @ ys) = (base s, 0) \<and> (\<forall>x \<in> set (tl (us @ ys)). base s + 16 \<le> fst x \<and> below x)"
  proof (cases us)
    case Nil
    then have "p = base s" "n = 0" using hd xs by auto
    then show ?thesis using Y(5) Nil ge U(5,7) tl tvs by auto
  next
    case (Cons u us')
    then have pn: "(p, n) \<in> set (tl xs)" using xs by simp
    then have n: "n \<noteq> 0" "base s + 16 \<le> p" using tl by (auto simp: below_def)
    have "base s + 16 \<le> fst x" if "x \<in> set ys" for x using that ge [of x] Y(3,4) n(2) by (cases ys) auto
    then show ?thesis using Cons hd xs n Y(5) L by (auto simp: heap_list_def)
  qed
  moreover have "p \<in> fst ` set ys" using Y(3,4) by (cases ys) auto
  ultimately have "heap_list (us @ ys) ?t" using Y(1,2,4) L by (auto simp: heap_list_def)
  moreover have "\<Union> (cells ` set (us @ ys)) = \<Union> (cells ` set xs) \<union> cells (bp, k)" using Y(8) U(8) xs by auto
  moreover have "join_lower p bp ?m i = um s i"
    if "i \<notin> {bp ..< bp + 16}" "i \<notin> {base s ..< base s + 16}" "i \<notin> \<Union> (cells ` set xs)" for i
  proof (rule join_outside [OF _ that(1)])
    show "i \<notin> {p ..< p + 16}"
    proof (cases us)
      case (Cons u us')
      then have "below (p, n)" using tl [of "(p, n)"] xs by simp
      then have "{p ..< p + 16} \<subseteq> cells (p, n)" by (auto simp: cells_def below_def)
      then show ?thesis using that(3) xs by auto
    qed (use hd xs that(2) in auto)
  qed
  moreover have "\<exists>x \<in> set (us @ ys). k \<le> snd x" using Y(6) le_trans [OF U(6)] by auto
  moreover have "u_free (bp + 16) s = Some ?t" using place by (simp add: u_free_def)
  ultimately show ?thesis by (intro exI [of _ "us @ ys"] exI [of _ p] exI [of _ "join_lower p bp ?m"]) blast
qed

lemma u_free_ok:
  assumes H: "heap_at C A xs s" and b: "b \<in> A"
  shows "\<exists>xs' s'. u_free (fst b + 16) s = Some s' \<and> heap_at C (A - {b}) xs' s' \<and> brk s' = brk s \<and> base s' = base s \<and>
    (\<exists>x \<in> set xs'. snd b \<le> snd x) \<and> (\<forall>a \<in> A - {b}. \<forall>i \<in> cells a. um s' i = um s i)"
proof -
  obtain bp k where bp: "b = (bp, k)" by (cases b)
  obtain xs' p m where F: "u_free (bp + 16) s = Some (s\<lparr>um := m, freep := p\<rparr>)" "heap_list xs' (s\<lparr>um := m, freep := p\<rparr>)"
      "\<Union> (cells ` set xs') = \<Union> (cells ` set xs) \<union> cells (bp, k)" "\<exists>x \<in> set xs'. k \<le> snd x"
      "\<forall>i. i \<notin> {bp ..< bp + 16} \<and> i \<notin> {base s ..< base s + 16} \<and> i \<notin> \<Union> (cells ` set xs) \<longrightarrow> m i = um s i"
    using u_free_list [OF H b [unfolded bp]] by (elim exE conjE)
  have O: "owns C A (\<Union> (cells ` set xs))" and C: "C \<subseteq> {base s + 16 ..< brk s}" using H by (auto simp: heap_at_def)
  have "below b" using O b by (simp add: owns_def)
  then have hb: "{bp ..< bp + 16} \<subseteq> cells b" using bp by (auto simp: below_def cells_def)
  have same: "m i = um s i" if a: "a \<in> A - {b}" and i: "i \<in> cells a" for a i
  proof (rule F(5) [rule_format, OF conjI [OF _ conjI]])
    have "cells a \<inter> cells b = {}" using O b a unfolding owns_def by blast
    then show "i \<notin> {bp ..< bp + 16}" using hb i by blast
    have "i \<in> C" using O a i unfolding owns_def by blast
    then show "i \<notin> {base s ..< base s + 16}" using C by auto
    show "i \<notin> \<Union> (cells ` set xs)" using O a i unfolding owns_def by blast
  qed
  have "h_size m (fst a) = snd a" if a: "a \<in> A - {b}" for a
  proof -
    have "below a" "h_size (um s) (fst a) = snd a" using O H a by (simp_all add: owns_def heap_at_def)
    then show ?thesis using h_size_cells [of a m "um s"] same [OF a] by simp
  qed
  then have "heap_at C (A - {b}) xs' (s\<lparr>um := m, freep := p\<rparr>)"
    using H F(2) owns_release [OF O b F(3) [folded bp]] by (auto simp: heap_at_def)
  then show ?thesis using F(1,4) same bp by auto
qed

text \<open>Memory from the kernel becomes a block of the program, and then of the free list.\<close>

lemma heap_at_node:
  assumes "heap_at C A xs s" "x \<in> set xs"
  shows "fst x + 16 \<le> brk s"
proof (cases "x = (base s, 0)")
  case False
  have L: "heap_list xs s" and O: "owns C A (\<Union> (cells ` set xs))" and C: "C \<subseteq> {base s + 16 ..< brk s}"
    using assms(1) by (auto simp: heap_at_def)
  have "below x" using L assms(2) False by (cases xs) (auto simp: heap_list_def)
  then have "fst x + 15 \<in> cells x" by (auto simp: below_def cells_def)
  then have "fst x + 15 \<in> C" using O assms(2) unfolding owns_def by blast
  then show ?thesis using C by auto
qed (use assms in \<open>simp add: heap_at_def\<close>)

lemma heap_at_grow:
  assumes H: "heap_at C A xs s" and n: "brk s + 16 * n \<le> 2 ^ 27" "0 < n"
  shows "heap_at (C \<union> cells (brk s, n)) (insert (brk s, n) A) xs (s\<lparr>brk := brk s + 16 * n, um := set_size n (brk s) (um s)\<rparr>)"
    and "a \<in> A \<Longrightarrow> i \<in> cells a \<Longrightarrow> i < brk s"
proof -
  let ?b = "(brk s, n)" and ?m = "set_size n (brk s) (um s)"
  have L: "heap_list xs s" and O: "owns C A (\<Union> (cells ` set xs))" and C: "C \<subseteq> {base s + 16 ..< brk s}" "base s + 16 \<le> brk s"
    using H by (auto simp: heap_at_def)
  have old: "i < brk s" if "a \<in> A" "i \<in> cells a" for a i using O C that unfolding owns_def by fastforce
  then show "a \<in> A \<Longrightarrow> i \<in> cells a \<Longrightarrow> i < brk s" .
  have "linked ?m (base s) xs = linked (um s) (base s) xs"
    by (rule linked_cong) (use heap_at_node [OF H] in \<open>simp add: head_simps\<close>)
  then have "heap_list xs (s\<lparr>brk := brk s + 16 * n, um := ?m\<rparr>)" using L by (simp add: heap_list_def)
  moreover have "owns (C \<union> cells ?b) (insert ?b A) (\<Union> (cells ` set xs))"
  proof -
    have "cells ?b \<inter> C = {}" using C by (auto simp: cells_def)
    moreover have "below ?b" using n by (auto simp: below_def)
    ultimately show ?thesis using O unfolding owns_def by (auto 0 4)
  qed
  moreover have "h_size ?m (fst a) = snd a" if "a \<in> insert ?b A" for a
  proof (cases "a = ?b")
    case False
    then have a: "a \<in> A" "below a" using that O by (auto simp: owns_def)
    moreover have "?m i = um s i" if "i \<in> cells a" for i using old [OF a(1) that] by (simp add: head_outside)
    ultimately show ?thesis using h_size_cells [of a ?m "um s"] H by (simp add: heap_at_def)
  qed (use n in \<open>simp add: head_simps\<close>)
  moreover have "C \<union> cells ?b \<subseteq> {base s + 16 ..< brk s + 16 * n}" using C by (auto simp: cells_def)
  ultimately show "heap_at (C \<union> cells ?b) (insert ?b A) xs (s\<lparr>brk := brk s + 16 * n, um := ?m\<rparr>)"
    using n C by (simp add: heap_at_def)
qed

lemma morecore_ok:
  assumes H: "heap_at C A xs s" and n: "nu * 16 < 2 ^ 31" and grow: "\<And>a n. grow a n \<Longrightarrow> a + n \<le> 2 ^ 27"
  shows "if grow (brk s) (16 * max nu 4096)
    then \<exists>xs' s'. morecore grow nu s = Some (freep s', s') \<and> heap_at (C \<union> {brk s ..< brk s'}) A xs' s' \<and>
      base s' = base s \<and> brk s \<le> brk s' \<and> (\<exists>x \<in> set xs'. nu \<le> snd x) \<and> (\<forall>a \<in> A. \<forall>i \<in> cells a. um s' i = um s i)
    else morecore grow nu s = Some (0, s)"
proof -
  let ?n = "max nu 4096"
  have N: "(if nu < 4096 then 4096 else nu) = ?n" "s32 (?n * 16 mod 2 ^ 32) = int (16 * ?n)" "0 < ?n"
    using n by (auto simp: s32_def max_def)
  show ?thesis
  proof (cases "grow (brk s) (16 * ?n)")
    case True
    let ?b = "(brk s, ?n)" and ?t = "s\<lparr>brk := brk s + 16 * ?n, um := set_size ?n (brk s) (um s)\<rparr>"
    note G = heap_at_grow [OF H grow [OF True] N(3)]
    obtain xs' s' where F: "u_free (fst ?b + 16) ?t = Some s'" "heap_at (C \<union> cells ?b) (insert ?b A - {?b}) xs' s'" "brk s' = brk ?t"
        "base s' = base ?t" "\<exists>x \<in> set xs'. snd ?b \<le> snd x" "\<forall>a \<in> insert ?b A - {?b}. \<forall>i \<in> cells a. um s' i = um ?t i"
      using u_free_ok [OF G(1), of ?b] by blast
    have "?b \<notin> A" using G(2) [of ?b "brk s"] by (auto simp: cells_def max_def)
    then have A: "insert ?b A - {?b} = A" by blast
    have "morecore grow nu s = Some (freep s', s')"
      using True N F(1) by (simp add: morecore_def u_sbrk_def Let_def nat_mult_distrib)
    moreover have "cells ?b = {brk s ..< brk s'}" using F(3) by (simp add: cells_def)
    ultimately show ?thesis using True F G(2) unfolding A by (auto simp: head_outside)
  next
    case False
    then show ?thesis using N by (simp add: morecore_def u_sbrk_def Let_def nat_mult_distrib)
  qed
qed

text \<open>The search of \<^verbatim>\<open>malloc\<close> goes once around the list, from the node after \<^verbatim>\<open>freep\<close>.\<close>

lemma malloc_scan:
  assumes "linked (um s) e ys" "ys \<noteq> []" "fst (last ys) = freep s" "distinct (map fst ys)"
  shows "(\<exists>vs x ws. ys = vs @ x # ws \<and> nu \<le> snd x \<and>
      malloc_loop grow nu prevp (fst (hd ys)) s = Some (malloc_take nu (fst (last ((prevp, 0) # vs))) (fst x) s)) \<or>
    (\<forall>y \<in> set ys. snd y < nu) \<and>
      malloc_loop grow nu prevp (fst (hd ys)) s = (case morecore grow nu s of None \<Rightarrow> None
        | Some (r, s') \<Rightarrow> if r = 0 then Some (0, s') else malloc_loop grow nu r (h_ptr (um s') r) s')"
  using assms
proof (induction ys arbitrary: prevp)
  case (Cons y ys)
  have y: "h_size (um s) (fst y) = snd y" "h_ptr (um s) (fst y) = nxt e ys" using Cons.prems(1) by auto
  show ?case
  proof (cases "nu \<le> snd y")
    case True
    then have "malloc_loop grow nu prevp (fst y) s = Some (malloc_take nu prevp (fst y) s)"
      using y by (subst malloc_loop.simps) simp
    then show ?thesis using True by (intro disjI1 exI [of _ "[]"]) auto
  next
    case small: False
    show ?thesis
    proof (cases "ys = []")
      case True
      then show ?thesis using small y Cons.prems(3) by (subst malloc_loop.simps) (simp add: not_le)
    next
      case False
      then have "freep s \<in> fst ` set ys" using Cons.prems(3) by (metis imageI last_ConsR last_in_set)
      then have ne: "fst y \<noteq> freep s" using Cons.prems(4) by (metis distinct.simps(2) list.set_map list.simps(9))
      have "nxt e ys = fst (hd ys)" using False by (cases ys) auto
      then have step: "malloc_loop grow nu prevp (fst y) s = malloc_loop grow nu (fst y) (fst (hd ys)) s"
        using y small ne by (subst malloc_loop.simps) simp
      have "(\<exists>vs x ws. ys = vs @ x # ws \<and> nu \<le> snd x \<and>
          malloc_loop grow nu (fst y) (fst (hd ys)) s = Some (malloc_take nu (fst (last ((fst y, 0) # vs))) (fst x) s)) \<or>
        (\<forall>y \<in> set ys. snd y < nu) \<and>
          malloc_loop grow nu (fst y) (fst (hd ys)) s = (case morecore grow nu s of None \<Rightarrow> None
            | Some (r, s') \<Rightarrow> if r = 0 then Some (0, s') else malloc_loop grow nu r (h_ptr (um s') r) s')"
        by (rule Cons.IH) (use Cons.prems False in auto)
      then show ?thesis
      proof (elim disjE exE conjE)
        fix vs x ws
        assume "ys = vs @ x # ws" "nu \<le> snd x"
          "malloc_loop grow nu (fst y) (fst (hd ys)) s = Some (malloc_take nu (fst (last ((fst y, 0) # vs))) (fst x) s)"
        then show ?thesis using step by (intro disjI1 exI [of _ "y # vs"]) auto
      qed (use small step in simp)
    qed
  qed
qed simp

lemma rotated_pred:
  assumes "vs @ us @ [f] = v1 @ x # w1" "x \<noteq> hd (us @ [f])"
  shows "\<exists>us' y vs'. us @ f # vs = us' @ y # x # vs' \<and> fst y = fst (last ((fst f, 0) # v1))"
proof -
  consider zs where "vs = v1 @ zs" "zs @ us @ [f] = x # w1" | zs where "vs @ zs = v1" "us @ [f] = zs @ x # w1"
    using assms(1) unfolding append_eq_append_conv2 by blast
  then show ?thesis
  proof cases
    case 1
    then obtain zs' where "vs = v1 @ x # zs'" using assms(2) by (cases zs) auto
    then have "us @ f # vs = (us @ butlast (f # v1)) @ last (f # v1) # x # zs'"
      "fst (last (f # v1)) = fst (last ((fst f, 0) # v1))"
      by (cases v1 rule: rev_cases; simp)+
    then show ?thesis by blast
  next
    case 2
    then obtain z0 y where "zs = z0 @ [y]" using assms(2) by (cases zs rule: rev_cases) auto
    then have "us @ f # vs = z0 @ y # x # (w1 @ vs)" "last ((fst f, 0) # v1) = y" using 2 by (auto simp: append_eq_Cons_conv)
    then show ?thesis by metis
  qed
qed

lemma heap_list_rotate:
  assumes "heap_list xs s"
  obtains us f vs where "xs = us @ f # vs" "fst f = freep s" "linked (um s) (nxt (base s) vs) (vs @ us @ [f])"
    "distinct (map fst (vs @ us @ [f]))" "h_ptr (um s) (freep s) = fst (hd (vs @ us @ [f]))" "hd (us @ [f]) = (base s, 0)"
proof -
  have L: "linked (um s) (base s) xs" "sorted_wrt apart xs" "hd xs = (base s, 0)" using assms by (auto simp: heap_list_def)
  obtain f where f: "f \<in> set xs" "fst f = freep s" using assms by (auto simp: heap_list_def)
  then obtain us vs where xs: "xs = us @ f # vs" by (meson split_list)
  have hd: "hd (us @ [f]) = (base s, 0)" using L(3) xs by (cases us) auto
  then have e: "nxt e (us @ [f]) = base s" for e by (cases us) auto
  have "sorted_wrt (<) (map fst xs)" using L(2) by (auto simp: sorted_wrt_map apart_def elim: sorted_wrt_mono_rel [rotated])
  then have "distinct (map fst xs)" by (simp add: strict_sorted_iff)
  moreover have "linked (um s) (nxt (base s) vs) (vs @ us @ [f])" using L(1) xs e by (auto simp: linked_append)
  moreover have "h_ptr (um s) (freep s) = fst (hd (vs @ us @ [f]))"
    using L(1) xs f(2) hd by (cases vs) (auto simp: linked_append)
  ultimately show ?thesis using that [of us f vs] xs f(2) hd by auto
qed

text \<open>Taking a block, or its upper end, off the free list.\<close>

lemma apart_cells: "apart x y \<Longrightarrow> cells x \<inter> cells y = {}"
  by (auto simp: apart_def cells_def)

lemma owns_take:
  assumes "owns C A F" "F = F' \<union> cells b" "F' \<inter> cells b = {}" "below b"
  shows "owns C (insert b A) F'" "b \<notin> A"
proof -
  have "cells b \<noteq> {}" using assms(4) by (auto simp: cells_def below_def)
  moreover have "cells a \<inter> F = {}" if "a \<in> A" for a using assms(1) that unfolding owns_def by blast
  ultimately show "b \<notin> A" "owns C (insert b A) F'" using assms unfolding owns_def by (blast, auto 0 4)
qed

lemma malloc_take_heap:
  assumes H: "heap_at C A xs s" and t: "t = s\<lparr>um := m, freep := q\<rparr>" and L: "heap_list xs' t"
    and F: "\<Union> (cells ` set xs) = \<Union> (cells ` set xs') \<union> cells b" "\<Union> (cells ` set xs') \<inter> cells b = {}" "below b"
    and size: "h_size m (fst b) = snd b"
    and out: "\<And>i. i \<notin> {base s ..< base s + 16} \<Longrightarrow> i \<notin> \<Union> (cells ` set xs) \<Longrightarrow> m i = um s i"
  shows "heap_at C (insert b A) xs' t \<and> b \<notin> A \<and> (\<forall>a \<in> A. \<forall>i \<in> cells a. um t i = um s i)"
proof -
  have O: "owns C A (\<Union> (cells ` set xs))" and C: "C \<subseteq> {base s + 16 ..< brk s}" using H by (auto simp: heap_at_def)
  have same: "m i = um s i" if "a \<in> A" "i \<in> cells a" for a i
  proof (rule out)
    have "i \<in> C" using O that unfolding owns_def by blast
    then show "i \<notin> {base s ..< base s + 16}" using C by auto
    show "i \<notin> \<Union> (cells ` set xs)" using O that unfolding owns_def by blast
  qed
  have "h_size m (fst a) = snd a" if a: "a \<in> A" for a
  proof -
    have "below a" "h_size (um s) (fst a) = snd a" using O H a by (simp_all add: owns_def heap_at_def)
    then show ?thesis using h_size_cells [of a m "um s"] same [OF a] by simp
  qed
  then show ?thesis using H L size t same owns_take [OF O F] by (auto simp: heap_at_def)
qed

lemma heap_list_pair:
  assumes L: "heap_list (us @ y # x # vs) s"
  shows "below x" "base s + 16 \<le> fst x" "fst y + 16 \<le> fst x" "\<And>u. u \<in> set us \<Longrightarrow> fst u + 16 \<le> fst y"
    "\<And>v. v \<in> set vs \<Longrightarrow> fst x + 16 * snd x < fst v" "h_size (um s) (fst x) = snd x" "h_ptr (um s) (fst x) = nxt (base s) vs"
    "fst y \<noteq> 0" "nxt (base s) vs < 2 ^ 64" "{fst y ..< fst y + 16} \<subseteq> {base s ..< base s + 16} \<union> cells y"
    "\<And>z. z \<in> set (us @ y # vs) \<Longrightarrow> cells z \<inter> cells x = {}"
proof -
  have lk: "linked (um s) (base s) (us @ y # x # vs)" and so: "sorted_wrt apart (us @ y # x # vs)" and b0: "0 < base s"
    using L by (auto simp: heap_list_def)
  show x: "below x" "base s + 16 \<le> fst x" using L by (cases us; auto simp: heap_list_def)+
  show "fst y + 16 \<le> fst x" using heap_list_heads [of "us @ [y]" x vs s y] L by simp
  show "fst u + 16 \<le> fst y" if "u \<in> set us" for u using heap_list_heads [of us y "x # vs" s u] L that by simp
  show "fst x + 16 * snd x < fst v" if "v \<in> set vs" for v using so that by (auto simp: sorted_wrt_append apart_def)
  show "h_size (um s) (fst x) = snd x" "h_ptr (um s) (fst x) = nxt (base s) vs" using lk by (auto simp: linked_append)
  show "fst y \<noteq> 0" using L b0 by (cases us) (auto simp: heap_list_def)
  have "below v" if "v \<in> set vs" for v using L that by (cases us) (auto simp: heap_list_def)
  then show "nxt (base s) vs < 2 ^ 64" using x below_bounds by (cases vs) fastforce+
  show "{fst y ..< fst y + 16} \<subseteq> {base s ..< base s + 16} \<union> cells y"
    using L by (cases us) (auto simp: heap_list_def below_def cells_def)
  show "cells z \<inter> cells x = {}" if "z \<in> set (us @ y # vs)" for z
    using so that apart_cells [of z x] apart_cells [of x z] by (auto simp: sorted_wrt_append)
qed

definition takes :: "nat set \<Rightarrow> (nat \<times> nat) set \<Rightarrow> nat \<Rightarrow> uheap \<Rightarrow> nat \<times> uheap \<Rightarrow> bool" where
  "takes C A nu s r \<longleftrightarrow> (\<exists>xs a t. r = (a + 16, t) \<and> heap_at C (insert (a, nu) A) xs t \<and> (a, nu) \<notin> A \<and> brk t = brk s \<and>
     base t = base s \<and> (\<forall>b \<in> A. \<forall>i \<in> cells b. um t i = um s i))"

lemma malloc_take_whole:
  assumes H: "heap_at C A (us @ y # x # vs) s" and nu: "snd x = nu"
  shows "takes C A nu s (malloc_take nu (fst y) (fst x) s)"
proof -
  have L: "heap_list (us @ y # x # vs) s" using H by (auto simp: heap_at_def)
  note P = heap_list_pair [OF L]
  let ?m = "set_ptr (nxt (base s) vs) (fst y) (um s)"
  let ?t = "s\<lparr>um := ?m, freep := fst y\<rparr>"
  have far: "fst y + 16 \<le> fst v" if "v \<in> set vs" for v using P(3,5) that by fastforce
  have "linked ?m (fst y) us = linked (um s) (fst y) us" "linked ?m (base s) vs = linked (um s) (base s) vs"
    by (rule linked_cong; use P(4) far in \<open>simp add: head_simps\<close>)+
  then have "heap_list (us @ y # vs) ?t"
    using L P(9) by (cases us) (auto simp: heap_list_def linked_append sorted_wrt_append head_simps)
  moreover have "?m i = um s i" if "i \<notin> {base s ..< base s + 16}" "i \<notin> \<Union> (cells ` set (us @ y # x # vs))" for i
  proof -
    have "i \<notin> cells y" using that(2) by simp
    then have "i \<notin> {fst y ..< fst y + 16}" using P(10) that(1) by blast
    then show ?thesis by (intro head_outside) auto
  qed
  moreover have "\<Union> (cells ` set (us @ y # x # vs)) = \<Union> (cells ` set (us @ y # vs)) \<union> cells x" by auto
  moreover have "\<Union> (cells ` set (us @ y # vs)) \<inter> cells x = {}" using P(11) by blast
  moreover have "h_size ?m (fst x) = snd x" using P(3,6) by (simp add: head_simps)
  ultimately have "heap_at C (insert x A) (us @ y # vs) ?t \<and> x \<notin> A \<and> (\<forall>a \<in> A. \<forall>i \<in> cells a. um ?t i = um s i)"
    by (intro malloc_take_heap [OF H refl _ _ _ P(1)]) auto
  moreover have "(fst x, nu) = x" using nu by auto
  ultimately show ?thesis
    unfolding takes_def
    by (intro exI [of _ "us @ y # vs"] exI [of _ "fst x"] exI [of _ ?t]) (simp add: malloc_take_def P(6,7) nu)
qed

lemma malloc_take_part:
  assumes H: "heap_at C A (us @ y # x # vs) s" and nu: "nu < snd x" "0 < nu"
  shows "takes C A nu s (malloc_take nu (fst y) (fst x) s)"
proof -
  have L: "heap_list (us @ y # x # vs) s" using H by (auto simp: heap_at_def)
  note P = heap_list_pair [OF L]
  let ?x = "(fst x, snd x - nu)" and ?a = "fst x + 16 * (snd x - nu)"
  let ?m = "set_size nu ?a (set_size (snd x - nu) (fst x) (um s))"
  let ?t = "s\<lparr>um := ?m, freep := fst y\<rparr>" and ?ys = "us @ y # ?x # vs"
  have a: "fst x + 16 \<le> ?a" "?a + 16 * nu = fst x + 16 * snd x" using nu by (simp_all add: algebra_simps diff_mult_distrib2)
  have far: "?a + 16 \<le> fst v" if "v \<in> set vs" for v using P(5) [OF that] a nu by linarith
  have n: "snd x - nu < 2 ^ 32" "nu < 2 ^ 32" using below_bounds [OF P(1)] nu by auto
  have "linked ?m (fst y) us = linked (um s) (fst y) us" "linked ?m (base s) vs = linked (um s) (base s) vs"
    by (rule linked_cong; use P(3,4) far a in \<open>fastforce simp: head_simps\<close>)+
  moreover have "h_ptr ?m (fst y) = h_ptr (um s) (fst y)" "h_size ?m (fst y) = h_size (um s) (fst y)"
    using P(3) a by (simp_all add: head_simps)
  moreover have "h_ptr ?m (fst x) = nxt (base s) vs" "h_size ?m (fst x) = snd x - nu" using P(7) a n by (simp_all add: head_simps)
  ultimately have "linked ?m (base s) ?ys" using L by (auto simp: heap_list_def linked_append)
  moreover have "sorted_wrt apart ?ys" using L by (auto simp: heap_list_def sorted_wrt_append apart_def)
  moreover have "below ?x" "base s + 16 \<le> fst ?x" using P(1,2) nu by (auto simp: below_def)
  ultimately have "heap_list ?ys ?t" using L by (cases us) (auto simp: heap_list_def)
  moreover have cx: "cells x = cells ?x \<union> cells (?a, nu)" using a(2) nu by (auto simp: cells_def)
  moreover have "?m i = um s i" if "i \<notin> \<Union> (cells ` set (us @ y # x # vs))" for i
  proof -
    have "i \<notin> cells ?x" "i \<notin> cells (?a, nu)" using that cx by auto
    then show ?thesis using nu by (auto simp: cells_def head_outside not_less)
  qed
  moreover have "\<Union> (cells ` set (us @ y # x # vs)) = \<Union> (cells ` set ?ys) \<union> cells (?a, nu)" using cx by auto
  moreover have "\<Union> (cells ` set ?ys) \<inter> cells (?a, nu) = {}"
  proof -
    have "cells ?x \<inter> cells (?a, nu) = {}" by (auto simp: cells_def)
    moreover have "cells z \<inter> cells (?a, nu) = {}" if "z \<in> set (us @ y # vs)" for z using P(11) [OF that] cx by blast
    ultimately show ?thesis by fastforce
  qed
  moreover have ba: "below (?a, nu)" using P(1) a(2) nu by (simp add: below_def)
  moreover have "h_size ?m ?a = nu" using n by (simp add: head_simps)
  ultimately have "heap_at C (insert (?a, nu) A) ?ys ?t \<and> (?a, nu) \<notin> A \<and> (\<forall>b \<in> A. \<forall>i \<in> cells b. um ?t i = um s i)"
    by (intro malloc_take_heap [OF H refl _ _ _ ba]) auto
  then show ?thesis
    using P(6) nu n unfolding takes_def
    by (intro exI [of _ ?ys] exI [of _ ?a] exI [of _ ?t]) (auto simp: malloc_take_def Let_def head_simps)
qed

lemma malloc_round:
  assumes H: "heap_at C A xs s" and nu: "0 < nu"
  shows "(\<exists>r. malloc_loop grow nu (freep s) (h_ptr (um s) (freep s)) s = Some r \<and> takes C A nu s r) \<or>
    (\<forall>x \<in> set xs. snd x < nu) \<and>
      malloc_loop grow nu (freep s) (h_ptr (um s) (freep s)) s = (case morecore grow nu s of None \<Rightarrow> None
        | Some (r, s') \<Rightarrow> if r = 0 then Some (0, s') else malloc_loop grow nu r (h_ptr (um s') r) s')"
proof -
  obtain us f vs where R: "xs = us @ f # vs" "fst f = freep s" "linked (um s) (nxt (base s) vs) (vs @ us @ [f])"
    "distinct (map fst (vs @ us @ [f]))" "h_ptr (um s) (freep s) = fst (hd (vs @ us @ [f]))" "hd (us @ [f]) = (base s, 0)"
    by (rule heap_list_rotate [of xs s]) (use H in \<open>simp add: heap_at_def\<close>)
  have set: "set (vs @ us @ [f]) = set xs" using R(1) by auto
  have take: "takes C A nu s (malloc_take nu (fst (last ((freep s, 0) # v1))) (fst x) s)"
    if x: "vs @ us @ [f] = v1 @ x # w1" "nu \<le> snd x" for v1 x w1
  proof -
    have "x \<noteq> hd (us @ [f])" using R(6) x(2) nu by auto
    then obtain us' y vs' where y: "xs = us' @ y # x # vs'" "fst y = fst (last ((fst f, 0) # v1))"
      using rotated_pred [OF x(1)] R(1) by blast
    show ?thesis
    proof (cases "snd x = nu")
      case True
      then show ?thesis using malloc_take_whole [OF H [unfolded y(1)]] y(2) R(2) by simp
    next
      case False
      then show ?thesis using malloc_take_part [OF H [unfolded y(1)], of nu] y(2) R(2) x(2) nu by simp
    qed
  qed
  have "(\<exists>v1 x w1. vs @ us @ [f] = v1 @ x # w1 \<and> nu \<le> snd x \<and>
      malloc_loop grow nu (freep s) (fst (hd (vs @ us @ [f]))) s =
        Some (malloc_take nu (fst (last ((freep s, 0) # v1))) (fst x) s)) \<or>
    (\<forall>y \<in> set (vs @ us @ [f]). snd y < nu) \<and>
      malloc_loop grow nu (freep s) (fst (hd (vs @ us @ [f]))) s = (case morecore grow nu s of None \<Rightarrow> None
        | Some (r, s') \<Rightarrow> if r = 0 then Some (0, s') else malloc_loop grow nu r (h_ptr (um s') r) s')"
    by (rule malloc_scan [OF R(3)]) (use R(2,4) in auto)
  then show ?thesis unfolding R(5) set using take by blast
qed

definition allocated :: "nat set \<Rightarrow> (nat \<times> nat) set \<Rightarrow> nat \<Rightarrow> uheap \<Rightarrow> nat \<Rightarrow> uheap \<Rightarrow> bool" where
  "allocated C A nu s r t \<longleftrightarrow> 16 \<le> r \<and> (r - 16, nu) \<notin> A \<and> heap_ok (C \<union> {brk s ..< brk t}) (insert (r - 16, nu) A) t \<and>
     base t = base s \<and> brk s \<le> brk t \<and> (\<forall>b \<in> A. \<forall>i \<in> cells b. um t i = um s i)"

lemma heap_at_ok: "heap_at C A xs s \<Longrightarrow> heap_ok C A s \<and> freep s \<noteq> 0"
proof -
  assume H: "heap_at C A xs s"
  then have "base s \<le> x" if "x \<in> fst ` set xs" for x using that by (cases xs) (auto simp: heap_at_def heap_list_def)
  then have "base s \<le> freep s" "0 < base s" using H by (auto simp: heap_at_def heap_list_def)
  then show ?thesis using H by (auto simp: heap_ok_def)
qed

lemma takes_allocated:
  assumes "takes (C \<union> {brk s ..< brk s'}) A nu s' r" "base s' = base s" "brk s \<le> brk s'" "\<forall>b \<in> A. \<forall>i \<in> cells b. um s' i = um s i"
  shows "allocated C A nu s (fst r) (snd r)"
  using assms heap_at_ok unfolding takes_def allocated_def by fastforce

lemma malloc_loop_ok:
  assumes H: "heap_at C A xs s" and nu: "0 < nu" "nu * 16 < 2 ^ 31" and grow: "\<And>a n. grow a n \<Longrightarrow> a + n \<le> 2 ^ 27"
  shows "\<exists>r t. malloc_loop grow nu (freep s) (h_ptr (um s) (freep s)) s = Some (r, t) \<and>
    (if r = 0 then t = s \<and> \<not> grow (brk s) (16 * max nu 4096) else allocated C A nu s r t)"
proof -
  let ?loop = "malloc_loop grow nu (freep s) (h_ptr (um s) (freep s)) s"
  from malloc_round [OF H nu(1), of grow] consider (fit) r where "?loop = Some r" "takes C A nu s r"
    | (more) "?loop = (case morecore grow nu s of None \<Rightarrow> None
        | Some (r, s') \<Rightarrow> if r = 0 then Some (0, s') else malloc_loop grow nu r (h_ptr (um s') r) s')"
    by blast
  then show ?thesis
  proof cases
    case fit
    then have "allocated C A nu s (fst r) (snd r)" by (intro takes_allocated [where s' = s]) auto
    then show ?thesis using fit(1) by (intro exI [of _ "fst r"] exI [of _ "snd r"]) (auto simp: allocated_def)
  next
    case more
    show ?thesis
    proof (cases "grow (brk s) (16 * max nu 4096)")
      case True
      then obtain xs' s' where M: "morecore grow nu s = Some (freep s', s')" "heap_at (C \<union> {brk s ..< brk s'}) A xs' s'"
          "base s' = base s" "brk s \<le> brk s'" "\<exists>x \<in> set xs'. nu \<le> snd x" "\<forall>a \<in> A. \<forall>i \<in> cells a. um s' i = um s i"
        using morecore_ok [where grow = grow, OF H nu(2) grow] by auto
      obtain r where r: "malloc_loop grow nu (freep s') (h_ptr (um s') (freep s')) s' = Some r" "takes (C \<union> {brk s ..< brk s'}) A nu s' r"
        using malloc_round [OF M(2) nu(1), of grow] M(5) by fastforce
      have "allocated C A nu s (fst r) (snd r)" by (rule takes_allocated [OF r(2) M(3,4,6)])
      then show ?thesis
        using more M(1) r(1) heap_at_ok [OF M(2)] by (intro exI [of _ "fst r"] exI [of _ "snd r"]) (auto simp: allocated_def)
    next
      case False
      then show ?thesis using more morecore_ok [where grow = grow, OF H nu(2) grow] by auto
    qed
  qed
qed

text \<open>The first call of \<^verbatim>\<open>malloc\<close> makes the list of one node.\<close>

lemma heap_at_first:
  assumes "heap_ok C A s" "freep s = 0"
  shows "heap_at C A [(base s, 0)] (s\<lparr>um := set_size 0 (base s) (set_ptr (base s) (base s) (um s)), freep := base s\<rparr>)"
  using assms by (auto simp: heap_ok_def heap_at_def heap_list_def owns_def cells_def head_simps)

lemma u_malloc_ok:
  assumes H: "heap_ok C A s" and n: "nbytes < 2 ^ 31 - 31" and grow: "\<And>a n. grow a n \<Longrightarrow> a + n \<le> 2 ^ 27"
    and nu: "nu = (nbytes + 15) div 16 + 1"
  shows "\<exists>r t. u_malloc grow nbytes s = Some (r, t) \<and>
    (if r = 0 then heap_ok C A t \<and> \<not> grow (brk s) (16 * max nu 4096) else allocated C A nu s r t)"
proof -
  define s1 where "s1 = (if freep s = 0 then s\<lparr>um := set_size 0 (base s) (set_ptr (base s) (base s) (um s)), freep := base s\<rparr> else s)"
  obtain xs where at: "heap_at C A xs s1"
    using H heap_at_first [OF H] by (cases "freep s = 0") (auto simp: heap_ok_def s1_def)
  have same: "brk s1 = brk s" "base s1 = base s" "A = {} \<or> s1 = s" using H by (auto simp: s1_def heap_ok_def)
  have n': "nu = (nbytes + 16 - 1) div 16 + 1" using nu by simp
  have "\<exists>r t. malloc_loop grow nu (freep s1) (h_ptr (um s1) (freep s1)) s1 = Some (r, t) \<and>
    (if r = 0 then t = s1 \<and> \<not> grow (brk s1) (16 * max nu 4096) else allocated C A nu s1 r t)"
    by (rule malloc_loop_ok [OF at]) (use n nu grow in auto)
  then obtain r t where r: "malloc_loop grow nu (freep s1) (h_ptr (um s1) (freep s1)) s1 = Some (r, t)"
    "if r = 0 then t = s1 \<and> \<not> grow (brk s1) (16 * max nu 4096) else allocated C A nu s1 r t" by blast
  have "u_malloc grow nbytes s = Some (r, t)"
    unfolding u_malloc_def Let_def s1_def [symmetric] n' [symmetric] by (rule r(1))
  moreover have "allocated C A nu s r t" if "r \<noteq> 0" using r(2) same that by (auto simp: allocated_def)
  ultimately show ?thesis using r(2) heap_at_ok [OF at] same(1) by auto
qed

text \<open>The program may write what it likes into its own blocks.\<close>

lemma heap_at_write:
  assumes H: "heap_at C A xs s" and b: "b \<in> A" and m: "\<And>i. i \<notin> {fst b + 16 ..< fst b + 16 * snd b} \<Longrightarrow> m i = um s i"
  shows "heap_at C A xs (s\<lparr>um := m\<rparr>)"
proof -
  have L: "heap_list xs s" and O: "owns C A (\<Union> (cells ` set xs))" and C: "C \<subseteq> {base s + 16 ..< brk s}" using H by (auto simp: heap_at_def)
  have cb: "i \<in> cells b" if "m i \<noteq> um s i" for i
  proof -
    have "i \<in> {fst b + 16 ..< fst b + 16 * snd b}" using m that by blast
    then show ?thesis by (auto simp: cells_def)
  qed
  have "h_ptr m (fst x) = h_ptr (um s) (fst x) \<and> h_size m (fst x) = h_size (um s) (fst x)" if x: "x \<in> set xs" for x
  proof -
    have "m i = um s i" if "i \<in> {fst x ..< fst x + 16}" for i
    proof (rule ccontr)
      assume "m i \<noteq> um s i"
      then have "i \<in> cells b" by (rule cb)
      then have i: "i \<in> C" "i \<notin> cells x" using O b x unfolding owns_def by blast+
      then have "base s + 16 \<le> i" using C by auto
      moreover have "x = (base s, 0) \<or> below x" using L x by (cases xs) (auto simp: heap_list_def)
      ultimately show False using i(2) that by (auto simp: below_def cells_def)
    qed
    then show ?thesis unfolding h_ptr_def h_size_def by (intro conjI rd_cong) auto
  qed
  then have "linked m (base s) xs = linked (um s) (base s) xs" by (rule linked_cong)
  moreover have "h_size m (fst a) = snd a" if a: "a \<in> A" for a
  proof -
    have "m i = um s i" if "i \<in> {fst a ..< fst a + 16}" for i
    proof (cases "a = b")
      case False
      then have "cells a \<inter> cells b = {}" "below a" using O a b by (auto simp: owns_def)
      moreover from this have "i \<in> cells a" using that by (auto simp: cells_def below_def)
      ultimately show ?thesis using cb by blast
    qed (use that m in auto)
    then have "h_size m (fst a) = h_size (um s) (fst a)" unfolding h_size_def by (intro rd_cong) auto
    then show ?thesis using H a by (simp add: heap_at_def)
  qed
  ultimately show ?thesis using H by (simp add: heap_at_def heap_list_def)
qed

lemma heap_ok_held: "heap_ok C A s \<Longrightarrow> b \<in> A \<Longrightarrow> \<exists>xs. heap_at C A xs s"
  by (auto simp: heap_ok_def split: if_splits)

lemma allocated_disjoint:
  assumes "allocated C A nu s r t"
  shows "\<forall>b \<in> A. cells b \<inter> cells (r - 16, nu) = {}" "cells (r - 16, nu) \<subseteq> C \<union> {brk s ..< brk t}"
proof -
  have a: "(r - 16, nu) \<notin> A" "heap_ok (C \<union> {brk s ..< brk t}) (insert (r - 16, nu) A) t" using assms by (auto simp: allocated_def)
  then obtain xs where "owns (C \<union> {brk s ..< brk t}) (insert (r - 16, nu) A) (\<Union> (cells ` set xs))"
    using heap_ok_held [OF a(2), of "(r - 16, nu)"] by (auto simp: heap_at_def)
  then have "\<forall>b \<in> insert (r - 16, nu) A. \<forall>c \<in> insert (r - 16, nu) A. b \<noteq> c \<longrightarrow> cells b \<inter> cells c = {}"
    "\<Union> (cells ` insert (r - 16, nu) A) \<subseteq> C \<union> {brk s ..< brk t}"
    by (simp_all only: owns_def) auto
  then show "\<forall>b \<in> A. cells b \<inter> cells (r - 16, nu) = {}" "cells (r - 16, nu) \<subseteq> C \<union> {brk s ..< brk t}"
    using a(1) by (metis insertCI, simp)
qed

lemma malloc_part:
  assumes "heap_ok C A s" "nbytes < 2 ^ 31 - 31" "\<And>a n. grow a n \<Longrightarrow> a + n \<le> 2 ^ 27" "nu = (nbytes + 15) div 16 + 1"
  shows "\<exists>r t. u_malloc grow nbytes s = Some (r, t) \<and> nbytes \<le> 16 * nu - 16 \<and>
      (if r = 0 then heap_ok C A t \<and> \<not> grow (brk s) (16 * max nu 4096)
       else 16 \<le> r \<and> (\<forall>b \<in> A. cells b \<inter> cells (r - 16, nu) = {} \<and> (\<forall>i \<in> cells b. um t i = um s i)) \<and>
         cells (r - 16, nu) \<subseteq> C \<union> {brk s ..< brk t} \<and> heap_ok (C \<union> {brk s ..< brk t}) (insert (r - 16, nu) A) t)"
proof -
  obtain r t where r: "u_malloc grow nbytes s = Some (r, t)"
    "if r = 0 then heap_ok C A t \<and> \<not> grow (brk s) (16 * max nu 4096) else allocated C A nu s r t"
    using u_malloc_ok [where grow = grow, OF assms] by blast
  have "nbytes \<le> 16 * nu - 16" using assms(4) by simp
  moreover have "allocated C A nu s r t" if "r \<noteq> 0" using r(2) that by simp
  ultimately show ?thesis
    using r allocated_disjoint [of C A nu s r t]
    by (intro exI [of _ r] exI [of _ t]) (cases "r = 0"; simp add: allocated_def ball_conj_distrib)
qed

lemma free_part:
  assumes "heap_ok C A s" "b \<in> A"
  shows "\<exists>t. u_free (fst b + 16) s = Some t \<and> heap_ok C (A - {b}) t \<and> brk t = brk s \<and>
      (\<forall>a \<in> A - {b}. \<forall>i \<in> cells a. um t i = um s i)"
proof -
  obtain xs where "heap_at C A xs s" using heap_ok_held [OF assms] by blast
  then show ?thesis using u_free_ok [of C A xs s b] assms(2) heap_at_ok by blast
qed

lemma write_part:
  assumes "heap_ok C A s" "b \<in> A" "\<And>i. i \<notin> {fst b + 16 ..< fst b + 16 * snd b} \<Longrightarrow> m i = um s i"
  shows "heap_ok C A (s\<lparr>um := m\<rparr>)"
proof -
  obtain xs where "heap_at C A xs s" using heap_ok_held [OF assms(1,2)] by blast
  then have "heap_at C A xs (s\<lparr>um := m\<rparr>)" by (rule heap_at_write [OF _ assms(2,3)])
  then show ?thesis using heap_at_ok by blast
qed

text \<open>
  C18. The allocator of user programs. In every state of the heap, \<^verbatim>\<open>malloc\<close> of fewer than 2 GB returns; it returns 0 only
  if the kernel refused to grow the process, and otherwise the address of a new block, large enough and disjoint from all blocks
  that the program holds, whose contents do not change. \<^verbatim>\<open>free\<close> of a block that the program holds returns and
  gives the block back. Whatever the program writes into its blocks, the invariant holds: every byte obtained from the
  kernel is either in one block of the program or in one free block, so none is lost, and no two free blocks touch. The
  kernel is assumed to have at most the 128 MB of physical memory that xv6 uses.
\<close>

theorem malloc_free:
  assumes "heap_ok C A s" "nbytes < 2 ^ 31 - 31" "\<And>a n. grow a n \<Longrightarrow> a + n \<le> 2 ^ 27" "nu = (nbytes + 15) div 16 + 1"
  shows "(\<exists>r t. u_malloc grow nbytes s = Some (r, t) \<and> nbytes \<le> 16 * nu - 16 \<and>
      (if r = 0 then heap_ok C A t \<and> \<not> grow (brk s) (16 * max nu 4096)
       else 16 \<le> r \<and> (\<forall>b \<in> A. cells b \<inter> cells (r - 16, nu) = {} \<and> (\<forall>i \<in> cells b. um t i = um s i)) \<and>
         cells (r - 16, nu) \<subseteq> C \<union> {brk s ..< brk t} \<and> heap_ok (C \<union> {brk s ..< brk t}) (insert (r - 16, nu) A) t)) \<and>
    (\<forall>b \<in> A. \<exists>t. u_free (fst b + 16) s = Some t \<and> heap_ok C (A - {b}) t \<and> brk t = brk s \<and>
      (\<forall>a \<in> A - {b}. \<forall>i \<in> cells a. um t i = um s i)) \<and>
    (\<forall>b \<in> A. \<forall>m. (\<forall>i. i \<notin> {fst b + 16 ..< fst b + 16 * snd b} \<longrightarrow> m i = um s i) \<longrightarrow> heap_ok C A (s\<lparr>um := m\<rparr>))"
  by (intro conjI ballI allI impI malloc_part [where grow = grow, OF assms] free_part [OF assms(1)] write_part [OF assms(1)])
    auto

definition demo_heap :: uheap where
  "demo_heap = \<lparr>um = (\<lambda>_. 0), freep = 0, base = 4096, brk = 16384\<rparr>"

definition demo_grow :: "nat \<Rightarrow> nat \<Rightarrow> bool" where
  "demo_grow a n \<longleftrightarrow> a + n \<le> 2 ^ 27"

theorem malloc_free_witness:
  "\<exists>r t t'. u_malloc demo_grow 100 demo_heap = Some (r, t) \<and> r \<noteq> 0 \<and> u_free r t = Some t' \<and> heap_ok {16384 ..< brk t'} {} t'"
proof -
  have h: "heap_ok {} {} demo_heap" by (simp add: heap_ok_def demo_heap_def)
  have g: "\<And>a n. demo_grow a n \<Longrightarrow> a + n \<le> 2 ^ 27" by (simp add: demo_grow_def)
  have "demo_grow (brk demo_heap) (16 * max 8 4096)" by (simp add: demo_heap_def demo_grow_def)
  then obtain r t where r: "u_malloc demo_grow 100 demo_heap = Some (r, t)" "16 \<le> r"
    "heap_ok ({} \<union> {brk demo_heap ..< brk t}) {(r - 16, 8)} t"
    using malloc_free [where grow = demo_grow, OF h _ g, of 100 8] by (auto split: if_splits)
  obtain t' where "u_free (fst (r - 16, 8 :: nat) + 16) t = Some t'" "heap_ok ({} \<union> {brk demo_heap ..< brk t}) ({(r - 16, 8)} - {(r - 16, 8)}) t'"
      "brk t' = brk t"
    using malloc_free [where grow = demo_grow, OF r(3) _ g, of 0 1] by auto
  then show ?thesis using r by (intro exI [of _ r] exI [of _ t] exI [of _ t']) (auto simp: demo_heap_def)
qed

end
