(* ===== verification/Spec2Isabelle.thy ===== *)
theory Spec2Isabelle
  imports Kstring Kalloc Vm_Map Log_Spec Trap Virtio_Spec Pipe_Spec Grep Sh_Spec Sh_Run Fs_Spec File_Spec Sched_Spec Trap_Spec Umalloc
begin

text \<open>
  A verification development of \<^bold>\<open>xv6\<close>, a Unix-like operating system for RISC-V multiprocessors
  (\<^verbatim>\<open>src/xv6-riscv\<close>): the kernel, the C library of user programs, the shell and \<^verbatim>\<open>grep\<close>.

  \<^bold>\<open>The program and how its parts interact.\<close> User programs enter the kernel by traps (\<^verbatim>\<open>trap.c\<close>);
  \<^verbatim>\<open>syscall.c\<close> finds the handler in \<^verbatim>\<open>sysproc.c\<close> or \<^verbatim>\<open>sysfile.c\<close>. The handlers work on processes
  (\<^verbatim>\<open>proc.c\<close>, \<^verbatim>\<open>exec.c\<close>), on the open files of \<^verbatim>\<open>file.c\<close>, which are pipes, devices and inodes, and
  copy from and to user memory through the page tables of \<^verbatim>\<open>vm.c\<close>. Inodes and directories (\<^verbatim>\<open>fs.c\<close>) are changed in
  transactions of the redo log (\<^verbatim>\<open>log.c\<close>), which rests on the buffer cache (\<^verbatim>\<open>bio.c\<close>) and the disk driver
  (\<^verbatim>\<open>virtio_disk.c\<close>). Every part uses spinlocks, sleep-locks and the pages of \<^verbatim>\<open>kalloc.c\<close>.

  \<^bold>\<open>How code is modelled.\<close> A kernel function is a state transformer of type \<open>('s, 'a) thread\<close>
  (theory \<open>Xv6_Prelude\<close>). Its outcome is \<open>Done\<close> with a value, \<open>Panic\<close> with the message, \<open>Swtch\<close> when the thread
  gives up the processor in \<^verbatim>\<open>sched\<close>, or \<open>Spin\<close> when it waits for another hart. The part of a function
  after a context switch is a definition of its own, with the suffix \<open>_resume\<close>. The state is one extensible record; each
  theory adds its fields, so a function is typed by the part of the state that it needs: \<open>kstate\<close> (harts and locks),
  \<open>kmstate\<close> (memory and free list), \<open>vmstate\<close>, \<open>pkstate\<close> (process table), \<open>slstate\<close>, \<open>bstate\<close> (buffers and disk),
  \<open>lgstate\<close>, \<open>ustate\<close> (serial port and console), \<open>fsstate\<close>, \<open>ftstate\<close> (pipes and files), \<open>vstate\<close> (disk driver), \<open>trstate\<close>
  (control registers). Physical memory and disk blocks are arrays of bytes; page tables, the free list, on-disk inodes and
  directory entries are stored in them and read back with \<open>rd\<close> and \<open>wr\<close>. C integers are words of their width, or
  numbers with the wrap-around written out. Loops are structural recursion, \<open>function\<close> with a termination proof, or
  \<open>partial_function\<close> where the C loop need not end.

  \<^bold>\<open>The theories.\<close>
  \<^item> \<open>Xv6_Prelude\<close>, \<open>Xv6_Params\<close>: the thread monad, byte arrays, the locales \<open>ring\<close>, \<open>pool\<close> and \<open>invariant_system\<close>, which
    \<open>Uart\<close>, \<open>Console\<close>, \<open>Pipe_Spec\<close>, \<open>Kalloc\<close> and \<open>Spinlock\<close> interpret; the constants of \<^verbatim>\<open>param.h\<close> and
    \<^verbatim>\<open>memlayout.h\<close>.
  \<^item> \<open>Spinlock\<close> (\<^verbatim>\<open>spinlock.c\<close>): the functions, and a step relation of several harts that contend for one lock, with
    mutual exclusion as an invariant of all interleavings.
  \<^item> \<open>Kstring\<close> (\<^verbatim>\<open>string.c\<close>): every routine, \<^verbatim>\<open>memmove\<close> with overlap.
  \<^item> \<open>Kalloc\<close> (\<^verbatim>\<open>kalloc.c\<close>): the free list inside the free pages; no page is handed out twice or lost.
  \<^item> \<open>Vm\<close>, \<open>Vm_Tree\<close>, \<open>Vm_Map\<close> (\<^verbatim>\<open>vm.c\<close>): the functions; page tables as trees of distinct pages; the effect of mapping,
    unmapping and copying on the address space.
  \<^item> \<open>Proc\<close>, \<open>Sched_Spec\<close> (\<^verbatim>\<open>proc.c\<close>): the process table, sleeping and waking, killing; every runnable process is chosen
    within \<open>NPROC\<close> turns of the scheduler. \<open>Sleeplock\<close> (\<^verbatim>\<open>sleeplock.c\<close>).
  \<^item> \<open>Bio\<close>, \<open>Bio_Spec\<close> (\<^verbatim>\<open>bio.c\<close>): the doubly linked list of buffers implements least-recently-used replacement, and no
    block is cached twice.
  \<^item> \<open>Log\<close>, \<open>Log_Spec\<close> (\<^verbatim>\<open>log.c\<close>): a crash after any number of disk writes leaves all or nothing of a transaction, and
    recovery can be repeated.
  \<^item> \<open>Virtio\<close>, \<open>Virtio_Spec\<close> (\<^verbatim>\<open>virtio_disk.c\<close>): the driver together with a device that follows the virtio standard, serving only
    what is on the available ring and notified to it, implements the block transfer \<open>disk_rw\<close> that \<open>Bio\<close> relies on.
  \<^item> \<open>Uart\<close>, \<open>Printf\<close>, \<open>Console\<close> (\<^verbatim>\<open>uart.c\<close>, \<^verbatim>\<open>printf.c\<close>, \<^verbatim>\<open>console.c\<close>): output in order, decimal printing, line editing.
  \<^item> \<open>Fs\<close>, \<open>Fs_Spec\<close> (\<^verbatim>\<open>fs.c\<close>): every function; an inode written by \<^verbatim>\<open>iupdate\<close> in a transaction reads back.
  \<^item> \<open>Pipe\<close>, \<open>Pipe_Spec\<close> (\<^verbatim>\<open>pipe.c\<close>, \<^verbatim>\<open>file.c\<close>): every function; pipes are queues of bytes between user memories.
  \<^item> \<open>Exec\<close>, \<open>Sysfile\<close>, \<open>File_Spec\<close> (\<^verbatim>\<open>exec.c\<close>, \<^verbatim>\<open>sysfile.c\<close>): program loading, the file system calls, and that the
    reference count of an open file is the number of its descriptors.
  \<^item> \<open>Trap\<close>, \<open>Trap_Spec\<close> (\<^verbatim>\<open>trap.c\<close>, \<^verbatim>\<open>syscall.c\<close>, \<^verbatim>\<open>sysproc.c\<close>, \<^verbatim>\<open>plic.c\<close>, \<^verbatim>\<open>start.c\<close>, \<^verbatim>\<open>main.c\<close>): traps, dispatch and booting; a
    system call from the trap to the return to user mode.
  \<^item> \<open>Ulib\<close>, \<open>Umalloc\<close> (\<^verbatim>\<open>user/ulib.c\<close>, \<^verbatim>\<open>user/umalloc.c\<close>): the C library; the allocator never hands out
    overlapping blocks.
  \<^item> \<open>Grep\<close> (\<^verbatim>\<open>user/grep.c\<close>): the matcher against the meaning of patterns, and the lines that are printed.
  \<^item> \<open>Sh\<close>, \<open>Sh_Spec\<close>, \<open>Sh_Run\<close> (\<^verbatim>\<open>user/sh.c\<close>): the parser returns on every line and inverts a printer; the programs that
    are run, and their descriptors, are those that the command lines mean.

  \<^bold>\<open>Bounds and fuel.\<close> Loops of the kernel that scan a table have the bounds of the code. \<open>kill_line\<close> and \<open>uartstart_loop\<close> run
  for as many rounds as there are bytes in their buffers, and one more. The parser of the shell has fuel, and
  \<open>parsecmd_bounds\<close> proves that four units per byte of the line, and four more, are enough. The theorems about a
  \<open>partial_function\<close> prove that it returns; \<^verbatim>\<open>atoi\<close> is defined only and has no theorem.

  \<^bold>\<open>Assumptions of the theorems.\<close> The theorems about single kernel functions are for a thread that meets no held lock
  (\<open>quiet\<close>, \<open>table_free\<close>): the locks make its critical sections atomic, which \<open>mutual_exclusion\<close> proves for the lock itself.
  Devices and the outside of the machine appear as state (registers, input, requests of the disk queue) or as arguments.

  \<^bold>\<open>Not modelled.\<close>
  \<^item> The assembly of \<^verbatim>\<open>entry.S\<close>, \<^verbatim>\<open>swtch.S\<close>, \<^verbatim>\<open>trampoline.S\<close>, \<^verbatim>\<open>kernelvec.S\<close> and \<^verbatim>\<open>user/initcode.S\<close>: it moves registers that the C
    code never names. Its effect appears as the outcome \<open>Swtch\<close>, the \<open>_resume\<close> definitions and the trap frame.
  \<^item> \<^verbatim>\<open>usertests.c\<close>, \<^verbatim>\<open>grind.c\<close>, \<^verbatim>\<open>forktest.c\<close>, \<^verbatim>\<open>stressfs.c\<close>: test programs, sequences of system calls with no contract of their own.
  \<^item> \<^verbatim>\<open>user/printf.c\<close>, a separate implementation of \<^verbatim>\<open>printf\<close> that differs from the kernel's in the width of its numbers; the other small utilities,
    whose work is one system call or a loop of \<^verbatim>\<open>read\<close> and \<^verbatim>\<open>write\<close>; and \<^verbatim>\<open>mkfs.c\<close>, which runs on the host.
  \<^item> \<^verbatim>\<open>usys.pl\<close>, \<^verbatim>\<open>kernel.ld\<close>, \<^verbatim>\<open>user.ld\<close> and the headers with prototypes only (\<^verbatim>\<open>defs.h\<close>, \<^verbatim>\<open>types.h\<close>).
  \<^item> Memory ordering: \<^verbatim>\<open>__sync_synchronize\<close> has no effect in the model, where every access is atomic and in order.
\<close>

end
